(* ===== verification/Prelude.thy ===== *)
theory Prelude
  imports Main "HOL-Library.AList" "HOL-Library.Code_Target_Nat" "HOL-Library.Multiset"
begin

text \<open>
  What every component of the development shares: the collections that automation draws on,
  Python exceptions as values, remote calls that can fail on either side of their effect,
  and the list and dictionary lemmas used in more than one theory.
\<close>

named_theorems py_simps \<open>evaluation rules of the Python string and bytes operations\<close>
named_theorems rx_simps \<open>unfolding rules of the regular-expression matcher\<close>
named_theorems redis_laws \<open>the documented effect of the Redis commands on the views\<close>
named_theorems inv_intros \<open>introduction rules for component invariants\<close>

section \<open>Exceptions and effects\<close>

text \<open>The exceptions the modelled code raises or catches.\<close>

datatype exn =
    RedisError        \<comment> \<open>any \<open>redis.exceptions\<close> or socket error of a Redis call\<close>
  | LuaError          \<comment> \<open>a script aborted inside the Redis server\<close>
  | DbError           \<comment> \<open>any error of the ClickHouse driver\<close>
  | ValueError
  | TypeError
  | OverflowError
  | IntegrityError    \<comment> \<open>\<open>sqlite3.IntegrityError\<close>\<close>
  | RuntimeError
  | OSError
  | KeyError
  | IndexError
  | AttributeError

type_synonym 'a result = "exn + 'a"

text \<open>An operation on a state: it raises or returns, and leaves a state either way.\<close>

type_synonym ('s, 'a) eff = "'s \<Rightarrow> 'a result \<times> 's"

text \<open>
  A call to a service over the network. The caller sees a reply or an exception; with an
  exception the service may have carried the command out or not (the reply was lost, or the
  connection was refused).
\<close>

datatype net = Reply | Refused | ReplyLost

fun remote :: "exn \<Rightarrow> net \<Rightarrow> ('s, 'a) eff \<Rightarrow> ('s, 'a) eff" where
  "remote e Reply f s = f s"
| "remote e Refused f s = (Inl e, s)"
| "remote e ReplyLost f s = (Inl e, snd (f s))"

lemma remote_state:
  "snd (remote e n f s) = (if n = Refused then s else snd (f s))"
  by (cases n) auto

lemma remote_Inr_iff:
  "fst (remote e n f s) = Inr v \<longleftrightarrow> n = Reply \<and> fst (f s) = Inr v"
  by (cases n) auto

fun ok_or :: "'a \<Rightarrow> 'a result \<Rightarrow> 'a" where
  "ok_or d (Inl _) = d"
| "ok_or d (Inr v) = v"

lemma map_sum_Inr_iff: "map_sum f g x = Inr y \<longleftrightarrow> (\<exists>z. x = Inr z \<and> y = g z)"
  by (cases x) auto

lemma map_sum_Inl_iff: "map_sum f g x = Inl y \<longleftrightarrow> (\<exists>z. x = Inl z \<and> y = f z)"
  by (cases x) auto

text \<open>Going on with a result, unless it is an exception.\<close>

definition and_then :: "'a result \<Rightarrow> ('a \<Rightarrow> 'b result) \<Rightarrow> 'b result" where
  "and_then r f = (case r of Inl e \<Rightarrow> Inl e | Inr x \<Rightarrow> f x)"

lemma and_then_Inr [simp]: "and_then r f = Inr y \<longleftrightarrow> (\<exists>x. r = Inr x \<and> f x = Inr y)"
  by (cases r) (simp_all add: and_then_def)

section \<open>Dictionaries in insertion order\<close>

text \<open>
  A Python dict keeps its insertion order, and assigning to a present key keeps its place:
  \<open>AList.update\<close> does exactly this.
\<close>

type_synonym ('k, 'v) pydict = "('k \<times> 'v) list"

definition dict_get :: "('k, 'v) pydict \<Rightarrow> 'k \<Rightarrow> 'v \<Rightarrow> 'v" where
  "dict_get d k x = (case map_of d k of None \<Rightarrow> x | Some v \<Rightarrow> v)"

definition dict_set :: "('k, 'v) pydict \<Rightarrow> 'k \<Rightarrow> 'v \<Rightarrow> ('k, 'v) pydict" where
  "dict_set d k v = AList.update k v d"

lemma map_of_dict_set [simp]: "map_of (dict_set d k v) = (map_of d)(k \<mapsto> v)"
  by (simp add: dict_set_def update_conv')

lemma dict_get_set: "dict_get (dict_set d k v) k' x = (if k' = k then v else dict_get d k' x)"
  by (simp add: dict_get_def)

lemma dict_get_Nil [simp]: "dict_get [] k x = x"
  by (simp add: dict_get_def)

lemma distinct_dict_set [simp]:
  "distinct (map fst d) \<Longrightarrow> distinct (map fst (dict_set d k v))"
  by (simp add: dict_set_def distinct_update)

lemma dict_set_not_Nil [simp]: "dict_set d k v \<noteq> []"
  by (cases d) (auto simp: dict_set_def)

section \<open>Lists\<close>

lemma take_length_append [simp]: "take (length (a @ b) - length b) (a @ b) = a"
  by simp

lemma concat_map_singleton: "concat (map f [x]) = f x"
  by simp

lemma concat_map_all_Nil:
  assumes "\<And>x. x \<in> set xs \<Longrightarrow> f x = []"
  shows "concat (map f xs) = []"
  using assms by (induction xs) auto

lemma hd_concat_map:
  assumes "f x \<noteq> []"
  shows "concat (map f (x # xs)) \<noteq> [] \<and> hd (concat (map f (x # xs))) = hd (f x)"
  using assms by simp

lemma takeWhile_append_stop:
  assumes "\<And>x. x \<in> set xs \<Longrightarrow> P x" and "ys = [] \<or> \<not> P (hd ys)"
  shows "takeWhile P (xs @ ys) = xs"
  using assms by (cases ys) (auto simp: takeWhile_append)

end
