(* ===== verification/Py_Str.thy ===== *)
theory Py_Str
  imports Prelude
begin

text \<open>
  Python's \<open>str\<close> and \<open>bytes\<close> as the code uses them. A \<open>str\<close> is the list of its code
  points, a \<open>bytes\<close> value is a list of 8-bit characters. The Unicode character database is
  a parameter (\<open>ucd\<close>): it answers for code points from 128 on, and the ASCII half of every
  operation is written out. UTF-8 decoding with \<open>errors="replace"\<close> follows CPython: one
  U+FFFD for each maximal ill-formed prefix.
\<close>

type_synonym pystr = "nat list"
type_synonym pybytes = string

record ucd =
  ud_decimal :: "nat \<Rightarrow> nat option"   \<comment> \<open>decimal value of an \<open>Nd\<close> character\<close>
  ud_digit :: "nat \<Rightarrow> bool"           \<comment> \<open>further characters of \<open>str.isdigit\<close>\<close>
  ud_space :: "nat \<Rightarrow> bool"
  ud_alnum :: "nat \<Rightarrow> bool"
  ud_upper :: "nat \<Rightarrow> nat list"       \<comment> \<open>full upper-case mapping\<close>
  ud_islower :: "nat \<Rightarrow> bool"
  ud_isupper :: "nat \<Rightarrow> bool"

text \<open>A database that knows ASCII only, for the witnesses.\<close>

definition ascii_only :: ucd where
  "ascii_only = \<lparr>ud_decimal = (\<lambda>_. None), ud_digit = (\<lambda>_. False), ud_space = (\<lambda>_. False),
                 ud_alnum = (\<lambda>_. False), ud_upper = (\<lambda>c. [c]),
                 ud_islower = (\<lambda>_. False), ud_isupper = (\<lambda>_. False)\<rparr>"

definition lit :: "string \<Rightarrow> pystr" where
  "lit s = map of_char s"

definition ascii :: "pystr \<Rightarrow> bool" where
  "ascii s = list_all (\<lambda>c. c < 128) s"

section \<open>Character classes\<close>

definition is_ascii_digit :: "nat \<Rightarrow> bool" where
  "is_ascii_digit c = (48 \<le> c \<and> c \<le> 57)"

text \<open>\<open>\d\<close> of a \<open>str\<close> pattern, and what \<open>int()\<close> reads: the \<open>Nd\<close> characters.\<close>

definition dec_val :: "ucd \<Rightarrow> nat \<Rightarrow> nat option" where
  "dec_val U c = (if c < 128 then (if is_ascii_digit c then Some (c - 48) else None)
                  else ud_decimal U c)"

definition is_decimal :: "ucd \<Rightarrow> nat \<Rightarrow> bool" where
  "is_decimal U c = (dec_val U c \<noteq> None)"

definition is_digit :: "ucd \<Rightarrow> nat \<Rightarrow> bool" where
  "is_digit U c = (is_decimal U c \<or> 128 \<le> c \<and> ud_digit U c)"

definition is_space :: "ucd \<Rightarrow> nat \<Rightarrow> bool" where
  "is_space U c =
     (if c < 128 then 9 \<le> c \<and> c \<le> 13 \<or> 28 \<le> c \<and> c \<le> 32 else ud_space U c)"

definition is_word :: "ucd \<Rightarrow> nat \<Rightarrow> bool" where
  "is_word U c =
     (if c < 128 then is_ascii_digit c \<or> 65 \<le> c \<and> c \<le> 90 \<or> 97 \<le> c \<and> c \<le> 122 \<or> c = 95
      else ud_alnum U c)"

definition to_upper :: "ucd \<Rightarrow> nat \<Rightarrow> nat list" where
  "to_upper U c =
     (if c < 128 then [if 97 \<le> c \<and> c \<le> 122 then c - 32 else c] else ud_upper U c)"

definition is_lower :: "ucd \<Rightarrow> nat \<Rightarrow> bool" where
  "is_lower U c = (if c < 128 then 97 \<le> c \<and> c \<le> 122 else ud_islower U c)"

definition is_upper :: "ucd \<Rightarrow> nat \<Rightarrow> bool" where
  "is_upper U c = (if c < 128 then 65 \<le> c \<and> c \<le> 90 else ud_isupper U c)"

section \<open>Operations on \<open>str\<close>\<close>

fun py_startswith :: "'a list \<Rightarrow> 'a list \<Rightarrow> bool" where
  "py_startswith s [] = True"
| "py_startswith [] (p # ps) = False"
| "py_startswith (c # cs) (p # ps) = (c = p \<and> py_startswith cs ps)"

text \<open>\<open>s.find(sub)\<close>: the least index, or \<open>None\<close> for Python's \<open>-1\<close>.\<close>

fun py_find :: "'a list \<Rightarrow> 'a list \<Rightarrow> nat option" where
  "py_find [] sub = (if sub = [] then Some 0 else None)"
| "py_find (c # cs) sub =
     (if py_startswith (c # cs) sub then Some 0 else map_option Suc (py_find cs sub))"

text \<open>\<open>s.find(sub, start)\<close> for a start that is not negative.\<close>

definition py_find_from :: "'a list \<Rightarrow> 'a list \<Rightarrow> nat \<Rightarrow> nat option" where
  "py_find_from s sub start =
     (if length s < start then None else map_option (\<lambda>i. start + i) (py_find (drop start s) sub))"

text \<open>\<open>s[a:b]\<close> for bounds that are not negative.\<close>

definition py_slice :: "'a list \<Rightarrow> nat \<Rightarrow> nat \<Rightarrow> 'a list" where
  "py_slice s a b = take (b - a) (drop a s)"

definition py_isdigit :: "ucd \<Rightarrow> pystr \<Rightarrow> bool" where
  "py_isdigit U s = (s \<noteq> [] \<and> list_all (is_digit U) s)"

definition py_upper :: "ucd \<Rightarrow> pystr \<Rightarrow> pystr" where
  "py_upper U s = concat (map (to_upper U) s)"

definition py_lstrip :: "ucd \<Rightarrow> pystr \<Rightarrow> pystr" where
  "py_lstrip U s = dropWhile (is_space U) s"

definition py_strip :: "ucd \<Rightarrow> pystr \<Rightarrow> pystr" where
  "py_strip U s = rev (dropWhile (is_space U) (rev (py_lstrip U s)))"

text \<open>
  \<open>int(s)\<close> on a string of decimal characters; anything else raises (the code calls it on
  regex captures only, so signs, blanks and underscores do not arise).
\<close>

fun dec_digits :: "ucd \<Rightarrow> pystr \<Rightarrow> nat \<Rightarrow> nat option" where
  "dec_digits U [] acc = Some acc"
| "dec_digits U (c # cs) acc =
     (case dec_val U c of None \<Rightarrow> None | Some d \<Rightarrow> dec_digits U cs (10 * acc + d))"

definition py_int :: "ucd \<Rightarrow> pystr \<Rightarrow> int result" where
  "py_int U s =
     (if s = [] then Inl ValueError
      else case dec_digits U s 0 of None \<Rightarrow> Inl ValueError | Some n \<Rightarrow> Inr (int n))"

text \<open>\<open>str(n)\<close> for \<open>n \<ge> 0\<close>.\<close>

fun py_str_nat :: "nat \<Rightarrow> pystr" where
  "py_str_nat n = (if n < 10 then [48 + n] else py_str_nat (n div 10) @ [48 + n mod 10])"

declare py_str_nat.simps [simp del]

text \<open>
  \<open>int(s)\<close> on any text: blanks around it, one sign, decimal digits with single underscores between
  them. And \<open>str(n)\<close> of any integer.
\<close>

fun int_digits :: "ucd \<Rightarrow> pystr \<Rightarrow> nat \<Rightarrow> nat option" where
  "int_digits U [] acc = Some acc"
| "int_digits U (c # cs) acc =
     (case dec_val U c of
        Some d \<Rightarrow> int_digits U cs (10 * acc + d)
      | None \<Rightarrow>
          (case cs of
             [] \<Rightarrow> None
           | e # ds \<Rightarrow>
               if c = 95 then
                 (case dec_val U e of Some d \<Rightarrow> int_digits U ds (10 * acc + d) | None \<Rightarrow> None)
               else None))"

definition int_of_text :: "ucd \<Rightarrow> pystr \<Rightarrow> int result" where
  "int_of_text U s =
     (let t = py_strip U s;
          (neg, body) =
            (case t of c # cs \<Rightarrow> if c = 45 then (True, cs) else if c = 43 then (False, cs) else (False, t)
             | [] \<Rightarrow> (False, []))
      in case body of
           [] \<Rightarrow> Inl ValueError
         | c # cs \<Rightarrow>
             if dec_val U c = None then Inl ValueError
             else
               (case int_digits U body 0 of
                  None \<Rightarrow> Inl ValueError
                | Some n \<Rightarrow> Inr (if neg then - int n else int n)))"

definition py_str_int :: "int \<Rightarrow> pystr" where
  "py_str_int n = (if n < 0 then 45 # py_str_nat (nat (- n)) else py_str_nat (nat n))"

text \<open>
  \<open>s.replace(old, new)\<close> for a pattern that is not empty, \<open>s.split(sep)\<close> for one character,
  \<open>s.splitlines()\<close>, and \<open>sep.join(parts)\<close>.
\<close>

function py_replace :: "pystr \<Rightarrow> pystr \<Rightarrow> pystr \<Rightarrow> pystr" where
  "py_replace [] old new = []"
| "py_replace (c # cs) old new =
     (if old \<noteq> [] \<and> py_startswith (c # cs) old
      then new @ py_replace (drop (length old) (c # cs)) old new
      else c # py_replace cs old new)"
  by pat_completeness auto
termination by (relation "measure (\<lambda>(s, _, _). length s)") auto

fun py_split :: "nat \<Rightarrow> pystr \<Rightarrow> pystr list" where
  "py_split sep [] = [[]]"
| "py_split sep (c # cs) =
     (if c = sep then [] # py_split sep cs
      else (case py_split sep cs of [] \<Rightarrow> [[c]] | p # ps \<Rightarrow> (c # p) # ps))"

definition line_break :: "nat \<Rightarrow> bool" where
  "line_break c = (c \<in> {10, 11, 12, 13, 28, 29, 30, 133, 8232, 8233})"

function py_splitlines :: "pystr \<Rightarrow> pystr list" where
  "py_splitlines [] = []"
| "py_splitlines (c # cs) =
     (case dropWhile (\<lambda>x. \<not> line_break x) (c # cs) of
        [] \<Rightarrow> [c # cs]
      | b # rest \<Rightarrow>
          takeWhile (\<lambda>x. \<not> line_break x) (c # cs)
          # py_splitlines (if b = 13 \<and> rest \<noteq> [] \<and> hd rest = 10 then tl rest else rest))"
  by pat_completeness auto
termination
proof (relation "measure length")
  fix c cs b rest
  assume "dropWhile (\<lambda>x. \<not> line_break x) (c # cs) = b # rest"
  then have "length rest < length (c # cs)"
    by (metis length_Cons length_dropWhile_le less_eq_Suc_le)
  then show "(if b = 13 \<and> rest \<noteq> [] \<and> hd rest = 10 then tl rest else rest, c # cs) \<in> measure length"
    by auto
qed simp

definition py_join :: "pystr \<Rightarrow> pystr list \<Rightarrow> pystr" where
  "py_join sep parts = (case parts of [] \<Rightarrow> [] | p # ps \<Rightarrow> p @ concat (map (\<lambda>x. sep @ x) ps))"

lemma strip_no_space:
  assumes "\<not> is_space U (hd s)" "\<not> is_space U (last s)" "s \<noteq> []"
  shows "py_strip U s = s"
proof -
  have "dropWhile (is_space U) s = s" using assms by (cases s) auto
  moreover have "dropWhile (is_space U) (rev s) = rev s" using assms by (cases s rule: rev_cases) auto
  ultimately show ?thesis by (simp add: py_strip_def py_lstrip_def)
qed

section \<open>Operations on \<open>bytes\<close>\<close>

definition byte :: "char \<Rightarrow> nat" where
  "byte c = of_char c"

definition bytes_isdigit :: "pybytes \<Rightarrow> bool" where
  "bytes_isdigit b = (b \<noteq> [] \<and> list_all (\<lambda>c. is_ascii_digit (byte c)) b)"

definition bytes_rstrip :: "char \<Rightarrow> pybytes \<Rightarrow> pybytes" where
  "bytes_rstrip c b = rev (dropWhile (\<lambda>x. x = c) (rev b))"

section \<open>UTF-8 decoding with replacement\<close>

definition repl_char :: nat where
  "repl_char = 65533"

definition is_cont :: "nat \<Rightarrow> bool" where
  "is_cont b = (128 \<le> b \<and> b < 192)"

text \<open>The second byte that may follow a lead byte of a three- or four-byte sequence.\<close>

definition second_ok :: "nat \<Rightarrow> nat \<Rightarrow> bool" where
  "second_ok a b =
     (is_cont b \<and> (a = 224 \<longrightarrow> 160 \<le> b) \<and> (a = 237 \<longrightarrow> b < 160)
               \<and> (a = 240 \<longrightarrow> 144 \<le> b) \<and> (a = 244 \<longrightarrow> b < 144))"

text \<open>One step: the code point decoded (or U+FFFD) and how many bytes it takes.\<close>

fun utf8_step :: "nat list \<Rightarrow> nat \<times> nat" where
  "utf8_step [] = (repl_char, 1)"
| "utf8_step (a # r) =
     (if a < 128 then (a, 1)
      else if 194 \<le> a \<and> a < 224 then
        (case r of b # _ \<Rightarrow> if is_cont b then ((a - 192) * 64 + (b - 128), 2) else (repl_char, 1)
         | [] \<Rightarrow> (repl_char, 1))
      else if 224 \<le> a \<and> a < 240 then
        (case r of
           b # c # _ \<Rightarrow>
             if \<not> second_ok a b then (repl_char, 1)
             else if \<not> is_cont c then (repl_char, 2)
             else ((a - 224) * 4096 + (b - 128) * 64 + (c - 128), 3)
         | [b] \<Rightarrow> (repl_char, if second_ok a b then 2 else 1)
         | [] \<Rightarrow> (repl_char, 1))
      else if 240 \<le> a \<and> a < 245 then
        (case r of
           b # c # d # _ \<Rightarrow>
             if \<not> second_ok a b then (repl_char, 1)
             else if \<not> is_cont c then (repl_char, 2)
             else if \<not> is_cont d then (repl_char, 3)
             else ((a - 240) * 262144 + (b - 128) * 4096 + (c - 128) * 64 + (d - 128), 4)
         | [b, c] \<Rightarrow>
             (repl_char, if \<not> second_ok a b then 1 else if \<not> is_cont c then 2 else 3)
         | [b] \<Rightarrow> (repl_char, if second_ok a b then 2 else 1)
         | [] \<Rightarrow> (repl_char, 1))
      else (repl_char, 1))"

lemma utf8_step_pos: "0 < snd (utf8_step bs)"
  by (cases bs rule: utf8_step.cases) (auto split: list.splits)

declare utf8_step.simps [simp del]

function utf8_decode :: "nat list \<Rightarrow> pystr" where
  "utf8_decode [] = []"
| "utf8_decode (a # r) =
     (let (c, n) = utf8_step (a # r) in c # utf8_decode (drop n (a # r)))"
  by pat_completeness auto
termination
proof (relation "measure length")
  fix a :: nat and r x c n
  assume "x = utf8_step (a # r)" and "(c, n) = x"
  then have "0 < n" using utf8_step_pos [of "a # r"] by (metis snd_conv)
  then show "(drop n (a # r), a # r) \<in> measure length" by simp
qed simp

text \<open>\<open>payload.decode("utf-8", "replace")\<close>: total, it never raises.\<close>

definition decode_replace :: "pybytes \<Rightarrow> pystr" where
  "decode_replace b = utf8_decode (map byte b)"

section \<open>Lemmas\<close>

lemma py_startswith_iff: "py_startswith s p \<longleftrightarrow> (\<exists>r. s = p @ r)"
  by (induction s p rule: py_startswith.induct) auto

lemma py_startswith_append [simp]: "py_startswith (p @ r) p"
  by (auto simp: py_startswith_iff)

lemma py_find_Some:
  "py_find s sub = Some i \<Longrightarrow> i \<le> length s \<and> py_startswith (drop i s) sub"
  by (induction s sub arbitrary: i rule: py_find.induct) (auto split: if_splits)

lemma py_find_least:
  "py_find s sub = Some i \<Longrightarrow> j < i \<Longrightarrow> \<not> py_startswith (drop j s) sub"
proof (induction s sub arbitrary: i j rule: py_find.induct)
  case (2 c cs sub)
  then show ?case by (cases j) (auto split: if_splits)
qed (auto split: if_splits)

lemma py_find_None:
  "py_find s sub = None \<Longrightarrow> \<not> py_startswith (drop j s) sub"
proof (induction s sub arbitrary: j rule: py_find.induct)
  case (1 sub)
  then show ?case by (cases sub) auto
next
  case (2 c cs sub)
  then show ?case by (cases j) (auto split: if_splits)
qed

lemma utf8_decode_ascii: "list_all (\<lambda>b. b < 128) bs \<Longrightarrow> utf8_decode bs = bs"
  by (induction bs) (auto simp: utf8_step.simps)

lemma decode_replace_ascii:
  "ascii (lit s) \<Longrightarrow> decode_replace s = lit s"
  by (simp add: decode_replace_def lit_def ascii_def utf8_decode_ascii byte_def comp_def
      cong: map_cong)

lemma length_utf8_decode: "length (utf8_decode bs) \<le> length bs"
proof (induction bs rule: utf8_decode.induct)
  case (2 a r)
  obtain c n where cn: "utf8_step (a # r) = (c, n)" by fastforce
  then have "0 < n" using utf8_step_pos [of "a # r"] by simp
  with 2 [OF _ cn [symmetric]] cn show ?case by simp
qed simp

end
