(* ===== verification/Throttle.thy ===== *)
theory Throttle
  imports Py_Str
begin

text \<open>
  Throttling of logins: \<open>backend/app/auth/ratelimit.py\<close> over the counters with expiry of Redis,
  and the caller's address that it counts by, \<open>client_ip\<close> of \<open>backend/app/api/deps.py\<close>. Redis is
  a parameter: the commands used, and as a locale their documented effect on a view that gives
  each key its count and the time at which it expires.
\<close>

section \<open>Counters with expiry\<close>

type_synonym counter = "int \<times> int option"

record 'k counters =
  k_get :: "pystr \<Rightarrow> int \<Rightarrow> 'k \<Rightarrow> int option option"   \<comment> \<open>\<open>Some None\<close>: not an integer\<close>
  k_ttl :: "pystr \<Rightarrow> int \<Rightarrow> 'k \<Rightarrow> int"
  k_incr :: "pystr \<Rightarrow> int \<Rightarrow> 'k \<Rightarrow> 'k"
  k_expire :: "pystr \<Rightarrow> int \<Rightarrow> int \<Rightarrow> 'k \<Rightarrow> 'k"
  k_del :: "pystr \<Rightarrow> 'k \<Rightarrow> 'k"

fun alive :: "int \<Rightarrow> counter option \<Rightarrow> counter option" where
  "alive now (Some (c, Some d)) = (if now < d then Some (c, Some d) else None)"
| "alive now w = w"

locale redis_expiry =
  fixes K :: "'k counters" and W :: "'k \<Rightarrow> pystr \<Rightarrow> counter option"
  assumes get_law: "k_get K k now s = map_option (\<lambda>(c, _). Some c) (alive now (W s k))"
    and ttl_law: "k_ttl K k now s =
      (case alive now (W s k) of None \<Rightarrow> - 2 | Some (_, None) \<Rightarrow> - 1 | Some (_, Some d) \<Rightarrow> d - now)"
    and incr_law: "W (k_incr K k now s) =
      (W s)(k := Some (case alive now (W s k) of None \<Rightarrow> (1, None) | Some (c, d) \<Rightarrow> (c + 1, d)))"
    and expire_law: "W (k_expire K k secs now s) =
      (W s)(k := map_option (\<lambda>(c, _). (c, Some (now + secs))) (alive now (W s k)))"
    and kdel_law: "W (k_del K k s) = (W s)(k := None)"

section \<open>\<open>LoginThrottle\<close>\<close>

record LoginThrottle =
  max_failures :: int
  lockout :: int

definition throttle_key :: "pystr \<Rightarrow> pystr \<Rightarrow> pystr" where
  "throttle_key user ip = lit ''nls:login_fail:'' @ ip @ lit '':'' @ take 64 user"

definition throttle_check ::
    "'k counters \<Rightarrow> LoginThrottle \<Rightarrow> net \<Rightarrow> net \<Rightarrow> pystr \<Rightarrow> pystr \<Rightarrow> int \<Rightarrow> 'k \<Rightarrow> bool \<times> int" where
  "throttle_check K th n1 n2 user ip now s =
     (let key = throttle_key user ip
      in if n1 \<noteq> Reply then (True, 0)
         else
           (case k_get K key now s of
              None \<Rightarrow> (True, 0)
            | Some None \<Rightarrow> (True, 0)
            | Some (Some n) \<Rightarrow>
                if n < max_failures th then (True, 0)
                else if n2 \<noteq> Reply then (True, 0)
                else (False, max (k_ttl K key now s) 0)))"

definition record_failure ::
    "'k counters \<Rightarrow> LoginThrottle \<Rightarrow> net \<Rightarrow> pystr \<Rightarrow> pystr \<Rightarrow> int \<Rightarrow> 'k \<Rightarrow> 'k" where
  "record_failure K th net user ip now s =
     (let key = throttle_key user ip
      in snd (remote RedisError net
               (\<lambda>s. (Inr (), k_expire K key (lockout th) now (k_incr K key now s))) s))"

definition throttle_clear :: "'k counters \<Rightarrow> net \<Rightarrow> pystr \<Rightarrow> pystr \<Rightarrow> 'k \<Rightarrow> 'k" where
  "throttle_clear K net user ip s =
     snd (remote RedisError net (\<lambda>s. (Inr (), k_del K (throttle_key user ip) s)) s)"

section \<open>The caller's address\<close>

text \<open>A request as the dependencies see it. Header names are in lower case.\<close>

record request =
  rq_method :: string
  rq_peer :: "pystr option"
  rq_headers :: "string \<Rightarrow> pystr option"
  rq_cookies :: "pystr \<Rightarrow> pystr option"

definition first_part :: "nat \<Rightarrow> pystr \<Rightarrow> pystr" where
  "first_part sep s = takeWhile (\<lambda>c. c \<noteq> sep) s"

definition client_ip :: "ucd \<Rightarrow> request \<Rightarrow> pystr" where
  "client_ip U rq =
     (let peer = (case rq_peer rq of Some h \<Rightarrow> h | None \<Rightarrow> lit ''unknown'')
      in if peer = lit ''127.0.0.1'' \<or> peer = lit ''::1'' then
           (let forwarded = (case rq_headers rq ''x-forwarded-for'' of Some v \<Rightarrow> v | None \<Rightarrow> [])
            in if forwarded \<noteq> [] then py_strip U (first_part 44 forwarded) else peer)
         else peer)"

section \<open>Lemmas\<close>

text \<open>Failed logins by anyone, in order: user name, address, time.\<close>

definition failures ::
    "'k counters \<Rightarrow> LoginThrottle \<Rightarrow> (pystr \<times> pystr \<times> int) list \<Rightarrow> 'k \<Rightarrow> 'k" where
  "failures K th evs s = fold (\<lambda>(user, ip, now). record_failure K th Reply user ip now) evs s"

definition counted_up :: "int \<Rightarrow> int \<Rightarrow> counter option \<Rightarrow> counter option" where
  "counted_up secs now w =
     Some (case alive now w of None \<Rightarrow> (1, Some (now + secs)) | Some (c, _) \<Rightarrow> (c + 1, Some (now + secs)))"

text \<open>An address without a colon, as every IPv4 address is.\<close>

definition no_colon :: "pystr \<Rightarrow> bool" where
  "no_colon ip = (58 \<notin> set ip)"

lemma throttle_key_inj:
  assumes "throttle_key user ip = throttle_key user' ip'" "no_colon ip" "no_colon ip'"
    and "length user \<le> 64" "length user' \<le> 64"
  shows "user = user' \<and> ip = ip'"
proof -
  have e: "ip @ 58 # user = ip' @ 58 # user'" using assms(1,4,5) by (simp add: throttle_key_def lit_def)
  have "takeWhile (\<lambda>c. c \<noteq> 58) (a @ 58 # b) = a" if "no_colon a" for a b
    using that by (auto simp: no_colon_def takeWhile_append)
  then have "ip = ip'" using arg_cong [OF e, of "takeWhile (\<lambda>c. c \<noteq> 58)"] assms(2,3) by simp
  then show ?thesis using e by simp
qed

context redis_expiry
begin

lemma record_failure_view:
  assumes "0 < lockout th"
  shows "W (record_failure K th net user ip now s) =
    (if net = Refused then W s
     else (W s)(throttle_key user ip := counted_up (lockout th) now (W s (throttle_key user ip))))"
proof -
  have "alive now (Some (case alive now w of None \<Rightarrow> (1, None) | Some (c, d) \<Rightarrow> (c + 1, d)))
      = Some (case alive now w of None \<Rightarrow> (1, None) | Some (c, d) \<Rightarrow> (c + 1, d))" for w
    by (cases "(now, w)" rule: alive.cases) auto
  then show ?thesis
    by (simp add: record_failure_def remote_state Let_def expire_law incr_law counted_up_def
        split: option.splits prod.splits)
qed

lemma failures_view:
  assumes "0 < lockout th"
  shows "W (failures K th evs s) k =
    fold (counted_up (lockout th)) (map (\<lambda>(_, _, t). t) (filter (\<lambda>(u, i, _). throttle_key u i = k) evs)) (W s k)"
  by (induction evs arbitrary: s) (auto simp: failures_def record_failure_view [OF assms])

lemma check_view:
  "throttle_check K th Reply Reply user ip now s =
     (case alive now (W s (throttle_key user ip)) of
        None \<Rightarrow> (True, 0)
      | Some (c, d) \<Rightarrow>
          if c < max_failures th then (True, 0)
          else (False, case d of None \<Rightarrow> 0 | Some d \<Rightarrow> max (d - now) 0))"
  by (auto simp: throttle_check_def Let_def get_law ttl_law split: option.splits)

end

text \<open>A run of failures, each before the last one's lockout has run out.\<close>

lemma counted_up_run:
  assumes "successively (\<lambda>a b. a \<le> b \<and> b < a + secs) (t # ts)" and "alive t w = None"
  shows "fold (counted_up secs) (t # ts) w = Some (int (length (t # ts)), Some (last (t # ts) + secs))"
proof -
  have "fold (counted_up secs) ts (Some (n, Some (t + secs))) = Some (n + int (length ts), Some (last (t # ts) + secs))"
    if "successively (\<lambda>a b. a \<le> b \<and> b < a + secs) (t # ts)" for t ts n
    using that by (induction ts arbitrary: t n) (auto simp: counted_up_def)
  from this [OF assms(1), of 1] show ?thesis using assms(2) by (simp add: counted_up_def)
qed

section \<open>An in-memory instance\<close>

definition ref_counters :: "(pystr \<Rightarrow> counter option) counters" where
  "ref_counters =
     \<lparr>k_get = (\<lambda>k now s. map_option (\<lambda>(c, _). Some c) (alive now (s k))),
      k_ttl = (\<lambda>k now s.
        case alive now (s k) of None \<Rightarrow> - 2 | Some (_, None) \<Rightarrow> - 1 | Some (_, Some d) \<Rightarrow> d - now),
      k_incr = (\<lambda>k now s.
        s(k := Some (case alive now (s k) of None \<Rightarrow> (1, None) | Some (c, d) \<Rightarrow> (c + 1, d)))),
      k_expire = (\<lambda>k secs now s.
        s(k := map_option (\<lambda>(c, _). (c, Some (now + secs))) (alive now (s k)))),
      k_del = (\<lambda>k s. s(k := None))\<rparr>"

interpretation ref_expiry: redis_expiry ref_counters "\<lambda>s. s"
  by unfold_locales (simp_all add: ref_counters_def)

definition default_throttle :: LoginThrottle where
  "default_throttle = \<lparr>max_failures = 5, lockout = 300\<rparr>"

section \<open>Properties\<close>

text \<open>C28 (lockout_exact): A lockout follows the counter of a login, the key made of address and user name: whatever other failures come in between, after n failures under one key, the first with no counter alive and each within the lockout time of the one before, a login under this key is refused exactly when n has reached max_failures and the lockout time since the last failure has not passed, and the seconds told are those that remain, as long as Redis answers. Where the addresses hold no colon, as in IPv4, and the names are within the 64 characters of the login form, these n failures are exactly those of this user from this address.\<close>

theorem lockout_exact:
  assumes "redis_expiry K W" and "0 < lockout th"
    and "map (\<lambda>(_, _, t). t) (filter (\<lambda>(u, i, _). throttle_key u i = throttle_key user ip) evs) = t # ts"
    and "successively (\<lambda>a b. a \<le> b \<and> b < a + lockout th) (t # ts)"
    and "alive t (W s (throttle_key user ip)) = None"
  shows "throttle_check K th Reply Reply user ip now (failures K th evs s) =
      (if max_failures th \<le> int (length (t # ts)) \<and> now < last (t # ts) + lockout th
       then (False, last (t # ts) + lockout th - now) else (True, 0))
    \<and> (no_colon ip \<and> length user \<le> 64 \<and> (\<forall>(u, i, _) \<in> set evs. no_colon i \<and> length u \<le> 64) \<longrightarrow>
        map (\<lambda>(_, _, t). t) (filter (\<lambda>(u, i, _). u = user \<and> i = ip) evs) = t # ts)"
proof
  have W: "W (failures K th evs s) (throttle_key user ip)
      = Some (int (length (t # ts)), Some (last (t # ts) + lockout th))"
    unfolding redis_expiry.failures_view [OF assms(1,2)] assms(3)
    by (rule counted_up_run [OF assms(4,5)])
  show "throttle_check K th Reply Reply user ip now (failures K th evs s) =
      (if max_failures th \<le> int (length (t # ts)) \<and> now < last (t # ts) + lockout th
       then (False, last (t # ts) + lockout th - now) else (True, 0))"
    unfolding redis_expiry.check_view [OF assms(1)] W by simp
  show "no_colon ip \<and> length user \<le> 64 \<and> (\<forall>(u, i, _) \<in> set evs. no_colon i \<and> length u \<le> 64) \<longrightarrow>
      map (\<lambda>(_, _, t). t) (filter (\<lambda>(u, i, _). u = user \<and> i = ip) evs) = t # ts"
  proof
    assume a: "no_colon ip \<and> length user \<le> 64 \<and> (\<forall>(u, i, _) \<in> set evs. no_colon i \<and> length u \<le> 64)"
    have "filter (\<lambda>(u, i, _). throttle_key u i = throttle_key user ip) evs
        = filter (\<lambda>(u, i, _). u = user \<and> i = ip) evs"
      using a throttle_key_inj [of _ _ user ip] by (intro filter_cong refl) fastforce
    then show "map (\<lambda>(_, _, t). t) (filter (\<lambda>(u, i, _). u = user \<and> i = ip) evs) = t # ts" using assms(3) by simp
  qed
qed

theorem lockout_exact_witness:
  "throttle_check ref_counters default_throttle Reply Reply (lit ''admin'') (lit ''10.0.0.9'') 20
     (failures ref_counters default_throttle
        [(lit ''admin'', lit ''10.0.0.9'', 1), (lit ''admin'', lit ''10.0.0.9'', 2), (lit ''admin'', lit ''10.0.0.8'', 3),
         (lit ''admin'', lit ''10.0.0.9'', 4), (lit ''admin'', lit ''10.0.0.9'', 5), (lit ''admin'', lit ''10.0.0.9'', 6)]
        (\<lambda>_. None))
   = (False, 286)"
proof -
  let ?evs = "[(lit ''admin'', lit ''10.0.0.9'', 1), (lit ''admin'', lit ''10.0.0.9'', 2), (lit ''admin'', lit ''10.0.0.8'', 3),
         (lit ''admin'', lit ''10.0.0.9'', 4), (lit ''admin'', lit ''10.0.0.9'', 5), (lit ''admin'', lit ''10.0.0.9'', 6)]
         :: (pystr \<times> pystr \<times> int) list"
  have "map (\<lambda>(_, _, t). t) (filter (\<lambda>(u, i, _). throttle_key u i = throttle_key (lit ''admin'') (lit ''10.0.0.9'')) ?evs)
      = 1 # [2, 4, 5, 6]" by code_simp
  from lockout_exact [OF ref_expiry.redis_expiry_axioms _ this, of default_throttle "\<lambda>_. None" 20]
  show ?thesis by (simp add: default_throttle_def)
qed

text \<open>Also (counters_shared): An IPv6 address holds the separator of the key, so two logins can share one counter: of a user name that begins with the end of an address and a colon, from the shorter address, and of the rest of the name, from the longer one. Failures of the one lock out the other, although neither name nor address is the same.\<close>

theorem counters_shared:
  assumes "length user + length rest < 64" and "redis_expiry K W" and "0 < lockout th"
  shows "throttle_key (rest @ 58 # user) ip = throttle_key user (ip @ 58 # rest)
    \<and> (length ts \<noteq> 0 \<and> max_failures th \<le> int (length ts) \<and> successively (\<lambda>a b. a \<le> b \<and> b < a + lockout th) ts
        \<and> alive (hd ts) (W s (throttle_key user (ip @ 58 # rest))) = None \<and> now < last ts + lockout th \<longrightarrow>
        \<not> fst (throttle_check K th Reply Reply user (ip @ 58 # rest) now
                 (failures K th (map (\<lambda>t. (rest @ 58 # user, ip, t)) ts) s)))"
proof -
  have same: "throttle_key (rest @ 58 # user) ip = throttle_key user (ip @ 58 # rest)"
    using assms(1) by (simp add: throttle_key_def lit_def)
  moreover have "W (failures K th (map (\<lambda>t. (rest @ 58 # user, ip, t)) (t # ts)) s) (throttle_key user (ip @ 58 # rest))
      = Some (int (length (t # ts)), Some (last (t # ts) + lockout th))"
    if "successively (\<lambda>a b. a \<le> b \<and> b < a + lockout th) (t # ts)"
      "alive t (W s (throttle_key user (ip @ 58 # rest))) = None" for t ts
    unfolding redis_expiry.failures_view [OF assms(2,3)]
    using counted_up_run [OF that] by (simp add: filter_map comp_def same)
  ultimately show ?thesis
    by (cases ts) (auto simp: redis_expiry.check_view [OF assms(2)])
qed

text \<open>Also (throttle_fails_open): The throttle never locks anyone out for an outage: while Redis does not answer, every login is let through, and a failure recorded or cleared without an answer at worst leaves the counters alone.\<close>

theorem throttle_fails_open:
  "throttle_check K th Refused n2 user ip now s = (True, 0)
   \<and> throttle_check K th ReplyLost n2 user ip now s = (True, 0)
   \<and> (fst (throttle_check K th Reply Refused user ip now s))
   \<and> record_failure K th Refused user ip now s = s \<and> throttle_clear K Refused user ip s = s"
  by (auto simp: throttle_check_def record_failure_def throttle_clear_def Let_def split: option.splits)

text \<open>
  A request as the nginx of the repository passes it on: from the loopback address, with the
  client's own \<open>X-Forwarded-For\<close> before the address nginx saw
  (\<open>$proxy_add_x_forwarded_for\<close>). The shipped unit runs uvicorn with \<open>--proxy-headers\<close>, which
  replaces the peer by the last entry before the application sees it; what follows is about
  \<open>client_ip\<close> where that is not done.
\<close>

definition via_nginx :: "pystr \<Rightarrow> pystr \<Rightarrow> request" where
  "via_nginx sent seen =
     \<lparr>rq_method = ''POST'', rq_peer = Some (lit ''127.0.0.1''),
      rq_headers = (\<lambda>h. if h = ''x-forwarded-for'' then
         Some (if sent = [] then seen else sent @ lit '', '' @ seen) else None),
      rq_cookies = (\<lambda>_. None)\<rparr>"

text \<open>Also (spoofed_throttle): Where nothing before the application resolves the proxy header, the throttle can be evaded: behind nginx, client_ip is whatever the client wrote first in X-Forwarded-For, so an attacker who writes a new value with each try is let through however many failures were recorded for that user from the same real address.\<close>

theorem spoofed_throttle:
  assumes "redis_expiry K W" and "0 < lockout th" and "length user \<le> 64"
    and "\<forall>x \<in> set (fake # map fst tries). x \<noteq> [] \<and> 44 \<notin> set x \<and> 58 \<notin> set x \<and> py_strip U x = x"
    and "fake \<notin> set (map fst tries)" and "\<forall>k. W s k = None"
  shows "throttle_check K th Reply Reply user (client_ip U (via_nginx fake seen)) now
    (failures K th (map (\<lambda>(x, t). (user, client_ip U (via_nginx x seen), t)) tries) s) = (True, 0)"
proof -
  have ip: "client_ip U (via_nginx x seen) = x"
    if "x \<noteq> []" "44 \<notin> set x" "py_strip U x = x" for x
  proof -
    have "takeWhile (\<lambda>c. c \<noteq> 44) (x @ lit '', '' @ seen) = x"
      using that(2) by (intro takeWhile_append_stop) (auto simp: lit_def)
    then show ?thesis using that by (simp add: client_ip_def via_nginx_def first_part_def Let_def)
  qed
  have "filter (\<lambda>(u, i, _). throttle_key u i = throttle_key user fake)
      (map (\<lambda>(x, t). (user, client_ip U (via_nginx x seen), t)) tries) = []"
  proof -
    have "throttle_key user (client_ip U (via_nginx x seen)) \<noteq> throttle_key user fake" if "(x, t) \<in> set tries" for x t
    proof -
      have x: "x \<in> set (map fst tries)" using that by force
      then have "client_ip U (via_nginx x seen) = x" using assms(4) by (intro ip) auto
      moreover have "x \<noteq> fake" using x assms(5) by blast
      moreover have "no_colon x" "no_colon fake" using x assms(4) by (auto simp: no_colon_def)
      ultimately show ?thesis using throttle_key_inj [of user x user fake] assms(3) by auto
    qed
    then show ?thesis by (auto simp: filter_empty_conv)
  qed
  then have "W (failures K th (map (\<lambda>(x, t). (user, client_ip U (via_nginx x seen), t)) tries) s)
      (throttle_key user fake) = None"
    unfolding redis_expiry.failures_view [OF assms(1,2)] using assms(6) by simp
  moreover have "client_ip U (via_nginx fake seen) = fake" using assms(4) by (intro ip) auto
  ultimately show ?thesis unfolding redis_expiry.check_view [OF assms(1)] by simp
qed

theorem spoofed_throttle_witness:
  "throttle_check ref_counters default_throttle Reply Reply (lit ''admin'')
     (client_ip ascii_only (via_nginx (lit ''9'') (lit ''10.0.0.9''))) 20
     (failures ref_counters default_throttle
        (map (\<lambda>(x, t). (lit ''admin'', client_ip ascii_only (via_nginx x (lit ''10.0.0.9'')), t))
           [(lit ''1'', 1), (lit ''2'', 2), (lit ''3'', 3), (lit ''4'', 4), (lit ''5'', 5), (lit ''6'', 6)])
        (\<lambda>_. None))
   = (True, 0)"
  by (rule spoofed_throttle [OF ref_expiry.redis_expiry_axioms])
     (simp_all add: default_throttle_def lit_def py_strip_def py_lstrip_def is_space_def)

end
