(* ===== verification/Parser_Base.thy ===== *)
theory Parser_Base
  imports Py_Str
begin

text \<open>
  \<open>backend/app/parser/base.py\<close>: the normalised record, its row layout, the reason codes and
  the hand-written IPv4 and port validation.
\<close>

section \<open>Reason codes\<close>

datatype reason = OK | NO_MATCH | BAD_IP | BAD_PORT | NO_NAT | DECODE

text \<open>The strings of \<open>base.py\<close>; a parse that succeeds returns the empty string.\<close>

fun reason_code :: "reason \<Rightarrow> string" where
  "reason_code OK = ''''"
| "reason_code NO_MATCH = ''no_match''"
| "reason_code BAD_IP = ''bad_ip''"
| "reason_code BAD_PORT = ''bad_port''"
| "reason_code NO_NAT = ''no_nat''"
| "reason_code DECODE = ''decode''"

section \<open>The parsed record\<close>

record ParsedLog =
  private_ip :: pystr
  private_port :: int
  public_ip :: pystr
  public_port :: int
  dest_ip :: pystr
  dest_port :: int
  protocol :: pystr
  subscriber_id :: pystr

text \<open>
  The values a queue row is made of: msgpack's data model, as far as the code looks into it.
  A float is kept as the whole seconds it floors to (\<open>None\<close> for NaN and the infinities).
\<close>

datatype mval =
    MNil
  | MBool bool
  | MInt int
  | MFloat "int option"
  | MStr pystr
  | MList "mval list"
  | MOther

definition as_row :: "ParsedLog \<Rightarrow> int \<Rightarrow> pystr \<Rightarrow> mval list" where
  "as_row r ts router_ip =
     [MInt ts,
      MStr router_ip,
      MStr (subscriber_id r),
      MStr (private_ip r),
      MInt (private_port r),
      MStr (public_ip r),
      MInt (public_port r),
      MStr (dest_ip r),
      MInt (dest_port r),
      MStr (protocol r),
      MNil]"

section \<open>Validation\<close>

text \<open>
  The loop of \<open>valid_ipv4\<close>: \<open>n\<close> counts dots, \<open>octet\<close> is the current octet or \<open>-1\<close>. The
  loop returns early (\<open>None\<close>) or falls through with its variables.
\<close>

fun valid_ipv4_loop :: "pystr \<Rightarrow> int \<Rightarrow> int \<Rightarrow> (int \<times> int) option" where
  "valid_ipv4_loop [] n octet = Some (n, octet)"
| "valid_ipv4_loop (ch # text) n octet =
     (if ch = 46 then
        (if octet < 0 \<or> octet > 255 then None else valid_ipv4_loop text (n + 1) (-1))
      else
        (let d = int ch - 48 in
         if d < 0 \<or> d > 9 then None
         else
           (let octet' = (if octet < 0 then d else octet * 10 + d) in
            if octet' > 255 then None else valid_ipv4_loop text n octet')))"

definition valid_ipv4 :: "pystr \<Rightarrow> bool" where
  "valid_ipv4 text =
     (case valid_ipv4_loop text 0 (-1) of
        None \<Rightarrow> False
      | Some (n, octet) \<Rightarrow> n = 3 \<and> 0 \<le> octet \<and> octet \<le> 255)"

definition valid_port :: "int \<Rightarrow> bool" where
  "valid_port value = (0 \<le> value \<and> value \<le> 65535)"

section \<open>Dotted quads\<close>

text \<open>Decimal text without a leading zero, and the dotted quad of four numbers.\<close>

definition octet_text :: "pystr \<Rightarrow> bool" where
  "octet_text t \<longleftrightarrow> (\<exists>n < 256. t = py_str_nat n)"

definition dotted :: "nat \<Rightarrow> nat \<Rightarrow> nat \<Rightarrow> nat \<Rightarrow> pystr" where
  "dotted a b c d =
     py_str_nat a @ [46] @ py_str_nat b @ [46] @ py_str_nat c @ [46] @ py_str_nat d"

definition canonical_ipv4 :: "pystr \<Rightarrow> bool" where
  "canonical_ipv4 t \<longleftrightarrow> (\<exists>a b c d. a < 256 \<and> b < 256 \<and> c < 256 \<and> d < 256 \<and> t = dotted a b c d)"

lemma py_str_nat_small:
  "n < 10 \<Longrightarrow> py_str_nat n = [48 + n]"
  "10 \<le> n \<Longrightarrow> n < 100 \<Longrightarrow> py_str_nat n = [48 + n div 10, 48 + n mod 10]"
  "100 \<le> n \<Longrightarrow> n < 1000 \<Longrightarrow>
     py_str_nat n = [48 + n div 100, 48 + n div 10 mod 10, 48 + n mod 10]"
proof -
  show one: "py_str_nat n = [48 + n]" if "n < 10" for n
    using that by (simp add: py_str_nat.simps)
  show two: "py_str_nat n = [48 + n div 10, 48 + n mod 10]" if "10 \<le> n" "n < 100" for n
    using that one [of "n div 10"] by (subst py_str_nat.simps) simp
  show "py_str_nat n = [48 + n div 100, 48 + n div 10 mod 10, 48 + n mod 10]"
    if "100 \<le> n" "n < 1000"
    using that two [of "n div 10"] by (subst py_str_nat.simps) (simp add: div_mult2_eq [symmetric])
qed

lemma py_str_nat_digits2: "0 < x \<Longrightarrow> x < 10 \<Longrightarrow> y < 10 \<Longrightarrow> py_str_nat (10 * x + y) = [48 + x, 48 + y]"
  by (simp add: py_str_nat_small)

lemma py_str_nat_digits3:
  assumes "0 < x" "x < 10" "y < 10" "z < 10"
  shows "py_str_nat (100 * x + 10 * y + z) = [48 + x, 48 + y, 48 + z]"
proof -
  have "py_str_nat (10 * m + z) = py_str_nat m @ [48 + z]" if "0 < m" for m
    using assms that by (subst py_str_nat.simps) simp
  from this [of "10 * x + y"]
  have "py_str_nat (10 * (10 * x + y) + z) = [48 + x, 48 + y, 48 + z]"
    using assms by (simp add: py_str_nat_digits2)
  moreover have "100 * x + 10 * y + z = 10 * (10 * x + y) + z" by simp
  ultimately show ?thesis by (simp only:)
qed

lemma py_str_nat_not_Nil [simp]: "py_str_nat n \<noteq> []"
  by (subst py_str_nat.simps) simp

lemma py_str_nat_digits: "c \<in> set (py_str_nat n) \<Longrightarrow> is_ascii_digit c"
  by (induction n rule: py_str_nat.induct)
     (subst (asm) (2) py_str_nat.simps, auto simp: is_ascii_digit_def split: if_splits)

lemma length_py_str_nat: "n < 10 ^ k \<Longrightarrow> 0 < k \<Longrightarrow> length (py_str_nat n) \<le> k"
proof (induction k arbitrary: n)
  case (Suc k)
  show ?case
  proof (cases "n < 10")
    case True
    then show ?thesis by (simp add: py_str_nat_small)
  next
    case False
    then have "k \<noteq> 0" using Suc.prems by (cases k) auto
    moreover have "n div 10 < 10 ^ k" using Suc.prems by (simp add: less_mult_imp_div_less)
    ultimately have "length (py_str_nat (n div 10)) \<le> k" using Suc.IH by simp
    with False show ?thesis by (subst py_str_nat.simps) simp
  qed
qed simp

lemma length_py_str_nat_eq: "10 ^ k \<le> n \<Longrightarrow> n < 10 ^ Suc k \<Longrightarrow> length (py_str_nat n) = Suc k"
proof (induction k arbitrary: n)
  case 0
  then show ?case by (simp add: py_str_nat_small)
next
  case (Suc k)
  have "10 ^ Suc k \<ge> (10::nat)" by simp
  then have "\<not> n < 10" using Suc.prems(1) by linarith
  moreover have "10 ^ k \<le> n div 10" using Suc.prems(1) by (simp add: less_eq_div_iff_mult_less_eq mult.commute)
  moreover have "n div 10 < 10 ^ Suc k" using Suc.prems(2) by (simp add: less_mult_imp_div_less)
  ultimately show ?case using Suc.IH [of "n div 10"] by (subst py_str_nat.simps) simp
qed

lemma py_str_nat_ascii: "ascii (py_str_nat n)"
  by (auto simp: ascii_def list_all_iff is_ascii_digit_def dest!: py_str_nat_digits)

lemma is_decimal_ascii: "is_ascii_digit c \<Longrightarrow> dec_val U c = Some (c - 48)"
  by (simp add: dec_val_def is_ascii_digit_def)

lemma py_str_nat_decimal: "list_all (is_decimal U) (py_str_nat n)"
  by (auto simp: list_all_iff is_decimal_def is_decimal_ascii dest!: py_str_nat_digits)

lemma dec_digits_append:
  "dec_digits U (s @ t) k = (case dec_digits U s k of None \<Rightarrow> None | Some m \<Rightarrow> dec_digits U t m)"
  by (induction s arbitrary: k) (auto split: option.splits)

lemma dec_digits_py_str_nat: "dec_digits U (py_str_nat n) 0 = Some n"
proof (induction n rule: py_str_nat.induct)
  case (1 n)
  show ?case
  proof (cases "n < 10")
    case True
    then show ?thesis by (simp add: py_str_nat_small is_decimal_ascii is_ascii_digit_def)
  next
    case False
    with 1 have "dec_digits U (py_str_nat (n div 10)) 0 = Some (n div 10)" by simp
    with False show ?thesis
      by (subst py_str_nat.simps)
         (simp add: dec_digits_append is_decimal_ascii is_ascii_digit_def)
  qed
qed

lemma py_int_py_str_nat: "py_int U (py_str_nat n) = Inr (int n)"
  by (simp add: py_int_def dec_digits_py_str_nat)

lemma dec_digits_decimal: "list_all (is_decimal U) s \<Longrightarrow> dec_digits U s k \<noteq> None"
  by (induction s arbitrary: k) (auto simp: is_decimal_def)

lemma py_int_decimal:
  "s \<noteq> [] \<Longrightarrow> list_all (is_decimal U) s \<Longrightarrow> \<exists>n. py_int U s = Inr (int n)"
  using dec_digits_decimal [of U s 0] by (auto simp: py_int_def)

lemma int_div_mod_10: "int (m div 10) * 10 + int (m mod 10) = int m"
  by presburger

lemma octet_bound_split:
  assumes "n < (256::nat)"
  obtains "n < 10" | "10 \<le> n" "n < 100" | "100 \<le> n" "n < 256"
  using assms by linarith

text \<open>One octet of the loop.\<close>

lemma valid_ipv4_loop_octet:
  assumes "n < 256"
  shows "valid_ipv4_loop (py_str_nat n @ r) k (-1) = valid_ipv4_loop r k (int n)"
  using assms
proof (cases rule: octet_bound_split)
  case 1
  then show ?thesis by (simp add: py_str_nat_small)
next
  case 2
  have "int (n div 10) * 10 + int (n mod 10) = int n" by (rule int_div_mod_10)
  moreover have "int n \<le> 255" using assms by simp
  moreover have "n div 10 < 10" "n mod 10 \<le> 9" using 2 by auto
  ultimately show ?thesis using 2 by (simp add: py_str_nat_small Let_def)
next
  case 3
  have q: "n div 100 < 3" "n div 100 \<le> 9" "n mod 10 \<le> 9" "n div 10 mod 10 \<le> 9" using 3 by auto
  have w: "int (n div 100) * 10 + int (n div 10 mod 10) = int (n div 10)"
    using int_div_mod_10 [of "n div 10"] by (simp add: div_mult2_eq [symmetric])
  have v: "int (n div 10) * 10 + int (n mod 10) = int n" by (rule int_div_mod_10)
  have u: "int (n div 10) \<le> 255" using 3 by linarith
  have "int n \<le> 255" using assms by simp
  with q u v w 3 show ?thesis
    by (simp add: py_str_nat_small(3) Let_def)
qed

lemma valid_ipv4_dotted:
  assumes "a < 256" "b < 256" "c < 256" "d < 256"
  shows "valid_ipv4 (dotted a b c d)"
  using assms valid_ipv4_loop_octet [of d "[]" 3]
  by (simp add: valid_ipv4_def dotted_def valid_ipv4_loop_octet)

lemma canonical_valid: "canonical_ipv4 t \<Longrightarrow> valid_ipv4 t"
  by (auto simp: canonical_ipv4_def valid_ipv4_dotted)

end
