(* ===== verification/Meta_Store.thy ===== *)
theory Meta_Store
  imports Parser_Base "HOL-Library.List_Lexorder" "HOL-Library.Char_ord"
begin

text \<open>
  \<open>backend/app/database/meta.py\<close>: the SQLite tables as lists of rows in insertion order, their
  UNIQUE constraints as checks that raise \<open>IntegrityError\<close>, and \<open>AUTOINCREMENT\<close> as a counter
  that never goes back. Every operation of \<open>MetadataStore\<close> is one transaction: it raises and
  leaves the tables alone, or commits. \<open>now\<close> is the text of the current time.
\<close>

section \<open>Tables\<close>

record user =
  user_id :: int
  username :: pystr
  password_hash :: pystr
  is_admin :: int
  must_change :: int
  u_created_at :: pystr
  last_login :: "pystr option"

record router =
  router_id :: int
  r_name :: pystr
  ip_address :: pystr
  description :: pystr
  enabled :: int
  r_created_at :: pystr
  updated_at :: pystr

record archive_run =
  run_id :: int
  run_partition :: string
  run_status :: string
  run_rows :: int
  run_bytes :: int
  run_path :: string
  run_message :: pystr
  started_at :: pystr
  finished_at :: "pystr option"

record meta =
  users :: "user list"
  routers :: "router list"
  settings :: "(pystr \<times> pystr) list"
  runs :: "archive_run list"
  user_seq :: int
  router_seq :: int
  run_seq :: int

definition DEFAULT_SETTINGS :: "(pystr \<times> pystr) list" where
  "DEFAULT_SETTINGS =
     [(lit ''company_name'', lit ''Network Log Server''), (lit ''logo_filename'', lit ''''),
      (lit ''hot_days'', lit ''30''), (lit ''retention_months'', lit ''12'')]"

definition empty_meta :: meta where
  "empty_meta = \<lparr>users = [], routers = [], settings = [], runs = [], user_seq = 0, router_seq = 0,
     run_seq = 0\<rparr>"

text \<open>\<open>CREATE TABLE IF NOT EXISTS\<close> keeps the tables; \<open>INSERT OR IGNORE\<close> keeps settings.\<close>

definition init_schema :: "meta \<Rightarrow> meta" where
  "init_schema m =
     m\<lparr>settings := fold (\<lambda>(k, v) st. if k \<in> fst ` set st then st else st @ [(k, v)])
         DEFAULT_SETTINGS (settings m)\<rparr>"

section \<open>Users\<close>

definition create_user ::
    "pystr \<Rightarrow> pystr \<Rightarrow> pystr \<Rightarrow> bool \<Rightarrow> (meta, int) eff" where
  "create_user now name hash must m =
     (if name \<in> username ` set (users m) then (Inl IntegrityError, m)
      else
        (let i = user_seq m + 1
         in (Inr i, m\<lparr>users := users m @
               [\<lparr>user_id = i, username = name, password_hash = hash, is_admin = 1,
                 must_change = of_bool must, u_created_at = now, last_login = None\<rparr>],
               user_seq := i\<rparr>)))"

definition get_user :: "pystr \<Rightarrow> meta \<Rightarrow> user option" where
  "get_user name m = find (\<lambda>u. username u = name) (users m)"

definition user_count :: "meta \<Rightarrow> nat" where
  "user_count m = length (users m)"

definition set_password :: "pystr \<Rightarrow> pystr \<Rightarrow> meta \<Rightarrow> meta" where
  "set_password name hash m =
     m\<lparr>users := map (\<lambda>u. if username u = name then u\<lparr>password_hash := hash, must_change := 0\<rparr> else u)
         (users m)\<rparr>"

definition touch_login :: "pystr \<Rightarrow> pystr \<Rightarrow> meta \<Rightarrow> meta" where
  "touch_login now name m =
     m\<lparr>users := map (\<lambda>u. if username u = name then u\<lparr>last_login := Some now\<rparr> else u) (users m)\<rparr>"

section \<open>Addresses\<close>

text \<open>
  \<open>ipaddress.ip_address\<close> on text: four decimal octets of one to three ASCII digits, without
  leading zeros, at most 255. Anything else is no address or an IPv6 one, and raises
  \<open>ValueError\<close> either way.
\<close>

fun split_dots :: "pystr \<Rightarrow> pystr list" where
  "split_dots [] = [[]]"
| "split_dots (c # t) =
     (case split_dots t of
        [] \<Rightarrow> []
      | p # ps \<Rightarrow> (if c = 46 then [] # p # ps else (c # p) # ps))"

definition octet_value :: "pystr \<Rightarrow> nat option" where
  "octet_value t =
     (if t \<noteq> [] \<and> length t \<le> 3 \<and> list_all is_ascii_digit t \<and> (t = [48] \<or> hd t \<noteq> 48) then
        (let n = fold (\<lambda>c acc. acc * 10 + (c - 48)) t 0 in if n \<le> 255 then Some n else None)
      else None)"

definition parse_ipv4 :: "pystr \<Rightarrow> (nat \<times> nat \<times> nat \<times> nat) option" where
  "parse_ipv4 t =
     (case map octet_value (split_dots t) of
        [Some a, Some b, Some c, Some d] \<Rightarrow> Some (a, b, c, d)
      | _ \<Rightarrow> None)"

definition normalise_ip :: "ucd \<Rightarrow> pystr \<Rightarrow> pystr result" where
  "normalise_ip U v =
     (case parse_ipv4 (py_strip U v) of
        None \<Rightarrow> Inl ValueError
      | Some (a, b, c, d) \<Rightarrow> Inr (dotted a b c d))"

section \<open>Routers\<close>

definition list_routers :: "meta \<Rightarrow> router list" where
  "list_routers m = sort_key r_name (routers m)"

definition enabled_router_ips :: "meta \<Rightarrow> pystr list" where
  "enabled_router_ips m = map ip_address (filter (\<lambda>r. enabled r = 1) (routers m))"

definition get_router :: "int \<Rightarrow> meta \<Rightarrow> router option" where
  "get_router i m = find (\<lambda>r. router_id r = i) (routers m)"

definition add_router ::
    "ucd \<Rightarrow> pystr \<Rightarrow> pystr \<Rightarrow> pystr \<Rightarrow> pystr \<Rightarrow> bool \<Rightarrow> (meta, router) eff" where
  "add_router U now name ip descr en m =
     (case normalise_ip U ip of
        Inl e \<Rightarrow> (Inl e, m)
      | Inr addr \<Rightarrow>
          (if py_strip U name \<in> r_name ` set (routers m) \<or> addr \<in> ip_address ` set (routers m) then
             (Inl IntegrityError, m)
           else
             (let i = router_seq m + 1;
                  r = \<lparr>router_id = i, r_name = py_strip U name, ip_address = addr,
                       description = py_strip U descr, enabled = of_bool en, r_created_at = now,
                       updated_at = now\<rparr>
              in (Inr r, m\<lparr>routers := routers m @ [r], router_seq := i\<rparr>))))"

text \<open>The fields of a patch; \<open>None\<close> is an absent one.\<close>

record router_patch =
  p_name :: "pystr option"
  p_ip :: "pystr option"
  p_descr :: "pystr option"
  p_enabled :: "bool option"

definition patch_row :: "pystr \<Rightarrow> router_patch \<Rightarrow> pystr option \<Rightarrow> ucd \<Rightarrow> router \<Rightarrow> router" where
  "patch_row now p addr U r =
     r\<lparr>r_name := (case p_name p of None \<Rightarrow> r_name r | Some v \<Rightarrow> py_strip U v),
       ip_address := (case addr of None \<Rightarrow> ip_address r | Some v \<Rightarrow> v),
       description := (case p_descr p of None \<Rightarrow> description r | Some v \<Rightarrow> py_strip U v),
       enabled := (case p_enabled p of None \<Rightarrow> enabled r | Some b \<Rightarrow> of_bool b),
       updated_at := now\<rparr>"

definition update_router ::
    "ucd \<Rightarrow> pystr \<Rightarrow> int \<Rightarrow> router_patch \<Rightarrow> (meta, router option) eff" where
  "update_router U now i p m =
     (case (case p_ip p of None \<Rightarrow> Inr None | Some v \<Rightarrow> map_sum id Some (normalise_ip U v)) of
        Inl e \<Rightarrow> (Inl e, m)
      | Inr addr \<Rightarrow>
          (if p_name p = None \<and> addr = None \<and> p_descr p = None \<and> p_enabled p = None then
             (Inr (get_router i m), m)
           else
             (let m' = m\<lparr>routers := map (\<lambda>r. if router_id r = i then patch_row now p addr U r else r)
                         (routers m)\<rparr>
              in if distinct (map r_name (routers m')) \<and> distinct (map ip_address (routers m')) then
                   (Inr (get_router i m'), m')
                 else (Inl IntegrityError, m))))"

definition delete_router :: "int \<Rightarrow> meta \<Rightarrow> bool \<times> meta" where
  "delete_router i m =
     (\<exists>r \<in> set (routers m). router_id r = i, m\<lparr>routers := filter (\<lambda>r. router_id r \<noteq> i) (routers m)\<rparr>)"

section \<open>Settings\<close>

definition get_setting :: "pystr \<Rightarrow> pystr \<Rightarrow> meta \<Rightarrow> pystr" where
  "get_setting key d m = (case map_of (settings m) key of None \<Rightarrow> d | Some v \<Rightarrow> v)"

definition all_settings :: "meta \<Rightarrow> (pystr, pystr) pydict" where
  "all_settings m = settings m"

definition set_setting :: "pystr \<Rightarrow> pystr \<Rightarrow> meta \<Rightarrow> meta" where
  "set_setting key v m = m\<lparr>settings := dict_set (settings m) key v\<rparr>"

section \<open>Archive history\<close>

definition start_archive :: "pystr \<Rightarrow> string \<Rightarrow> meta \<Rightarrow> int \<times> meta" where
  "start_archive now part m =
     (let i = run_seq m + 1
      in (i, m\<lparr>runs := runs m @
            [\<lparr>run_id = i, run_partition = part, run_status = ''running'', run_rows = 0, run_bytes = 0,
              run_path = '''', run_message = [], started_at = now, finished_at = None\<rparr>], run_seq := i\<rparr>))"

definition finish_archive ::
    "pystr \<Rightarrow> int \<Rightarrow> string \<Rightarrow> int \<Rightarrow> int \<Rightarrow> string \<Rightarrow> pystr \<Rightarrow> meta \<Rightarrow> meta" where
  "finish_archive now i status nrows nbytes path message m =
     m\<lparr>runs := map (\<lambda>r. if run_id r = i then
           r\<lparr>run_status := status, run_rows := nrows, run_bytes := nbytes, run_path := path,
             run_message := take 2000 message, finished_at := Some now\<rparr> else r) (runs m)\<rparr>"

definition archive_history :: "nat \<Rightarrow> meta \<Rightarrow> archive_run list" where
  "archive_history limit m = take limit (rev (sort_key run_id (runs m)))"

definition archived_partitions :: "meta \<Rightarrow> string list" where
  "archived_partitions m = remdups (map run_partition (filter (\<lambda>r. run_status r = ''success'') (runs m)))"

section \<open>Operations in sequence\<close>

datatype meta_op =
    InitSchema
  | CreateUser pystr pystr pystr bool
  | SetPassword pystr pystr
  | TouchLogin pystr pystr
  | AddRouter pystr pystr pystr pystr bool
  | UpdateRouter pystr int router_patch
  | DeleteRouter int
  | SetSetting pystr pystr
  | StartArchive pystr string
  | FinishArchive pystr int string int int string pystr

fun meta_step :: "ucd \<Rightarrow> meta_op \<Rightarrow> meta \<Rightarrow> meta" where
  "meta_step U InitSchema m = init_schema m"
| "meta_step U (CreateUser now name hash must) m = snd (create_user now name hash must m)"
| "meta_step U (SetPassword name hash) m = set_password name hash m"
| "meta_step U (TouchLogin now name) m = touch_login now name m"
| "meta_step U (AddRouter now name ip descr en) m = snd (add_router U now name ip descr en m)"
| "meta_step U (UpdateRouter now i p) m = snd (update_router U now i p m)"
| "meta_step U (DeleteRouter i) m = snd (delete_router i m)"
| "meta_step U (SetSetting key v) m = set_setting key v m"
| "meta_step U (StartArchive now part) m = snd (start_archive now part m)"
| "meta_step U (FinishArchive now i status nrows nbytes path msg) m =
     finish_archive now i status nrows nbytes path msg m"

section \<open>Addresses: lemmas\<close>

lemma split_dots_not_Nil [simp]: "split_dots t \<noteq> []"
  by (induction t) (auto split: list.splits)

lemma split_dots_append: "46 \<notin> set x \<Longrightarrow> split_dots (x @ 46 # y) = x # split_dots y"
  by (induction x) (auto split: list.splits dest: arg_cong [of _ _ length])

lemma split_dots_plain: "46 \<notin> set x \<Longrightarrow> split_dots x = [x]"
  by (induction x) auto

text \<open>The parts put together again.\<close>

fun join_dots :: "pystr list \<Rightarrow> pystr" where
  "join_dots [] = []"
| "join_dots [p] = p"
| "join_dots (p # ps) = p @ 46 # join_dots ps"

lemma join_split_dots: "join_dots (split_dots t) = t"
proof (induction t)
  case (Cons c t)
  obtain p ps where p: "split_dots t = p # ps" by (cases "split_dots t") auto
  then show ?case using Cons by (cases ps) auto
qed simp

lemma octet_value_str: "n < 256 \<Longrightarrow> octet_value (py_str_nat n) = Some n"
proof -
  assume "n < 256"
  then consider "n < 10" | "10 \<le> n" "n < 100" | "100 \<le> n" "n < 256" by linarith
  then show ?thesis
  proof cases
    case 1
    then show ?thesis by (auto simp: octet_value_def py_str_nat_small is_ascii_digit_def)
  next
    case 2
    then have "n div 10 * 10 + n mod 10 = n" "0 < n div 10" "n div 10 < 10" by auto
    then show ?thesis
      using 2 by (auto simp: octet_value_def py_str_nat_small is_ascii_digit_def)
  next
    case 3
    have "n div 100 * 10 + n div 10 mod 10 = n div 10"
      using div_mult_mod_eq [of "n div 10" 10] by (simp add: div_mult2_eq [symmetric])
    then have "(n div 100 * 10 + n div 10 mod 10) * 10 + n mod 10 = n"
      using div_mult_mod_eq [of n 10] by simp
    moreover have "0 < n div 100" "n div 100 < 10" using 3 by auto
    ultimately show ?thesis
      using 3 by (auto simp: octet_value_def py_str_nat_small is_ascii_digit_def)
  qed
qed

lemma py_str_nat_no_dot: "46 \<notin> set (py_str_nat n)"
  by (induction n rule: py_str_nat.induct) (subst py_str_nat.simps, auto)

lemma parse_dotted:
  assumes "a < 256" "b < 256" "c < 256" "d < 256"
  shows "parse_ipv4 (dotted a b c d) = Some (a, b, c, d)"
  using assms
  by (simp add: parse_ipv4_def dotted_def split_dots_append split_dots_plain py_str_nat_no_dot octet_value_str)

lemma octet_value_Some: "octet_value t = Some n \<Longrightarrow> t = py_str_nat n \<and> n < 256"
proof -
  assume o: "octet_value t = Some n"
  then have t: "t \<noteq> []" "length t \<le> 3" "list_all is_ascii_digit t" "t = [48] \<or> hd t \<noteq> 48"
    and n: "n = fold (\<lambda>c acc. acc * 10 + (c - 48)) t 0" "n \<le> 255"
    by (auto simp: octet_value_def Let_def split: if_splits)
  consider x where "t = [x]" | x y where "t = [x, y]" | x y z where "t = [x, y, z]"
    using t(1,2) by (cases t rule: remdups_adj.cases) (auto simp: length_Suc_conv le_Suc_eq)
  then show ?thesis
  proof cases
    case 1
    then show ?thesis using t(3) n by (auto simp: py_str_nat_small is_ascii_digit_def)
  next
    case 2
    then obtain X Y where xy: "x = 48 + X" "y = 48 + Y" "X \<noteq> 0" "X < 10" "Y < 10"
      using t(3,4) by (auto simp: is_ascii_digit_def dest!: le_Suc_ex)
    then have "n = X * 10 + Y" using n(1) 2 by simp
    then show ?thesis using 2 xy n(2) by (simp add: py_str_nat_small)
  next
    case 3
    then obtain X Y Z where xyz: "x = 48 + X" "y = 48 + Y" "z = 48 + Z" "X \<noteq> 0" "X < 10" "Y < 10" "Z < 10"
      using t(3,4) by (auto simp: is_ascii_digit_def dest!: le_Suc_ex)
    then have v: "n = (X * 10 + Y) * 10 + Z" using n(1) 3 by simp
    have dm: "(M * 10 + N) div 10 = M" "(M * 10 + N) mod 10 = N" if "N < 10" for M N :: nat
      using that by auto
    have "n div 10 = X * 10 + Y" "n mod 10 = Z" using xyz unfolding v by (simp_all only: dm)
    then have "n div 10 = X * 10 + Y" "n mod 10 = Z" "n div 10 mod 10 = Y" "n div 10 div 10 = X"
      using xyz by (simp_all only: dm)
    then have "n div 10 mod 10 = Y" "n mod 10 = Z" "n div 100 = X"
      by (simp_all add: div_mult2_eq [symmetric])
    then show ?thesis using 3 xyz v n(2) by (simp add: py_str_nat_small)
  qed
qed

lemma parse_ipv4_Some:
  assumes "parse_ipv4 t = Some (a, b, c, d)"
  shows "t = dotted a b c d" "a < 256" "b < 256" "c < 256" "d < 256"
proof -
  obtain w x y z where s: "split_dots t = [w, x, y, z]"
    and v: "octet_value w = Some a" "octet_value x = Some b" "octet_value y = Some c" "octet_value z = Some d"
    using assms by (auto simp: parse_ipv4_def map_eq_Cons_conv split: list.splits option.splits)
  have "t = join_dots [w, x, y, z]" using join_split_dots [of t] s by simp
  then show "t = dotted a b c d" "a < 256" "b < 256" "c < 256" "d < 256"
    using v [THEN octet_value_Some] by (simp_all add: dotted_def)
qed

lemma parse_ipv4_canonical: "parse_ipv4 t = Some x \<Longrightarrow> canonical_ipv4 t"
proof -
  assume "parse_ipv4 t = Some x"
  moreover obtain a b c d where "x = (a, b, c, d)" by (cases x)
  ultimately show ?thesis using parse_ipv4_Some [of t a b c d] unfolding canonical_ipv4_def by metis
qed

lemma normalise_ip_iff:
  "normalise_ip U v = Inr t \<longleftrightarrow> t = py_strip U v \<and> canonical_ipv4 t"
proof
  assume "normalise_ip U v = Inr t"
  then obtain a b c d where "parse_ipv4 (py_strip U v) = Some (a, b, c, d)" "t = dotted a b c d"
    by (auto simp: normalise_ip_def split: option.splits)
  then show "t = py_strip U v \<and> canonical_ipv4 t"
    using parse_ipv4_Some [OF \<open>parse_ipv4 (py_strip U v) = Some (a, b, c, d)\<close>]
    unfolding canonical_ipv4_def by metis
next
  assume "t = py_strip U v \<and> canonical_ipv4 t"
  then show "normalise_ip U v = Inr t"
    using parse_dotted by (auto simp: normalise_ip_def canonical_ipv4_def)
qed

lemma normalise_ip_Inl: "normalise_ip U v = Inl e \<longleftrightarrow> e = ValueError \<and> \<not> canonical_ipv4 (py_strip U v)"
proof (cases "canonical_ipv4 (py_strip U v)")
  case True
  then have "normalise_ip U v = Inr (py_strip U v)" by (simp add: normalise_ip_iff)
  then show ?thesis using True by simp
next
  case False
  then have "parse_ipv4 (py_strip U v) = None"
    using parse_ipv4_canonical by (cases "parse_ipv4 (py_strip U v)") blast+
  then have "normalise_ip U v = Inl ValueError" by (simp add: normalise_ip_def)
  then show ?thesis using False by auto
qed

section \<open>Table invariants\<close>

definition users_ok :: "meta \<Rightarrow> bool" where
  "users_ok m \<longleftrightarrow> distinct (map username (users m)) \<and> distinct (map user_id (users m))
     \<and> (\<forall>u \<in> set (users m). user_id u \<le> user_seq m)"

definition routers_ok :: "meta \<Rightarrow> bool" where
  "routers_ok m \<longleftrightarrow> distinct (map r_name (routers m)) \<and> distinct (map ip_address (routers m))
     \<and> distinct (map router_id (routers m))
     \<and> (\<forall>r \<in> set (routers m). router_id r \<le> router_seq m \<and> canonical_ipv4 (ip_address r))"

definition settings_ok :: "meta \<Rightarrow> bool" where
  "settings_ok m \<longleftrightarrow> distinct (map fst (settings m))"

definition runs_ok :: "meta \<Rightarrow> bool" where
  "runs_ok m \<longleftrightarrow> distinct (map run_id (runs m)) \<and> (\<forall>r \<in> set (runs m). run_id r \<le> run_seq m)"

definition meta_ok :: "meta \<Rightarrow> bool" where
  "meta_ok m \<longleftrightarrow> users_ok m \<and> routers_ok m \<and> settings_ok m \<and> runs_ok m"

lemmas meta_inv_defs = meta_ok_def users_ok_def routers_ok_def settings_ok_def runs_ok_def

lemma distinct_map_snoc:
  "distinct (map f (xs @ [x])) \<longleftrightarrow> distinct (map f xs) \<and> f x \<notin> f ` set xs"
  by auto

lemma above_not_in: "\<forall>x \<in> set xs. f x \<le> (n::int) \<Longrightarrow> n + 1 \<notin> f ` set xs"
  by force

lemma map_if_same: "(\<And>x. f (g x) = f x) \<Longrightarrow> map f (map (\<lambda>x. if P x then g x else x) xs) = map f xs"
  by simp

lemma create_user_ok [inv_intros]: "meta_ok m \<Longrightarrow> meta_ok (snd (create_user now name hash must m))"
  using above_not_in [of "users m" user_id "user_seq m"]
  by (auto simp: meta_inv_defs create_user_def Let_def)

lemma set_password_ok [inv_intros]: "meta_ok m \<Longrightarrow> meta_ok (set_password name hash m)"
  by (auto simp: meta_inv_defs set_password_def comp_def if_distrib cong: if_cong)

lemma touch_login_ok [inv_intros]: "meta_ok m \<Longrightarrow> meta_ok (touch_login now name m)"
  by (auto simp: meta_inv_defs touch_login_def comp_def if_distrib cong: if_cong)

lemma add_router_ok [inv_intros]: "meta_ok m \<Longrightarrow> meta_ok (snd (add_router U now name ip descr en m))"
  using above_not_in [of "routers m" router_id "router_seq m"] normalise_ip_iff [of U ip]
  by (auto simp: meta_inv_defs add_router_def Let_def split: sum.splits)

lemma patch_row_id [simp]: "router_id (patch_row now p addr U r) = router_id r"
  by (simp add: patch_row_def)

text \<open>The rows after an update that passed the constraints.\<close>

definition patched :: "ucd \<Rightarrow> pystr \<Rightarrow> int \<Rightarrow> router_patch \<Rightarrow> pystr option \<Rightarrow> router list \<Rightarrow> router list" where
  "patched U now i p addr rs = map (\<lambda>r. if router_id r = i then patch_row now p addr U r else r) rs"

lemma patched_ids [simp]: "map router_id (patched U now i p addr rs) = map router_id rs"
  by (simp add: patched_def)

lemma patched_in:
  assumes "r \<in> set (patched U now i p addr rs)"
  obtains r0 where "r0 \<in> set rs" "router_id r = router_id r0"
    "ip_address r = ip_address r0 \<or> (\<exists>a. addr = Some a \<and> ip_address r = a)"
proof -
  obtain r0 where "r0 \<in> set rs" "r = (if router_id r0 = i then patch_row now p addr U r0 else r0)"
    using assms by (auto simp: patched_def)
  then show ?thesis
    by (intro that [of r0]) (simp_all add: patch_row_def split: option.splits)
qed

lemma update_router_cases:
  "update_router U now i p m =
     (case (case p_ip p of None \<Rightarrow> Inr None | Some v \<Rightarrow> map_sum id Some (normalise_ip U v)) of
        Inl e \<Rightarrow> (Inl e, m)
      | Inr addr \<Rightarrow>
          (if p_name p = None \<and> addr = None \<and> p_descr p = None \<and> p_enabled p = None then
             (Inr (get_router i m), m)
           else
             (let m' = m\<lparr>routers := patched U now i p addr (routers m)\<rparr>
              in if distinct (map r_name (routers m')) \<and> distinct (map ip_address (routers m')) then
                   (Inr (get_router i m'), m')
                 else (Inl IntegrityError, m))))"
  unfolding patched_def by (rule update_router_def)

lemma update_router_ok [inv_intros]:
  assumes "meta_ok m" shows "meta_ok (snd (update_router U now i p m))"
proof -
  have "meta_ok (m\<lparr>routers := patched U now i p addr (routers m)\<rparr>)"
    if addr: "(case p_ip p of None \<Rightarrow> Inr None | Some v \<Rightarrow> map_sum id Some (normalise_ip U v)) = Inr addr"
      and dist: "distinct (map r_name (patched U now i p addr (routers m)))"
        "distinct (map ip_address (patched U now i p addr (routers m)))" for addr
  proof -
    have a: "addr = Some a \<Longrightarrow> canonical_ipv4 a" for a
      using addr normalise_ip_iff [of U _ a]
      by (cases "p_ip p"; cases "normalise_ip U (the (p_ip p))") auto
    have "router_id r \<le> router_seq m \<and> canonical_ipv4 (ip_address r)"
      if "r \<in> set (patched U now i p addr (routers m))" for r
      using that assms a by (elim patched_in) (auto simp: meta_ok_def routers_ok_def)
    then show ?thesis using assms dist by (simp add: meta_inv_defs)
  qed
  then show ?thesis using assms by (simp add: update_router_cases Let_def split: sum.split)
qed

lemma delete_router_ok [inv_intros]: "meta_ok m \<Longrightarrow> meta_ok (snd (delete_router i m))"
  by (auto simp: meta_inv_defs delete_router_def distinct_map_filter)

lemma set_setting_ok [inv_intros]: "meta_ok m \<Longrightarrow> meta_ok (set_setting key v m)"
  by (simp add: meta_inv_defs set_setting_def)

lemma init_schema_ok [inv_intros]: "meta_ok m \<Longrightarrow> meta_ok (init_schema m)"
proof -
  have "distinct (map fst st) \<Longrightarrow> distinct (map fst (fold (\<lambda>(k, v) st.
      if k \<in> fst ` set st then st else st @ [(k, v)]) ds st))" for ds and st :: "(pystr \<times> pystr) list"
    by (induction ds arbitrary: st) auto
  then show "meta_ok m \<Longrightarrow> ?thesis" by (simp add: meta_inv_defs init_schema_def)
qed

lemma start_archive_ok [inv_intros]: "meta_ok m \<Longrightarrow> meta_ok (snd (start_archive now part m))"
  using above_not_in [of "runs m" run_id "run_seq m"]
  by (auto simp: meta_inv_defs start_archive_def Let_def)

lemma finish_archive_ok [inv_intros]: "meta_ok m \<Longrightarrow> meta_ok (finish_archive now i status n b path msg m)"
  by (auto simp: meta_inv_defs finish_archive_def comp_def if_distrib cong: if_cong)

lemma meta_step_ok [inv_intros]: "meta_ok m \<Longrightarrow> meta_ok (meta_step U op m)"
  by (cases op) (simp_all add: inv_intros)

lemma meta_run_ok: "meta_ok m \<Longrightarrow> meta_ok (fold (meta_step U) ops m)"
  by (induction ops arbitrary: m) (simp_all add: inv_intros)

lemma empty_meta_ok [simp]: "meta_ok empty_meta"
  by (simp add: meta_inv_defs empty_meta_def)

text \<open>The counter behind the ids never goes back.\<close>

lemma router_seq_step: "router_seq m \<le> router_seq (meta_step U op m)"
  by (cases op)
     (auto simp: init_schema_def create_user_def set_password_def touch_login_def add_router_def
        update_router_def delete_router_def set_setting_def start_archive_def finish_archive_def
        Let_def split: sum.splits)

lemma router_seq_run: "router_seq m \<le> router_seq (fold (meta_step U) ops m)"
proof (induction ops arbitrary: m)
  case (Cons op ops)
  show ?case using Cons.IH [of "meta_step U op m"] router_seq_step [of m U op] by simp
qed simp

lemma add_router_Inr:
  "add_router U now name ip descr en m = (Inr r, m') \<Longrightarrow>
     router_id r = router_seq m + 1 \<and> router_seq m' = router_seq m + 1"
  by (auto simp: add_router_def Let_def split: sum.splits if_splits)

section \<open>Properties\<close>

text \<open>C22 (meta_invariant): Whatever sequence of operations the store executes, user names, router names and router addresses are unique, every stored router address is a canonical dotted quad, setting keys are unique, and no id exceeds its counter.\<close>

theorem meta_invariant:
  "meta_ok (fold (meta_step U) ops empty_meta)
    \<and> distinct (map username (users (fold (meta_step U) ops empty_meta)))
    \<and> distinct (map r_name (routers (fold (meta_step U) ops empty_meta)))
    \<and> distinct (map ip_address (routers (fold (meta_step U) ops empty_meta)))
    \<and> list_all canonical_ipv4 (map ip_address (routers (fold (meta_step U) ops empty_meta)))"
  using meta_run_ok [OF empty_meta_ok, of U ops] by (simp add: meta_inv_defs list_all_iff)

text \<open>Also (add_router_outcomes): Adding a router raises ValueError exactly when the trimmed address is not a canonical IPv4 address, IntegrityError exactly when the trimmed name or the address is taken, and otherwise appends one row with the trimmed fields and a new id; on both errors nothing changes.\<close>

theorem add_router_outcomes:
  "add_router U now name ip descr en m =
     (if \<not> canonical_ipv4 (py_strip U ip) then (Inl ValueError, m)
      else if py_strip U name \<in> r_name ` set (routers m)
              \<or> py_strip U ip \<in> ip_address ` set (routers m) then (Inl IntegrityError, m)
      else
        (let r = \<lparr>router_id = router_seq m + 1, r_name = py_strip U name,
               ip_address = py_strip U ip, description = py_strip U descr, enabled = of_bool en,
               r_created_at = now, updated_at = now\<rparr>
         in (Inr r, m\<lparr>routers := routers m @ [r], router_seq := router_seq m + 1\<rparr>)))"
proof (cases "canonical_ipv4 (py_strip U ip)")
  case True
  then have "normalise_ip U ip = Inr (py_strip U ip)" by (simp add: normalise_ip_iff)
  then show ?thesis using True by (simp add: add_router_def Let_def)
next
  case False
  then have "normalise_ip U ip = Inl ValueError" by (simp add: normalise_ip_Inl)
  then show ?thesis using False by (simp add: add_router_def)
qed

text \<open>Also (router_id_fresh): The id of a router is never given out again: whatever happens between two successful additions, including the deletion of the first router, the second one gets a larger id.\<close>

theorem router_id_fresh:
  assumes "add_router U now name ip descr en m = (Inr r, m1)"
    and "add_router U now' name' ip' descr' en' (fold (meta_step U) ops m1) = (Inr r', m2)"
  shows "router_id r < router_id r'"
  using add_router_Inr [OF assms(1)] add_router_Inr [OF assms(2)] router_seq_run [of m1 U ops] by simp

text \<open>Two routers one after the other in an empty store.\<close>

definition demo_router :: "int \<Rightarrow> router" where
  "demo_router i = \<lparr>router_id = i, r_name = lit ''core'', ip_address = lit ''10.0.0.1'', description = [],
     enabled = 1, r_created_at = [], updated_at = []\<rparr>"

lemma demo_add:
  "add_router ascii_only [] (lit ''core'') (lit '' 10.0.0.1'') [] True empty_meta
     = (Inr (demo_router 1), empty_meta\<lparr>routers := [demo_router 1], router_seq := 1\<rparr>)"
  by code_simp

lemma demo_add_again:
  "add_router ascii_only [] (lit ''core'') (lit ''10.0.0.1'') [] True
      (fold (meta_step ascii_only) [DeleteRouter 1] (empty_meta\<lparr>routers := [demo_router 1], router_seq := 1\<rparr>))
     = (Inr (demo_router 2), empty_meta\<lparr>routers := [demo_router 2], router_seq := 2\<rparr>)"
  by code_simp

theorem router_id_fresh_witness:
  "router_id (demo_router 1) < router_id (demo_router 2)"
  by (rule router_id_fresh [OF demo_add demo_add_again])

end
