(* ===== verification/Auth.thy ===== *)
theory Auth
  imports Throttle Meta_Store "HOL-Library.Countable"
begin

text \<open>
  Who may do what: \<open>backend/app/auth/passwords.py\<close>, \<open>backend/app/auth/tokens.py\<close>, the guards of
  \<open>backend/app/api/deps.py\<close> and the endpoints of \<open>backend/app/api/auth_api.py\<close>. Argon2 and PyJWT are
  parameters, with their documented behaviour as locales: a hash verifies the password it was
  made from and no other, and a token decodes under the secret it was made with, for its issuer
  and between its times.
\<close>

section \<open>Passwords\<close>

record argon =
  ph_hash :: "pystr \<Rightarrow> pystr \<Rightarrow> pystr"          \<comment> \<open>salt, password\<close>
  ph_verify :: "pystr \<Rightarrow> pystr \<Rightarrow> bool"       \<comment> \<open>\<open>False\<close>: raises one of the three errors\<close>
  ph_needs_rehash :: "pystr \<Rightarrow> bool option"   \<comment> \<open>\<open>None\<close>: \<open>InvalidHashError\<close>\<close>

locale argon_lib =
  fixes A :: argon
  assumes verify_law: "ph_verify A (ph_hash A salt p) p' \<longleftrightarrow> p' = p"
    and rehash_law: "ph_needs_rehash A (ph_hash A salt p) = Some False"

definition MIN_PASSWORD_LENGTH :: nat where "MIN_PASSWORD_LENGTH = 12"

definition hash_password :: "argon \<Rightarrow> pystr \<Rightarrow> pystr \<Rightarrow> pystr" where
  "hash_password A salt password = ph_hash A salt password"

definition verify_password :: "argon \<Rightarrow> pystr \<Rightarrow> pystr \<Rightarrow> bool" where
  "verify_password A stored_hash password = ph_verify A stored_hash password"

definition needs_rehash :: "argon \<Rightarrow> pystr \<Rightarrow> bool" where
  "needs_rehash A stored_hash = (case ph_needs_rehash A stored_hash of Some b \<Rightarrow> b | None \<Rightarrow> True)"

text \<open>\<open>generate_password\<close>, given the choices of \<open>secrets.choice\<close> as indices.\<close>

definition password_alphabet :: pystr where
  "password_alphabet = lit ''ABCDEFGHJKLMNPQRSTUVWXYZabcdefghijkmnopqrstuvwxyz23456789''"

definition generate_password :: "nat list \<Rightarrow> pystr" where
  "generate_password choices = map (\<lambda>i. password_alphabet ! (i mod length password_alphabet)) choices"

text \<open>\<open>password_problems\<close>: the four messages, as constructors.\<close>

datatype problem = TooShort | NoLower | NoUpper | NoDigit

definition password_problems :: "ucd \<Rightarrow> pystr \<Rightarrow> problem list" where
  "password_problems U password =
     (if length password < MIN_PASSWORD_LENGTH then [TooShort] else [])
     @ (if \<not> list_ex (is_lower U) password then [NoLower] else [])
     @ (if \<not> list_ex (is_upper U) password then [NoUpper] else [])
     @ (if \<not> list_ex (is_digit U) password then [NoDigit] else [])"

section \<open>Tokens\<close>

definition ISSUER :: pystr where "ISSUER = lit ''network-log-server''"

record claims =
  c_sub :: pystr
  c_iat :: int
  c_nbf :: int
  c_exp :: int
  c_iss :: pystr
  c_se :: int

text \<open>\<open>jwt_decode token secret issuer now\<close>; \<open>None\<close> is a \<open>PyJWTError\<close>.\<close>

record jwt =
  jwt_encode :: "claims \<Rightarrow> pystr \<Rightarrow> pystr"
  jwt_decode :: "pystr \<Rightarrow> pystr \<Rightarrow> pystr \<Rightarrow> int \<Rightarrow> claims option"

locale jwt_lib =
  fixes J :: jwt
  assumes decode_law: "jwt_decode J (jwt_encode J c key) key' issuer now =
      (if key' = key \<and> c_iss c = issuer \<and> c_nbf c \<le> now \<and> c_iat c \<le> now \<and> now < c_exp c
       then Some c else None)"
    and unforgeable: "jwt_decode J tok key issuer now = Some c \<Longrightarrow> tok = jwt_encode J c key"
    and token_text: "jwt_encode J c key \<noteq> []"

definition issue :: "jwt \<Rightarrow> pystr \<Rightarrow> pystr \<Rightarrow> int \<Rightarrow> int \<Rightarrow> int \<Rightarrow> pystr" where
  "issue J secret name ttl_hours session_epoch now =
     jwt_encode J \<lparr>c_sub = name, c_iat = now, c_nbf = now, c_exp = now + ttl_hours * 3600,
       c_iss = ISSUER, c_se = session_epoch\<rparr> secret"

definition verify :: "jwt \<Rightarrow> pystr \<Rightarrow> pystr \<Rightarrow> int \<Rightarrow> claims option" where
  "verify J secret tok now = jwt_decode J tok secret ISSUER now"

section \<open>The guards\<close>

record auth_cfg =
  secret_key :: pystr
  cookie_name :: pystr
  session_hours :: int
  max_failed_logins :: int
  lockout_seconds :: int

text \<open>A guard lets a request through with a value or answers with a status.\<close>

definition require_user :: "jwt \<Rightarrow> auth_cfg \<Rightarrow> int \<Rightarrow> request \<Rightarrow> nat + pystr" where
  "require_user J cfg now rq =
     (case rq_cookies rq (cookie_name cfg) of
        None \<Rightarrow> Inl 401
      | Some tok \<Rightarrow>
          if tok = [] then Inl 401
          else
            (case verify J (secret_key cfg) tok now of
               None \<Rightarrow> Inl 401
             | Some c \<Rightarrow> Inr (c_sub c)))"

text \<open>
  \<open>urlparse(url).netloc\<close>: control characters and blanks in front and every tab and line break are
  dropped, a scheme is cut off, and the authority after \<open>//\<close> ends at the first of \<open>/ ? #\<close>.
  Unbalanced brackets raise; the checks of a bracketed or non-ASCII host are the parameter
  \<open>host_ok\<close>.
\<close>

definition scheme_char :: "nat \<Rightarrow> bool" where
  "scheme_char c \<longleftrightarrow> is_ascii_digit c \<or> 65 \<le> c \<and> c \<le> 90 \<or> 97 \<le> c \<and> c \<le> 122 \<or> c \<in> {43, 45, 46}"

definition alpha :: "nat \<Rightarrow> bool" where
  "alpha c \<longleftrightarrow> 65 \<le> c \<and> c \<le> 90 \<or> 97 \<le> c \<and> c \<le> 122"

definition cut_scheme :: "pystr \<Rightarrow> pystr" where
  "cut_scheme url =
     (case py_find url [58] of
        Some i \<Rightarrow> (if 0 < i \<and> alpha (hd url) \<and> list_all scheme_char (take i url) then drop (i + 1) url else url)
      | None \<Rightarrow> url)"

definition netloc :: "(pystr \<Rightarrow> bool) \<Rightarrow> pystr \<Rightarrow> pystr result" where
  "netloc host_ok url =
     (let url = filter (\<lambda>c. c \<notin> {9, 10, 13}) (dropWhile (\<lambda>c. c \<le> 32) url);
          rest = cut_scheme url
      in if take 2 rest = lit ''//'' then
           (let n = takeWhile (\<lambda>c. c \<notin> {47, 63, 35}) (drop 2 rest)
            in if (91 \<in> set n) \<noteq> (93 \<in> set n) then Inl ValueError
               else if (91 \<in> set n \<or> (\<exists>c \<in> set n. 128 \<le> c)) \<and> \<not> host_ok n then Inl ValueError
               else Inr n)
         else Inr [])"

definition SAFE_METHODS :: "string list" where
  "SAFE_METHODS = [''GET'', ''HEAD'', ''OPTIONS'']"

text \<open>A \<open>ValueError\<close> of \<open>urlparse\<close> is not caught: the framework's 500.\<close>

definition require_same_origin :: "(pystr \<Rightarrow> bool) \<Rightarrow> request \<Rightarrow> nat + unit" where
  "require_same_origin host_ok rq =
     (if rq_method rq \<in> set SAFE_METHODS then Inr ()
      else
        (case rq_headers rq ''origin'' of
           None \<Rightarrow> Inr ()
         | Some origin \<Rightarrow>
             (let host = (case rq_headers rq ''host'' of Some h \<Rightarrow> h | None \<Rightarrow> [])
              in case netloc host_ok origin of
                   Inl _ \<Rightarrow> Inl 500
                 | Inr n \<Rightarrow> if n \<noteq> host then Inl 403 else Inr ())))"

text \<open>The two guards of a state-changing endpoint, in the order of its parameters.\<close>

definition guarded ::
    "jwt \<Rightarrow> (pystr \<Rightarrow> bool) \<Rightarrow> auth_cfg \<Rightarrow> int \<Rightarrow> request \<Rightarrow> nat + pystr" where
  "guarded J host_ok cfg now rq =
     (case require_user J cfg now rq of
        Inl c \<Rightarrow> Inl c
      | Inr u \<Rightarrow> (case require_same_origin host_ok rq of Inl c \<Rightarrow> Inl c | Inr _ \<Rightarrow> Inr u))"

section \<open>The endpoints\<close>

record auth_env =
  au_ucd :: ucd
  au_jwt :: jwt
  au_argon :: argon
  au_host_ok :: "pystr \<Rightarrow> bool"
  au_cfg :: auth_cfg
  au_dummy_hash :: pystr

datatype login_answer = LoggedIn pystr bool pystr | Refuse nat

definition login_throttle :: "auth_cfg \<Rightarrow> LoginThrottle" where
  "login_throttle cfg = \<lparr>max_failures = max_failed_logins cfg, lockout = lockout_seconds cfg\<rparr>"

text \<open>
  \<open>login\<close>: \<open>n1\<close> and \<open>n2\<close> are the outcomes of the throttle's reads, \<open>n3\<close> of its write; \<open>salt\<close> and
  \<open>now_text\<close> are what a rehash draws and the store writes.
\<close>

definition login ::
    "auth_env \<Rightarrow> 'k counters \<Rightarrow> net \<Rightarrow> net \<Rightarrow> net \<Rightarrow> pystr \<Rightarrow> int \<Rightarrow> pystr
      \<Rightarrow> request \<Rightarrow> pystr \<Rightarrow> pystr \<Rightarrow> meta \<times> 'k \<Rightarrow> login_answer \<times> meta \<times> 'k" where
  "login E K n1 n2 n3 salt now now_text rq name password x =
     (let (m, s) = x; cfg = au_cfg E; ip = client_ip (au_ucd E) rq; throttle = login_throttle cfg
      in case require_same_origin (au_host_ok E) rq of
           Inl c \<Rightarrow> (Refuse c, m, s)
         | Inr _ \<Rightarrow>
             if \<not> (1 \<le> length name \<and> length name \<le> 64 \<and> 1 \<le> length password \<and> length password \<le> 256)
             then (Refuse 422, m, s)
             else if \<not> fst (throttle_check K throttle n1 n2 name ip now s) then (Refuse 429, m, s)
             else
               (let stored = (case get_user name m of Some u \<Rightarrow> password_hash u | None \<Rightarrow> au_dummy_hash E);
                    matched = verify_password (au_argon E) stored password
                in case get_user name m of
                     None \<Rightarrow> (Refuse 401, m, record_failure K throttle n3 name ip now s)
                   | Some u \<Rightarrow>
                       if \<not> matched then (Refuse 401, m, record_failure K throttle n3 name ip now s)
                       else
                         (let s = throttle_clear K n3 name ip s;
                              m = (if needs_rehash (au_argon E) stored
                                   then set_password (username u) (hash_password (au_argon E) salt password) m
                                   else m);
                              m = touch_login now_text (username u) m
                          in (LoggedIn (username u) (must_change u \<noteq> 0)
                                (issue (au_jwt E) (secret_key cfg) (username u) (session_hours cfg) 0 now), m, s))))"

datatype me_answer = Me pystr bool "pystr option" | MeRefused nat

definition me :: "auth_env \<Rightarrow> int \<Rightarrow> request \<Rightarrow> meta \<Rightarrow> me_answer" where
  "me E now rq m =
     (case require_user (au_jwt E) (au_cfg E) now rq of
        Inl c \<Rightarrow> MeRefused c
      | Inr name \<Rightarrow>
          (case get_user name m of
             None \<Rightarrow> MeRefused 401
           | Some u \<Rightarrow> Me (username u) (must_change u \<noteq> 0) (last_login u)))"

definition change_password ::
    "auth_env \<Rightarrow> pystr \<Rightarrow> int \<Rightarrow> request \<Rightarrow> pystr \<Rightarrow> pystr \<Rightarrow> meta \<Rightarrow> nat \<times> meta" where
  "change_password E salt now rq current new m =
     (case guarded (au_jwt E) (au_host_ok E) (au_cfg E) now rq of
        Inl c \<Rightarrow> (c, m)
      | Inr name \<Rightarrow>
          if \<not> (1 \<le> length current \<and> length current \<le> 256 \<and> 1 \<le> length new \<and> length new \<le> 256) then (422, m)
          else
            (case get_user name m of
               None \<Rightarrow> (403, m)
             | Some u \<Rightarrow>
                 if \<not> verify_password (au_argon E) (password_hash u) current then (403, m)
                 else if password_problems (au_ucd E) new \<noteq> [] then (400, m)
                 else (200, set_password name (hash_password (au_argon E) salt new) m)))"

section \<open>Instances\<close>

text \<open>A password library that stores the text, and tokens that are a number of secret and claims.\<close>

definition plain_argon :: argon where
  "plain_argon = \<lparr>ph_hash = (\<lambda>salt p. p), ph_verify = (\<lambda>h p. p = h), ph_needs_rehash = (\<lambda>h. Some False)\<rparr>"

interpretation plain_argon: argon_lib plain_argon
  by unfold_locales (simp_all add: plain_argon_def)

definition claims_tuple :: "claims \<Rightarrow> pystr \<times> int \<times> int \<times> int \<times> pystr \<times> int" where
  "claims_tuple c = (c_sub c, c_iat c, c_nbf c, c_exp c, c_iss c, c_se c)"

definition tuple_claims :: "pystr \<times> int \<times> int \<times> int \<times> pystr \<times> int \<Rightarrow> claims" where
  "tuple_claims t =
     (let (a, b, c, d, e, f) = t
      in \<lparr>c_sub = a, c_iat = b, c_nbf = c, c_exp = d, c_iss = e, c_se = f\<rparr>)"

definition number_jwt :: jwt where
  "number_jwt =
     \<lparr>jwt_encode = (\<lambda>c key. [to_nat (key, claims_tuple c)]),
      jwt_decode = (\<lambda>tok key issuer now.
        if tok = [hd tok] \<and> tok = [to_nat (key, snd (from_nat (hd tok) :: pystr \<times> pystr \<times> int \<times> int \<times> int \<times> pystr \<times> int))]
        then
          (let c = tuple_claims (snd (from_nat (hd tok) :: pystr \<times> pystr \<times> int \<times> int \<times> int \<times> pystr \<times> int))
           in if c_iss c = issuer \<and> c_nbf c \<le> now \<and> c_iat c \<le> now \<and> now < c_exp c then Some c else None)
        else None)\<rparr>"

lemma tuple_claims_inverse [simp]: "tuple_claims (claims_tuple c) = c" "claims_tuple (tuple_claims t) = t"
  by (simp_all add: tuple_claims_def claims_tuple_def Let_def split: prod.splits)

interpretation number_jwt: jwt_lib number_jwt
proof unfold_locales
  fix c key key' issuer now
  show "jwt_decode number_jwt (jwt_encode number_jwt c key) key' issuer now =
      (if key' = key \<and> c_iss c = issuer \<and> c_nbf c \<le> now \<and> c_iat c \<le> now \<and> now < c_exp c then Some c else None)"
    by (auto simp: number_jwt_def Let_def)
next
  fix tok key issuer now c
  assume "jwt_decode number_jwt tok key issuer now = Some c"
  then show "tok = jwt_encode number_jwt c key"
    by (auto simp: number_jwt_def Let_def split: if_splits)
qed (simp add: number_jwt_def)

section \<open>Lemmas\<close>

context jwt_lib
begin

lemma verify_issued:
  "verify J secret' (issue J secret name h se t0) now =
     (if secret' = secret \<and> t0 \<le> now \<and> now < t0 + h * 3600
      then Some \<lparr>c_sub = name, c_iat = t0, c_nbf = t0, c_exp = t0 + h * 3600, c_iss = ISSUER, c_se = se\<rparr> else None)"
  by (auto simp: verify_def issue_def decode_law)

lemma issue_not_empty: "issue J secret name h se t0 \<noteq> []"
  by (simp add: issue_def token_text)

lemma require_user_issued:
  assumes "rq_cookies rq (cookie_name cfg) = Some (issue J (secret_key cfg) name h se t0)"
  shows "require_user J cfg now rq = (if t0 \<le> now \<and> now < t0 + h * 3600 then Inr name else Inl 401)"
  using assms by (simp add: require_user_def issue_not_empty verify_issued)

lemma require_user_genuine:
  assumes "require_user J cfg now rq = Inr name"
  shows "\<exists>c. rq_cookies rq (cookie_name cfg) = Some (jwt_encode J c (secret_key cfg)) \<and> c_sub c = name
    \<and> c_iss c = ISSUER \<and> c_nbf c \<le> now \<and> now < c_exp c"
proof -
  obtain tok c where tok: "rq_cookies rq (cookie_name cfg) = Some tok"
    and dec: "jwt_decode J tok (secret_key cfg) ISSUER now = Some c" and "c_sub c = name"
    using assms by (auto simp: require_user_def verify_def split: option.splits if_splits)
  have "tok = jwt_encode J c (secret_key cfg)" using dec by (rule unforgeable)
  moreover from this have "c_iss c = ISSUER \<and> c_nbf c \<le> now \<and> now < c_exp c"
    using dec decode_law [of c "secret_key cfg" "secret_key cfg" ISSUER now] by (simp split: if_splits)
  ultimately show ?thesis using tok \<open>c_sub c = name\<close> by blast
qed

end

text \<open>What a login does, in the terms of the checks it makes.\<close>

lemma login_cases:
  assumes "login E K n1 n2 n3 salt now now_text rq name password (m, s) = (a, m', s')"
    and "require_same_origin (au_host_ok E) rq = Inr ()"
    and "1 \<le> length name" "length name \<le> 64" "1 \<le> length password" "length password \<le> 256"
  shows "if \<not> fst (throttle_check K (login_throttle (au_cfg E)) n1 n2 name (client_ip (au_ucd E) rq) now s)
    then a = Refuse 429 \<and> m' = m \<and> s' = s
    else (case get_user name m of
        Some u \<Rightarrow>
          if verify_password (au_argon E) (password_hash u) password
          then a = LoggedIn name (must_change u \<noteq> 0)
              (issue (au_jwt E) (secret_key (au_cfg E)) name (session_hours (au_cfg E)) 0 now)
            \<and> m' = touch_login now_text name (if needs_rehash (au_argon E) (password_hash u)
                then set_password name (hash_password (au_argon E) salt password) m else m)
            \<and> s' = throttle_clear K n3 name (client_ip (au_ucd E) rq) s
          else a = Refuse 401 \<and> m' = m
            \<and> s' = record_failure K (login_throttle (au_cfg E)) n3 name (client_ip (au_ucd E) rq) now s
      | None \<Rightarrow> a = Refuse 401 \<and> m' = m
          \<and> s' = record_failure K (login_throttle (au_cfg E)) n3 name (client_ip (au_ucd E) rq) now s)"
proof -
  have u: "username u = name" if "get_user name m = Some u" for u
    using that by (simp add: get_user_def find_Some_iff) blast
  show ?thesis
    using assms by (auto simp: login_def Let_def u split: if_splits option.splits)
qed

lemma get_user_touch: "get_user n (touch_login t name m) =
    map_option (\<lambda>u. if n = name then u\<lparr>last_login := Some t\<rparr> else u) (get_user n m)"
proof -
  have "find (\<lambda>u. username u = n) (map (\<lambda>u. if username u = name then u\<lparr>last_login := Some t\<rparr> else u) us)
     = map_option (\<lambda>u. if n = name then u\<lparr>last_login := Some t\<rparr> else u) (find (\<lambda>u. username u = n) us)" for us
    by (induction us) auto
  then show ?thesis by (simp add: get_user_def touch_login_def)
qed

lemma get_user_set_password: "get_user n (set_password name h m) =
    map_option (\<lambda>u. if n = name then u\<lparr>password_hash := h, must_change := 0\<rparr> else u) (get_user n m)"
proof -
  have "find (\<lambda>u. username u = n)
      (map (\<lambda>u. if username u = name then u\<lparr>password_hash := h, must_change := 0\<rparr> else u) us)
     = map_option (\<lambda>u. if n = name then u\<lparr>password_hash := h, must_change := 0\<rparr> else u)
         (find (\<lambda>u. username u = n) us)" for us
    by (induction us) auto
  then show ?thesis by (simp add: get_user_def set_password_def)
qed

section \<open>Properties\<close>

lemma login_in:
  assumes "login E K n1 n2 n3 salt now now_text rq name password (m, s) = (LoggedIn u mc tok, m', s')"
  shows "require_same_origin (au_host_ok E) rq = Inr ()"
    "1 \<le> length name" "length name \<le> 64" "1 \<le> length password" "length password \<le> 256"
  using assms by (auto simp: login_def Let_def split: if_splits option.splits sum.splits)

text \<open>C17 (login_session): A login succeeds only for a stored user whose stored hash verifies the password and who is not locked out; its cookie is accepted as that user by every later request from now until exactly session_hours later, and by none after; the time of the login is recorded.\<close>

theorem login_session:
  assumes "jwt_lib (au_jwt E)"
    and "login E K n1 n2 n3 salt now now_text rq name password (m, s) = (LoggedIn u mc tok, m', s')"
    and "rq_cookies rq' (cookie_name (au_cfg E)) = Some tok"
  shows "\<exists>usr usr'. get_user name m = Some usr \<and> u = name
    \<and> verify_password (au_argon E) (password_hash usr) password
    \<and> fst (throttle_check K (login_throttle (au_cfg E)) n1 n2 name (client_ip (au_ucd E) rq) now s)
    \<and> get_user name m' = Some usr' \<and> last_login usr' = Some now_text
    \<and> require_user (au_jwt E) (au_cfg E) later rq'
      = (if now \<le> later \<and> later < now + session_hours (au_cfg E) * 3600 then Inr name else Inl 401)"
proof -
  note c = login_cases [OF assms(2) login_in [OF assms(2)]]
  obtain usr where usr: "get_user name m = Some usr" "verify_password (au_argon E) (password_hash usr) password"
    and ok: "fst (throttle_check K (login_throttle (au_cfg E)) n1 n2 name (client_ip (au_ucd E) rq) now s)"
    using c by (auto split: if_splits option.splits)
  then have u: "u = name" "tok = issue (au_jwt E) (secret_key (au_cfg E)) name (session_hours (au_cfg E)) 0 now"
    and m': "m' = touch_login now_text name (if needs_rehash (au_argon E) (password_hash usr)
        then set_password name (hash_password (au_argon E) salt password) m else m)"
    using c by simp_all
  then have "\<exists>usr'. get_user name m' = Some usr' \<and> last_login usr' = Some now_text"
    using usr(1) by (simp add: get_user_touch get_user_set_password)
  then show ?thesis
    using usr ok u jwt_lib.require_user_issued [OF assms(1)] assms(3) by auto
qed

definition demo_auth_cfg :: auth_cfg where
  "demo_auth_cfg = \<lparr>secret_key = lit ''0123456789abcdef0123456789abcdef'', cookie_name = lit ''nls_session'',
     session_hours = 12, max_failed_logins = 2, lockout_seconds = 300\<rparr>"

definition demo_auth :: auth_env where
  "demo_auth = \<lparr>au_ucd = ascii_only, au_jwt = number_jwt, au_argon = plain_argon, au_host_ok = (\<lambda>_. True),
     au_cfg = demo_auth_cfg, au_dummy_hash = []\<rparr>"

definition demo_admin :: meta where
  "demo_admin = snd (create_user [] (lit ''admin'') (lit ''Correct-Horse-1'') True empty_meta)"

definition plain_request :: "string \<Rightarrow> pystr option \<Rightarrow> request" where
  "plain_request meth tok = \<lparr>rq_method = meth, rq_peer = Some (lit ''10.0.0.9''), rq_headers = (\<lambda>_. None),
     rq_cookies = (\<lambda>k. if k = lit ''nls_session'' then tok else None)\<rparr>"

lemma demo_user: "get_user (lit ''admin'') demo_admin =
    Some \<lparr>user_id = 1, username = lit ''admin'', password_hash = lit ''Correct-Horse-1'', is_admin = 1,
      must_change = 1, u_created_at = [], last_login = None\<rparr>"
  by (simp add: demo_admin_def create_user_def empty_meta_def get_user_def Let_def)

lemma demo_login:
  "login demo_auth ref_counters Reply Reply Reply [] 1000 (lit ''t'') (plain_request ''POST'' None)
     (lit ''admin'') (lit ''Correct-Horse-1'') (demo_admin, \<lambda>_. None)
   = (LoggedIn (lit ''admin'') True (issue number_jwt (secret_key demo_auth_cfg) (lit ''admin'') 12 0 1000),
      touch_login (lit ''t'') (lit ''admin'') demo_admin,
      throttle_clear ref_counters Reply (lit ''admin'') (lit ''10.0.0.9'') (\<lambda>_. None))"
proof -
  have ip: "client_ip ascii_only (plain_request ''POST'' None) = lit ''10.0.0.9''" by code_simp
  have "fst (throttle_check ref_counters (login_throttle demo_auth_cfg) Reply Reply (lit ''admin'')
      (lit ''10.0.0.9'') 1000 (\<lambda>_. None))"
    by (simp add: throttle_check_def ref_counters_def Let_def)
  moreover have "require_same_origin (\<lambda>_. True) (plain_request ''POST'' None) = Inr ()"
    by (simp add: require_same_origin_def plain_request_def SAFE_METHODS_def)
  moreover have "length (lit ''admin'') = 5" "length (lit ''Correct-Horse-1'') = 15" by (simp_all add: lit_def)
  ultimately show ?thesis
    by (simp add: login_def demo_auth_def ip demo_user Let_def verify_password_def plain_argon_def needs_rehash_def)
       (simp add: demo_auth_cfg_def)
qed

theorem login_session_witness:
  "require_user number_jwt demo_auth_cfg 5000 (plain_request ''GET''
      (Some (issue number_jwt (secret_key demo_auth_cfg) (lit ''admin'') 12 0 1000))) = Inr (lit ''admin'')"
proof -
  have "jwt_lib (au_jwt demo_auth)" by (simp add: demo_auth_def number_jwt.jwt_lib_axioms)
  from login_session [OF this demo_login, of "plain_request ''GET''
      (Some (issue number_jwt (secret_key demo_auth_cfg) (lit ''admin'') 12 0 1000))" 5000]
  show ?thesis by (auto simp: demo_auth_def demo_auth_cfg_def plain_request_def)
qed

text \<open>Also (session_genuine): Nothing gets past require_user without a token made with the server's secret: a request let through carries a cookie encoded under that secret, for this issuer, naming the user it is let through as, already valid and not yet expired; without the cookie, or with any other, the answer is 401.\<close>

theorem session_genuine:
  assumes "jwt_lib J"
  shows "case require_user J cfg now rq of
      Inl c \<Rightarrow> c = 401
    | Inr name \<Rightarrow> \<exists>c. rq_cookies rq (cookie_name cfg) = Some (jwt_encode J c (secret_key cfg))
        \<and> c_sub c = name \<and> c_iss c = ISSUER \<and> c_nbf c \<le> now \<and> now < c_exp c"
  using jwt_lib.require_user_genuine [OF assms]
  by (auto simp: require_user_def split: sum.splits option.splits if_splits)

theorem session_genuine_witness:
  "require_user number_jwt demo_auth_cfg 5000 (plain_request ''GET'' None) = Inl 401"
proof -
  have "case require_user number_jwt demo_auth_cfg 5000 (plain_request ''GET'' None) of Inl c \<Rightarrow> c = 401
    | Inr name \<Rightarrow> \<exists>c. rq_cookies (plain_request ''GET'' None) (cookie_name demo_auth_cfg)
          = Some (jwt_encode number_jwt c (secret_key demo_auth_cfg))
        \<and> c_sub c = name \<and> c_iss c = ISSUER \<and> c_nbf c \<le> 5000 \<and> 5000 < c_exp c"
    by (rule session_genuine [OF number_jwt.jwt_lib_axioms])
  then show ?thesis
    by (cases "require_user number_jwt demo_auth_cfg 5000 (plain_request ''GET'' None)")
       (auto simp: plain_request_def)
qed

lemma printable_kept:
  fixes u :: pystr
  assumes "\<forall>c \<in> set u. 32 < c"
  shows "filter (\<lambda>c. c \<notin> {9, 10, 13}) (dropWhile (\<lambda>c. c \<le> 32) u) = u"
proof -
  have "dropWhile (\<lambda>c. c \<le> 32) u = u" using assms by (cases u) auto
  then show ?thesis using assms by (auto intro!: filter_True)
qed

text \<open>Also (same_origin_exact): For a state-changing request of a browser, whose Origin is a scheme and an authority, require_same_origin lets it through exactly when the authority is the Host header: a page of any other host, port or scheme-relative origin gets 403.\<close>

theorem same_origin_exact:
  assumes "rq_method rq \<notin> set SAFE_METHODS"
    and "rq_headers rq ''origin'' = Some (scheme @ lit ''://'' @ authority)"
    and "rq_headers rq ''host'' = Some host"
    and "scheme \<noteq> []" and "alpha (hd scheme)" and "list_all scheme_char scheme"
    and "list_all (\<lambda>c. 32 < c \<and> c < 128 \<and> c \<notin> {35, 47, 63, 91, 93}) authority"
  shows "require_same_origin host_ok rq = (if authority = host then Inr () else Inl 403)"
proof -
  have plain: "32 < c \<and> c < 128 \<and> c \<noteq> 58" if "scheme_char c" for c
    using that by (auto simp: scheme_char_def is_ascii_digit_def)
  let ?url = "scheme @ lit ''://'' @ authority"
  have sc: "\<forall>c \<in> set scheme. 32 < c \<and> c < 128 \<and> c \<noteq> 58" using assms(6) plain by (auto simp: list_all_iff)
  have "\<forall>c \<in> set ?url. 32 < c" using sc assms(7) by (auto simp: list_all_iff lit_def)
  then have same: "filter (\<lambda>c. c \<notin> {9, 10, 13}) (dropWhile (\<lambda>c. c \<le> 32) ?url) = ?url"
    by (rule printable_kept)
  have find: "py_find ?url [58] = Some (length scheme)"
  proof -
    have "py_find (x @ 58 # y) [58] = Some (length x)" if "58 \<notin> set x" for x y :: pystr
      using that by (induction x) auto
    moreover have "58 \<notin> set scheme" using sc by auto
    ultimately show ?thesis by (simp add: lit_def)
  qed
  have cut: "cut_scheme ?url = lit ''//'' @ authority"
    using assms(4-6) unfolding cut_scheme_def find by (simp add: lit_def)
  have b: "c < 128 \<and> c \<notin> {35, 47, 63, 91, 93}" if "c \<in> set authority" for c
    using assms(7) that unfolding list_all_iff by blast
  have tw: "takeWhile (\<lambda>c. c \<notin> {47, 63, 35}) authority = authority"
    unfolding takeWhile_eq_all_conv using b by blast
  have slashes: "take 2 (lit ''//'' @ authority) = lit ''//''" "drop 2 (lit ''//'' @ authority) = authority"
    by (simp_all add: lit_def)
  have none: "91 \<notin> set authority" "93 \<notin> set authority" "\<not> (\<exists>c \<in> set authority. 128 \<le> c)"
    using b not_le by blast+
  have "netloc host_ok ?url = Inr authority"
    unfolding netloc_def Let_def same cut slashes tw using none by simp
  then show ?thesis using assms(1-3) by (simp add: require_same_origin_def)
qed

definition browser_request :: request where
  "browser_request = \<lparr>rq_method = ''POST'', rq_peer = None,
     rq_headers = (\<lambda>h. if h = ''origin'' then Some (lit ''http://evil.example'')
        else if h = ''host'' then Some (lit ''logs.example'') else None), rq_cookies = (\<lambda>_. None)\<rparr>"

theorem same_origin_exact_witness:
  "require_same_origin (\<lambda>_. True) browser_request = Inl 403"
proof -
  have "require_same_origin (\<lambda>_. True) browser_request
    = (if lit ''evil.example'' = lit ''logs.example'' then Inr () else Inl 403)"
    by (rule same_origin_exact [where scheme = "lit ''http''"])
       (simp_all add: browser_request_def SAFE_METHODS_def lit_def alpha_def scheme_char_def is_ascii_digit_def)
  then show ?thesis by (simp add: lit_def)
qed

text \<open>Failing logins of one user from one address, one after the other.\<close>

definition bad_logins ::
    "auth_env \<Rightarrow> 'k counters \<Rightarrow> request \<Rightarrow> pystr \<Rightarrow> (pystr \<times> int) list \<Rightarrow> meta \<times> 'k \<Rightarrow> meta \<times> 'k" where
  "bad_logins E K rq name tries x =
     fold (\<lambda>(password, now) x. snd (login E K Reply Reply Reply [] now [] rq name password x)) tries x"

definition wrong_password :: "auth_env \<Rightarrow> meta \<Rightarrow> pystr \<Rightarrow> pystr \<Rightarrow> bool" where
  "wrong_password E m name password \<longleftrightarrow> 1 \<le> length password \<and> length password \<le> 256
     \<and> (case get_user name m of None \<Rightarrow> True | Some u \<Rightarrow> \<not> verify_password (au_argon E) (password_hash u) password)"

lemma bad_login_step:
  assumes "redis_expiry K W" "0 < lockout_seconds (au_cfg E)"
    and "require_same_origin (au_host_ok E) rq = Inr ()" "1 \<le> length name" "length name \<le> 64"
    and "wrong_password E m name password"
    and "case alive now (W s (throttle_key name (client_ip (au_ucd E) rq))) of None \<Rightarrow> True
       | Some (c, _) \<Rightarrow> c < max_failed_logins (au_cfg E)"
  shows "\<exists>s'. login E K Reply Reply Reply salt now t rq name password (m, s) = (Refuse 401, m, s')
    \<and> W s' (throttle_key name (client_ip (au_ucd E) rq))
      = counted_up (lockout_seconds (au_cfg E)) now (W s (throttle_key name (client_ip (au_ucd E) rq)))"
proof -
  have pw: "1 \<le> length password" "length password \<le> 256" using assms(6) by (simp_all add: wrong_password_def)
  obtain a m' s' where l: "login E K Reply Reply Reply salt now t rq name password (m, s) = (a, m', s')"
    by (metis prod_cases3)
  have "fst (throttle_check K (login_throttle (au_cfg E)) Reply Reply name (client_ip (au_ucd E) rq) now s)"
    using assms(7) unfolding redis_expiry.check_view [OF assms(1)]
    by (auto simp: login_throttle_def split: option.splits)
  then have "a = Refuse 401 \<and> m' = m
    \<and> s' = record_failure K (login_throttle (au_cfg E)) Reply name (client_ip (au_ucd E) rq) now s"
    using login_cases [OF l assms(3-5) pw] assms(6) by (auto simp: wrong_password_def split: option.splits)
  moreover have "0 < lockout (login_throttle (au_cfg E))" using assms(2) by (simp add: login_throttle_def)
  ultimately show ?thesis
    using l redis_expiry.record_failure_view [OF assms(1), of "login_throttle (au_cfg E)"]
    by (simp add: login_throttle_def)
qed

lemma bad_logins_run:
  assumes "redis_expiry K W" "0 < lockout_seconds (au_cfg E)"
    and "require_same_origin (au_host_ok E) rq = Inr ()" "1 \<le> length name" "length name \<le> 64"
    and "\<forall>(p, _) \<in> set ((p, t) # tries). wrong_password E m name p"
    and "successively (\<lambda>a b. a \<le> b \<and> b < a + lockout_seconds (au_cfg E)) (t # map snd tries)"
    and "alive t (W s (throttle_key name (client_ip (au_ucd E) rq))) = None"
    and "int (length tries) < max_failed_logins (au_cfg E)"
  shows "\<exists>s'. bad_logins E K rq name ((p, t) # tries) (m, s) = (m, s')
    \<and> W s' (throttle_key name (client_ip (au_ucd E) rq))
      = Some (int (length tries) + 1, Some (last (t # map snd tries) + lockout_seconds (au_cfg E)))"
  using assms(6-9)
proof (induction tries rule: rev_induct)
  case Nil
  then show ?case
    using bad_login_step [OF assms(1-5), of m p t s "[]" "[]"]
    by (auto simp: bad_logins_def counted_up_def)
next
  case (snoc x tries)
  obtain q v where x: "x = (q, v)" by fastforce
  let ?L = "lockout_seconds (au_cfg E)" and ?k = "throttle_key name (client_ip (au_ucd E) rq)"
  have succ: "successively (\<lambda>a b. a \<le> b \<and> b < a + ?L) (t # map snd tries)"
    "last (t # map snd tries) \<le> v \<and> v < last (t # map snd tries) + ?L"
    using snoc.prems(2) by (auto simp: x successively_append_iff successively_Cons split: if_splits)
  obtain s1 where s1: "bad_logins E K rq name ((p, t) # tries) (m, s) = (m, s1)"
    "W s1 ?k = Some (int (length tries) + 1, Some (last (t # map snd tries) + ?L))"
    using snoc.IH snoc.prems succ(1) by auto
  have "alive v (W s1 ?k) = Some (int (length tries) + 1, Some (last (t # map snd tries) + ?L))"
    using s1(2) succ(2) by simp
  then have "\<exists>s'. login E K Reply Reply Reply [] v [] rq name q (m, s1) = (Refuse 401, m, s')
      \<and> W s' ?k = counted_up ?L v (W s1 ?k)"
    using snoc.prems(1,4) by (intro bad_login_step [OF assms(1-5)]) (auto simp: x)
  then show ?case
    using s1 \<open>alive v (W s1 ?k) = _\<close> by (auto simp: bad_logins_def x counted_up_def)
qed

text \<open>Also (login_locks): Password guessing is cut off: after max_failed_logins wrong logins of a user from one address, each within the lockout time of the one before, every further login from there within the lockout time gets 429, the right password included, and changes nothing: it neither extends the lockout nor touches the store.\<close>

theorem login_locks:
  assumes "redis_expiry K W" "0 < lockout_seconds (au_cfg E)"
    and "require_same_origin (au_host_ok E) rq = Inr ()" "1 \<le> length name" "length name \<le> 64"
    and "\<forall>(p, _) \<in> set ((p, t) # tries). wrong_password E m name p"
    and "successively (\<lambda>a b. a \<le> b \<and> b < a + lockout_seconds (au_cfg E)) (t # map snd tries)"
    and "alive t (W s (throttle_key name (client_ip (au_ucd E) rq))) = None"
    and "max_failed_logins (au_cfg E) = int (length tries) + 1"
    and "now < last (t # map snd tries) + lockout_seconds (au_cfg E)"
    and "1 \<le> length password" "length password \<le> 256"
  shows "\<exists>s'. bad_logins E K rq name ((p, t) # tries) (m, s) = (m, s')
    \<and> login E K Reply Reply Reply salt now now_text rq name password (m, s') = (Refuse 429, m, s')"
proof -
  have "int (length tries) < max_failed_logins (au_cfg E)" using assms(9) by simp
  from bad_logins_run [OF assms(1-8) this] obtain s' where
    s': "bad_logins E K rq name ((p, t) # tries) (m, s) = (m, s')"
    "W s' (throttle_key name (client_ip (au_ucd E) rq))
      = Some (int (length tries) + 1, Some (last (t # map snd tries) + lockout_seconds (au_cfg E)))"
    by blast
  obtain a m1 s1 where l: "login E K Reply Reply Reply salt now now_text rq name password (m, s') = (a, m1, s1)"
    by (metis prod_cases3)
  have "\<not> fst (throttle_check K (login_throttle (au_cfg E)) Reply Reply name (client_ip (au_ucd E) rq) now s')"
    unfolding redis_expiry.check_view [OF assms(1)] s'(2) using assms(9,10) by (simp add: login_throttle_def)
  then show ?thesis using login_cases [OF l assms(3-5,11,12)] l s'(1) by auto
qed

theorem login_locks_witness:
  "\<exists>s'. bad_logins demo_auth ref_counters (plain_request ''POST'' None) (lit ''admin'')
      [(lit ''guess-1'', 10), (lit ''guess-2'', 20)] (demo_admin, \<lambda>_. None) = (demo_admin, s')
    \<and> login demo_auth ref_counters Reply Reply Reply [] 100 [] (plain_request ''POST'' None)
        (lit ''admin'') (lit ''Correct-Horse-1'') (demo_admin, s') = (Refuse 429, demo_admin, s')"
proof (rule login_locks [OF ref_expiry.redis_expiry_axioms])
  have "wrong_password demo_auth demo_admin (lit ''admin'') (lit ''guess-1'')"
    "wrong_password demo_auth demo_admin (lit ''admin'') (lit ''guess-2'')"
  proof -
    have "lit ''guess-1'' \<noteq> lit ''Correct-Horse-1''" "lit ''guess-2'' \<noteq> lit ''Correct-Horse-1''"
      "length (lit ''guess-1'') = 7" "length (lit ''guess-2'') = 7" by code_simp+
    then show "wrong_password demo_auth demo_admin (lit ''admin'') (lit ''guess-1'')"
      "wrong_password demo_auth demo_admin (lit ''admin'') (lit ''guess-2'')"
      by (simp_all add: wrong_password_def demo_user verify_password_def demo_auth_def plain_argon_def)
  qed
  then show "\<forall>(p, _) \<in> set [(lit ''guess-1'', 10), (lit ''guess-2'', 20)].
      wrong_password demo_auth demo_admin (lit ''admin'') p" by simp
qed (simp_all add: demo_auth_def demo_auth_cfg_def lit_def require_same_origin_def plain_request_def SAFE_METHODS_def)

lemma guarded_status: "guarded J host_ok cfg now rq = Inl c \<Longrightarrow> c \<in> {401, 403, 500}"
  by (auto simp: guarded_def require_user_def require_same_origin_def Let_def
      split: sum.splits option.splits if_splits)

text \<open>Also (password_change): A password changes only on a request that passes both guards, with the current password and a new one that meets the policy; then the new password verifies, no other does, and nothing else of the store changes. The cookie of the request, like every other session of that user, stays valid: no session ends with the password it was opened with.\<close>

theorem password_change:
  assumes "argon_lib (au_argon E)" and "change_password E salt now rq current new m = (200, m')"
  shows "\<exists>name u u'. guarded (au_jwt E) (au_host_ok E) (au_cfg E) now rq = Inr name
    \<and> get_user name m = Some u \<and> verify_password (au_argon E) (password_hash u) current
    \<and> password_problems (au_ucd E) new = []
    \<and> get_user name m' = Some u' \<and> (\<forall>p. verify_password (au_argon E) (password_hash u') p = (p = new))
    \<and> must_change u' = 0 \<and> (\<forall>n. n \<noteq> name \<longrightarrow> get_user n m' = get_user n m)
    \<and> m' = m\<lparr>users := users m'\<rparr>
    \<and> me E now rq m' = Me name False (last_login u)"
proof -
  obtain name u where *: "guarded (au_jwt E) (au_host_ok E) (au_cfg E) now rq = Inr name"
    "get_user name m = Some u" "verify_password (au_argon E) (password_hash u) current"
    "password_problems (au_ucd E) new = []" "m' = set_password name (hash_password (au_argon E) salt new) m"
    using assms(2) by (auto simp: change_password_def split: sum.splits if_splits option.splits dest: guarded_status)
  have u: "username u = name" using *(2) by (simp add: get_user_def find_Some_iff) blast
  have "require_user (au_jwt E) (au_cfg E) now rq = Inr name"
    using *(1) by (auto simp: guarded_def split: sum.splits)
  moreover have "m' = m\<lparr>users := users m'\<rparr>" unfolding *(5) by (simp add: set_password_def)
  ultimately show ?thesis
    using * u argon_lib.verify_law [OF assms(1)]
    by (auto simp: get_user_set_password verify_password_def hash_password_def me_def option.map_ident)
qed

lemma demo_change:
  "change_password demo_auth [] 5000 (plain_request ''POST''
      (Some (issue number_jwt (secret_key demo_auth_cfg) (lit ''admin'') 12 0 1000)))
     (lit ''Correct-Horse-1'') (lit ''Another-Horse-22'') demo_admin
   = (200, set_password (lit ''admin'') (lit ''Another-Horse-22'') demo_admin)"
proof -
  let ?rq = "plain_request ''POST'' (Some (issue number_jwt (secret_key demo_auth_cfg) (lit ''admin'') 12 0 1000))"
  have "rq_cookies ?rq (cookie_name demo_auth_cfg)
      = Some (issue number_jwt (secret_key demo_auth_cfg) (lit ''admin'') 12 0 1000)"
    by (simp add: plain_request_def demo_auth_cfg_def)
  then have "require_user number_jwt demo_auth_cfg 5000 ?rq = Inr (lit ''admin'')"
    by (simp add: number_jwt.require_user_issued)
  moreover have "require_same_origin (\<lambda>_. True) ?rq = Inr ()"
    by (simp add: require_same_origin_def plain_request_def SAFE_METHODS_def)
  moreover have "password_problems ascii_only (lit ''Another-Horse-22'') = []"
    "length (lit ''Correct-Horse-1'') = 15" "length (lit ''Another-Horse-22'') = 16" by code_simp+
  ultimately show ?thesis
    by (simp add: change_password_def demo_auth_def guarded_def demo_user verify_password_def plain_argon_def
        hash_password_def)
qed

theorem password_change_witness:
  "password_problems ascii_only (lit ''Another-Horse-22'') = []"
proof -
  have "argon_lib (au_argon demo_auth)" by (simp add: demo_auth_def plain_argon.argon_lib_axioms)
  from password_change [OF this demo_change] show ?thesis by (auto simp: demo_auth_def)
qed

text \<open>Also (rehash_clears_must_change): A login that upgrades an outdated hash also takes back the duty to change the password: set_password clears must_change, so a user who was told to change the password at this login no longer has to at the next.\<close>

theorem rehash_clears_must_change:
  assumes "login E K n1 n2 n3 salt now now_text rq name password (m, s) = (LoggedIn u True tok, m', s')"
    and "get_user name m = Some usr" and "needs_rehash (au_argon E) (password_hash usr)"
  shows "must_change usr \<noteq> 0 \<and> (\<exists>usr'. get_user name m' = Some usr' \<and> must_change usr' = 0)"
  using login_cases [OF assms(1) login_in [OF assms(1)]] assms(2,3)
  by (auto simp: get_user_touch get_user_set_password split: if_splits)

text \<open>The same library after a change of parameters: every stored hash is outdated.\<close>

definition newer_auth :: auth_env where
  "newer_auth = demo_auth\<lparr>au_argon := plain_argon\<lparr>ph_needs_rehash := (\<lambda>_. Some True)\<rparr>\<rparr>"

theorem rehash_clears_must_change_witness:
  "\<exists>usr'. get_user (lit ''admin'') (touch_login (lit ''t'') (lit ''admin'')
      (set_password (lit ''admin'') (lit ''Correct-Horse-1'') demo_admin)) = Some usr' \<and> must_change usr' = 0"
proof -
  have ip: "client_ip ascii_only (plain_request ''POST'' None) = lit ''10.0.0.9''" by code_simp
  have "fst (throttle_check ref_counters (login_throttle demo_auth_cfg) Reply Reply (lit ''admin'')
      (lit ''10.0.0.9'') 1000 (\<lambda>_. None))"
    by (simp add: throttle_check_def ref_counters_def Let_def)
  moreover have "require_same_origin (\<lambda>_. True) (plain_request ''POST'' None) = Inr ()"
    by (simp add: require_same_origin_def plain_request_def SAFE_METHODS_def)
  moreover have "length (lit ''admin'') = 5" "length (lit ''Correct-Horse-1'') = 15" by (simp_all add: lit_def)
  ultimately have l: "login newer_auth ref_counters Reply Reply Reply [] 1000 (lit ''t'') (plain_request ''POST'' None)
      (lit ''admin'') (lit ''Correct-Horse-1'') (demo_admin, \<lambda>_. None)
    = (LoggedIn (lit ''admin'') True (issue number_jwt (secret_key demo_auth_cfg) (lit ''admin'') (session_hours demo_auth_cfg) 0 1000),
       touch_login (lit ''t'') (lit ''admin'') (set_password (lit ''admin'') (lit ''Correct-Horse-1'') demo_admin),
       throttle_clear ref_counters Reply (lit ''admin'') (lit ''10.0.0.9'') (\<lambda>_. None))"
    by (simp add: login_def newer_auth_def demo_auth_def ip demo_user Let_def verify_password_def plain_argon_def
        needs_rehash_def hash_password_def)
  show ?thesis
    using rehash_clears_must_change [OF l demo_user]
    by (simp add: newer_auth_def needs_rehash_def)
qed

end
