(* ===== verification/Settings_Api.thy ===== *)
theory Settings_Api
  imports Auth Parser_Base
begin

text \<open>
  \<open>backend/app/api/settings_api.py\<close>: company name, logo and retention, with the text that
  \<open>ClickHouseService.apply_retention\<close> sends. Pillow is a parameter: what it makes of the uploaded
  bytes. So is whether ClickHouse accepts a command.
\<close>

section \<open>Retention\<close>

text \<open>\<open>apply_retention\<close>: the text of the command.\<close>

definition retention_text :: "pystr \<Rightarrow> int \<Rightarrow> int \<Rightarrow> pystr" where
  "retention_text table hot_days retention_months =
     lit ''ALTER TABLE '' @ table @ lit '' MODIFY TTL ''
     @ lit ''timestamp + INTERVAL '' @ py_str_int hot_days @ lit '' DAY RECOMPRESS CODEC(ZSTD(9)), ''
     @ lit ''timestamp + INTERVAL '' @ py_str_int retention_months @ lit '' MONTH DELETE''"

text \<open>
  ClickHouse as \<open>command\<close> meets it: whether it takes a text, and the commands it has carried out.
  When the reply is lost it has carried the command out although the caller sees an error.
\<close>

definition ch_command :: "(pystr \<Rightarrow> bool) \<Rightarrow> net \<Rightarrow> pystr \<Rightarrow> (pystr list, unit) eff" where
  "ch_command accepts net text =
     remote DbError net (\<lambda>log. if accepts text then (Inr (), log @ [text]) else (Inl DbError, log))"

definition apply_retention :: "(pystr \<Rightarrow> bool) \<Rightarrow> net \<Rightarrow> pystr \<Rightarrow> int \<Rightarrow> int \<Rightarrow> (pystr list, unit) eff" where
  "apply_retention accepts net table hot months = ch_command accepts net (retention_text table hot months)"

definition HOT :: pystr where "HOT = lit ''hot_days''"
definition MONTHS :: pystr where "MONTHS = lit ''retention_months''"

definition get_retention :: "ucd \<Rightarrow> meta \<Rightarrow> (int \<times> int) result" where
  "get_retention U m =
     (case int_of_text U (get_setting HOT (lit ''30'') m) of
        Inl e \<Rightarrow> Inl e
      | Inr hot \<Rightarrow>
          (case int_of_text U (get_setting MONTHS (lit ''12'') m) of
             Inl e \<Rightarrow> Inl e
           | Inr months \<Rightarrow> Inr (hot, months)))"

definition retention_ok :: "int \<Rightarrow> int \<Rightarrow> bool" where
  "retention_ok hot months \<longleftrightarrow> 1 \<le> hot \<and> hot \<le> 3650 \<and> 1 \<le> months \<and> months \<le> 120"

definition set_retention ::
    "(pystr \<Rightarrow> bool) \<Rightarrow> net \<Rightarrow> pystr \<Rightarrow> int \<Rightarrow> int \<Rightarrow> meta \<times> pystr list \<Rightarrow> nat \<times> meta \<times> pystr list" where
  "set_retention accepts net table hot months x =
     (let (m, log) = x
      in if \<not> retention_ok hot months then (422, m, log)
         else
           (case apply_retention accepts net table hot months log of
              (Inl _, log) \<Rightarrow> (503, m, log)
            | (Inr _, log) \<Rightarrow>
                (let m = set_setting HOT (py_str_int hot) m;
                     m = set_setting MONTHS (py_str_int months) m
                 in (200, m, log))))"

section \<open>Branding\<close>

definition COMPANY :: pystr where "COMPANY = lit ''company_name''"
definition LOGO :: pystr where "LOGO = lit ''logo_filename''"

definition get_branding :: "meta \<Rightarrow> pystr \<times> pystr option" where
  "get_branding m =
     (let logo = get_setting LOGO [] m
      in (get_setting COMPANY (lit ''Network Log Server'') m,
          if logo \<noteq> [] then Some (lit ''/api/settings/logo/'' @ logo) else None))"

definition set_branding :: "ucd \<Rightarrow> pystr \<Rightarrow> meta \<Rightarrow> nat \<times> meta" where
  "set_branding U name m =
     (if \<not> (1 \<le> length name \<and> length name \<le> 64) then (422, m)
      else (200, set_setting COMPANY (py_strip U name) m))"

definition MAX_LOGO_BYTES :: nat where "MAX_LOGO_BYTES = 2 * 1024 * 1024"
definition MAX_LOGO_PIXELS :: nat where "MAX_LOGO_PIXELS = 4000"

text \<open>
  What Pillow makes of the bytes: an error while opening, verifying, converting or saving
  (\<open>None\<close>), or an image of a format and size. \<open>tok\<close> is the text of \<open>secrets.token_hex(8)\<close>.
\<close>

record image =
  im_format :: string
  im_width :: nat
  im_height :: nat

definition logo_name :: "pystr \<Rightarrow> pystr" where
  "logo_name tok = lit ''logo-'' @ tok @ lit ''.png''"

definition process_logo :: "image option \<Rightarrow> bool \<Rightarrow> pystr \<Rightarrow> (pystr set, pystr) eff" where
  "process_logo img saves tok files =
     (case img of
        None \<Rightarrow> (Inl ValueError, files)
      | Some i \<Rightarrow>
          if im_format i \<notin> {''PNG'', ''JPEG'', ''GIF'', ''WEBP'', ''BMP''} then (Inl ValueError, files)
          else if im_width i > MAX_LOGO_PIXELS \<or> im_height i > MAX_LOGO_PIXELS then (Inl ValueError, files)
          else if \<not> saves then (Inl ValueError, files)
          else (Inr (logo_name tok), insert (logo_name tok) files))"

text \<open>\<open>unlink(missing_ok=True)\<close>, whose \<open>OSError\<close> is ignored.\<close>

definition unlink :: "bool \<Rightarrow> pystr \<Rightarrow> pystr set \<Rightarrow> pystr set" where
  "unlink removes name files = (if removes then files - {name} else files)"

definition upload_logo ::
    "(pybytes \<Rightarrow> image option) \<Rightarrow> bool \<Rightarrow> bool \<Rightarrow> pystr \<Rightarrow> pybytes \<Rightarrow> meta \<times> pystr set
      \<Rightarrow> nat \<times> meta \<times> pystr set" where
  "upload_logo pillow saves removes tok body x =
     (let (m, files) = x; raw = take (MAX_LOGO_BYTES + 1) body
      in if length raw > MAX_LOGO_BYTES then (413, m, files)
         else if raw = [] then (400, m, files)
         else
           (case process_logo (pillow raw) saves tok files of
              (Inl _, files) \<Rightarrow> (400, m, files)
            | (Inr filename, files) \<Rightarrow>
                (let previous = get_setting LOGO [] m;
                     m = set_setting LOGO filename m
                 in (200, m, if previous \<noteq> [] then unlink removes previous files else files))))"

definition clear_logo :: "bool \<Rightarrow> meta \<times> pystr set \<Rightarrow> nat \<times> meta \<times> pystr set" where
  "clear_logo removes x =
     (let (m, files) = x; previous = get_setting LOGO [] m; m = set_setting LOGO [] m
      in (200, m, if previous \<noteq> [] then unlink removes previous files else files))"

definition py_endswith :: "'a list \<Rightarrow> 'a list \<Rightarrow> bool" where
  "py_endswith s p = py_startswith (rev s) (rev p)"

text \<open>\<open>serve_logo\<close>: the name of the file served, or 404.\<close>

definition serve_logo :: "pystr set \<Rightarrow> pystr \<Rightarrow> nat + pystr" where
  "serve_logo files filename =
     (if \<not> py_startswith filename (lit ''logo-'') \<or> \<not> py_endswith filename (lit ''.png'') \<or> 47 \<in> set filename
      then Inl 404
      else if filename \<notin> files then Inl 404
      else Inr filename)"

section \<open>Lemmas\<close>

lemma int_digits_dec: "list_all is_ascii_digit s \<Longrightarrow> int_digits U s acc = dec_digits U s acc"
  by (induction s arbitrary: acc) (auto simp: dec_val_def is_ascii_digit_def)

lemma digit_not_space: "is_ascii_digit c \<Longrightarrow> \<not> is_space U c"
  by (auto simp: is_ascii_digit_def is_space_def)

lemma int_of_text_str: "int_of_text U (py_str_int n) = Inr n"
proof -
  let ?d = "py_str_nat (nat \<bar>n\<bar>)"
  have d: "list_all is_ascii_digit ?d" by (auto simp: list_all_iff dest: py_str_nat_digits)
  obtain c cs where cs: "?d = c # cs" by (cases ?d) auto
  have c: "is_ascii_digit c" "dec_val U c \<noteq> None" using d cs by (auto simp: dec_val_def is_ascii_digit_def)
  have lst: "is_ascii_digit (last ?d)" using d py_str_nat_not_Nil [of "nat \<bar>n\<bar>"] last_in_set
    unfolding list_all_iff by blast
  have val: "int_digits U (c # cs) 0 = Some (nat \<bar>n\<bar>)"
    using int_digits_dec [OF d, of U 0] dec_digits_py_str_nat [of U "nat \<bar>n\<bar>"] by (simp add: cs)
  show ?thesis
  proof (cases "n < 0")
    case True
    have m: "\<not> is_space U 45" by (simp add: is_space_def)
    have t: "py_str_int n = 45 # c # cs" using True cs by (simp add: py_str_int_def)
    have "py_strip U (45 # c # cs) = 45 # c # cs"
      using lst m cs digit_not_space by (intro strip_no_space) (auto split: if_splits)
    then show ?thesis using True c val unfolding int_of_text_def t by (auto simp: Let_def)
  next
    case False
    have t: "py_str_int n = c # cs" using False cs by (simp add: py_str_int_def)
    have "py_strip U (c # cs) = c # cs"
      using lst c cs digit_not_space by (intro strip_no_space) (auto split: if_splits)
    moreover have "c \<noteq> 45" "c \<noteq> 43" using c(1) by (auto simp: is_ascii_digit_def)
    ultimately show ?thesis using False c val unfolding int_of_text_def t by (auto simp: Let_def)
  qed
qed

lemma get_set_setting: "get_setting k d (set_setting k' v m) = (if k = k' then v else get_setting k d m)"
  by (simp add: get_setting_def set_setting_def)

lemma retention_keys: "HOT \<noteq> MONTHS" "LOGO \<noteq> HOT" "LOGO \<noteq> MONTHS" "COMPANY \<noteq> LOGO"
  by (simp_all add: HOT_def MONTHS_def LOGO_def COMPANY_def lit_def)

section \<open>Properties\<close>

text \<open>Also (retention_roundtrip): When a retention change is answered with success, ClickHouse has been given exactly the two numbers, as its last command, and the settings read back as these numbers; when ClickHouse refuses or is not reached, neither the settings nor the table change.\<close>

theorem retention_roundtrip:
  assumes "set_retention accepts net table hot months (m, log) = (c, m', log')"
  shows "(c = 200 \<longrightarrow> get_retention U m' = Inr (hot, months) \<and> retention_ok hot months
      \<and> log' = log @ [retention_text table hot months])
    \<and> (c \<noteq> 200 \<longrightarrow> m' = m \<and> (net \<noteq> ReplyLost \<longrightarrow> log' = log))"
  using assms retention_keys
  by (cases net)
     (auto simp: set_retention_def apply_retention_def ch_command_def get_retention_def get_set_setting
        int_of_text_str Let_def split: if_splits)

theorem retention_roundtrip_witness:
  "get_retention ascii_only (fst (snd (set_retention (\<lambda>_. True) Reply (lit ''t'') 30 24 (empty_meta, [])))) = Inr (30, 24)"
proof -
  obtain c m' log' where r: "set_retention (\<lambda>_. True) Reply (lit ''t'') 30 24 (empty_meta, []) = (c, m', log')"
    by (metis prod_cases3)
  then have "c = 200" by (auto simp: set_retention_def retention_ok_def apply_retention_def ch_command_def Let_def)
  then show ?thesis using retention_roundtrip [OF r] r by simp
qed

text \<open>Also (retention_reply_lost): When the reply of ClickHouse is lost, the caller is told that nothing was modified although the table's TTL has changed, and the settings still show the old numbers.\<close>

theorem retention_reply_lost:
  assumes "retention_ok hot months" and "accepts (retention_text table hot months)"
  shows "set_retention accepts ReplyLost table hot months (m, log)
    = (503, m, log @ [retention_text table hot months])"
  using assms by (simp add: set_retention_def apply_retention_def ch_command_def)

theorem retention_reply_lost_witness:
  "set_retention (\<lambda>_. True) ReplyLost (lit ''t'') 1 1 (empty_meta, []) = (503, empty_meta, [retention_text (lit ''t'') 1 1])"
  using retention_reply_lost [of 1 1 "\<lambda>_. True" "lit ''t''" empty_meta "[]"] by (simp add: retention_ok_def)

text \<open>The logo named in the settings is none, or a file that \<open>serve_logo\<close> serves.\<close>

definition logo_ok :: "meta \<times> pystr set \<Rightarrow> bool" where
  "logo_ok x = (let (m, files) = x; logo = get_setting LOGO [] m in logo = [] \<or> serve_logo files logo = Inr logo)"

lemma endswith_append: "py_endswith (a @ b) b"
  by (simp add: py_endswith_def)

lemma logo_name_served: "47 \<notin> set tok \<Longrightarrow> logo_name tok \<in> files \<Longrightarrow> serve_logo files (logo_name tok) = Inr (logo_name tok)"
proof -
  assume tok: "47 \<notin> set tok" "logo_name tok \<in> files"
  have "py_startswith (logo_name tok) (lit ''logo-'')" by (simp add: logo_name_def)
  moreover have "py_endswith (logo_name tok) (lit ''.png'')"
    unfolding logo_name_def append_assoc [symmetric] by (rule endswith_append)
  moreover have "47 \<notin> set (logo_name tok)" using tok(1) by (auto simp: logo_name_def lit_def)
  ultimately show ?thesis using tok(2) by (simp add: serve_logo_def)
qed

text \<open>Also (logo_lifecycle): Uploads and removals keep the logo setting and the files together: whatever happens, the setting names no logo or a file that the public endpoint serves; a successful upload names the new file and removes the old one, a refused upload changes nothing; and the endpoint serves only names of its own shape, never a path into another directory.\<close>

theorem logo_lifecycle:
  assumes "logo_ok (m, files)" and "47 \<notin> set tok" and "logo_name tok \<notin> files"
  shows "(case upload_logo pillow saves removes tok body (m, files) of (c, m', files') \<Rightarrow>
        logo_ok (m', files')
        \<and> (if c = 200 then get_branding m' = (fst (get_branding m), Some (lit ''/api/settings/logo/'' @ logo_name tok))
              \<and> (removes \<longrightarrow> files' = insert (logo_name tok)
                (if get_setting LOGO [] m = [] then files else files - {get_setting LOGO [] m}))
           else (m', files') = (m, files)))
    \<and> logo_ok (snd (clear_logo removes (m, files)))
    \<and> (\<forall>name f. serve_logo files name = Inr f \<longrightarrow> f = name \<and> f \<in> files \<and> 47 \<notin> set f \<and> py_startswith f (lit ''logo-''))"
proof -
  let ?n = "logo_name tok"
  have ne: "logo_name t \<noteq> []" for t by (simp add: logo_name_def lit_def)
  have prev: "get_setting LOGO [] m \<noteq> [] \<Longrightarrow> get_setting LOGO [] m \<in> files"
    using assms(1) by (auto simp: logo_ok_def serve_logo_def Let_def split: if_splits)
  have up: "case upload_logo pillow saves removes tok body (m, files) of (c, m', files') \<Rightarrow>
        logo_ok (m', files')
        \<and> (if c = 200 then get_branding m' = (fst (get_branding m), Some (lit ''/api/settings/logo/'' @ ?n))
              \<and> (removes \<longrightarrow> files' = insert ?n
                (if get_setting LOGO [] m = [] then files else files - {get_setting LOGO [] m}))
           else (m', files') = (m, files))"
  proof (cases "upload_logo pillow saves removes tok body (m, files)")
    case (fields c m' files')
    show ?thesis
    proof (cases "c = 200")
      case True
      then have m': "m' = set_setting LOGO ?n m"
        and f: "files' = (if get_setting LOGO [] m \<noteq> []
          then unlink removes (get_setting LOGO [] m) (insert ?n files) else insert ?n files)"
        using fields by (auto simp: upload_logo_def process_logo_def Let_def split: if_splits option.splits)
      have "?n \<in> files'" using f prev assms(3) by (auto simp: unlink_def)
      then show ?thesis
        using fields True f prev assms(3) logo_name_served [OF assms(2)] retention_keys(4)
        by (auto simp: m' logo_ok_def get_set_setting get_branding_def ne unlink_def Let_def)
    next
      case False
      then have "m' = m \<and> files' = files"
        using fields by (auto simp: upload_logo_def process_logo_def Let_def split: if_splits option.splits)
      then show ?thesis using fields False assms(1) by simp
    qed
  qed
  have "logo_ok (snd (clear_logo removes (m, files)))"
    by (simp add: clear_logo_def logo_ok_def get_set_setting Let_def)
  moreover have "\<forall>name f. serve_logo files name = Inr f \<longrightarrow>
      f = name \<and> f \<in> files \<and> 47 \<notin> set f \<and> py_startswith f (lit ''logo-'')"
    by (auto simp: serve_logo_def split: if_splits)
  ultimately show ?thesis using up by blast
qed

theorem logo_lifecycle_witness:
  "logo_ok (snd (upload_logo (\<lambda>_. Some \<lparr>im_format = ''PNG'', im_width = 64, im_height = 64\<rparr>) True True
     (lit ''ab12'') ''x'' (empty_meta, {})))"
proof -
  have "logo_ok (empty_meta, {})" by (simp add: logo_ok_def get_setting_def empty_meta_def)
  moreover have "47 \<notin> set (lit ''ab12'')" by (simp add: lit_def)
  ultimately show ?thesis
    using logo_lifecycle [of empty_meta "{}" "lit ''ab12''", where body = "''x''" and saves = True and removes = True
        and pillow = "\<lambda>_. Some \<lparr>im_format = ''PNG'', im_width = 64, im_height = 64\<rparr>"]
    by (cases "upload_logo (\<lambda>_. Some \<lparr>im_format = ''PNG'', im_width = 64, im_height = 64\<rparr>) True True
      (lit ''ab12'') ''x'' (empty_meta, {})") simp
qed

text \<open>Also (blank_company): The company name can be set to nothing: a name of blanks passes the check for at least one character and is stored trimmed.\<close>

theorem blank_company:
  assumes "1 \<le> length name" "length name \<le> 64" "list_all (is_space U) name"
  shows "fst (set_branding U name m) = 200 \<and> fst (get_branding (snd (set_branding U name m))) = []"
proof -
  have "dropWhile (is_space U) name = []" using assms(3) by (simp add: list_all_iff)
  then have "py_strip U name = []" by (simp only: py_strip_def py_lstrip_def rev.simps dropWhile.simps)
  then show ?thesis using assms(1,2) by (simp add: set_branding_def get_branding_def get_set_setting Let_def)
qed

theorem blank_company_witness:
  "fst (get_branding (snd (set_branding ascii_only (lit ''  '') empty_meta))) = []"
  using blank_company [of "lit ''  ''" ascii_only empty_meta] by (simp add: lit_def is_space_def)

end
