(* ===== verification/Schema_Text.thy ===== *)
theory Schema_Text
  imports Settings_Api
begin

text \<open>
  \<open>render_schema\<close> of \<open>backend/app/database/clickhouse.py\<close>: the schema file with its placeholders
  filled in, cut into statements.
\<close>

section \<open>Rendering the schema\<close>

text \<open>The statements of a chunk list: comment lines dropped, blank statements left out.\<close>

fun schema_statements :: "ucd \<Rightarrow> pystr list \<Rightarrow> pystr list" where
  "schema_statements U [] = []"
| "schema_statements U (chunk # chunks) =
     (let lines = filter (\<lambda>l. \<not> py_startswith (py_strip U l) (lit ''--'')) (py_splitlines chunk);
          stmt = py_strip U (py_join [10] lines)
      in if stmt \<noteq> [] then stmt # schema_statements U chunks else schema_statements U chunks)"

definition schema_text :: "pystr \<Rightarrow> pystr \<Rightarrow> int \<Rightarrow> int \<Rightarrow> pystr" where
  "schema_text text database hot_days months =
     py_replace
       (py_replace
         (py_replace text (lit ''{{DATABASE}}'') database)
         (lit ''{{HOT_DAYS}}'') (py_str_int hot_days))
       (lit ''{{RETENTION_MONTHS}}'') (py_str_int months)"

definition render_schema :: "ucd \<Rightarrow> pystr \<Rightarrow> pystr \<Rightarrow> int \<Rightarrow> int \<Rightarrow> pystr list" where
  "render_schema U text database hot_days months =
     schema_statements U (py_split 59 (schema_text text database hot_days months))"

section \<open>Lemmas\<close>

lemma set_py_strip: "set (py_strip U s) \<subseteq> set s"
proof
  fix x
  assume "x \<in> set (py_strip U s)"
  then have "x \<in> set (dropWhile (is_space U) s)"
    unfolding py_strip_def py_lstrip_def by (metis set_rev set_dropWhileD)
  then show "x \<in> set s" by (rule set_dropWhileD)
qed

lemma py_split_parts: "p \<in> set (py_split sep s) \<Longrightarrow> sep \<notin> set p"
  by (induction s arbitrary: p rule: py_split.induct) (auto split: if_splits list.splits)

lemma set_py_splitlines: "l \<in> set (py_splitlines s) \<Longrightarrow> set l \<subseteq> set s"
proof (induction s arbitrary: l rule: py_splitlines.induct)
  case (2 c cs)
  show ?case
  proof (cases "dropWhile (\<lambda>x. \<not> line_break x) (c # cs)")
    case Nil
    then show ?thesis using 2(2) by simp
  next
    case (Cons b rest)
    let ?next = "if b = 13 \<and> rest \<noteq> [] \<and> hd rest = 10 then tl rest else rest"
    have sub: "set ?next \<subseteq> set (c # cs)"
    proof -
      have "set (b # rest) \<subseteq> set (c # cs)" using Cons set_dropWhileD by (metis subsetI)
      then show ?thesis by (cases rest) auto
    qed
    have "l = takeWhile (\<lambda>x. \<not> line_break x) (c # cs) \<or> l \<in> set (py_splitlines ?next)"
      using 2(2) Cons by simp
    then show ?thesis
    proof
      assume "l = takeWhile (\<lambda>x. \<not> line_break x) (c # cs)"
      then show ?thesis using set_takeWhileD by (metis subsetI)
    next
      assume "l \<in> set (py_splitlines ?next)"
      then show ?thesis using 2(1) [OF Cons] sub by blast
    qed
  qed
qed simp

lemma set_py_join: "set (py_join sep parts) \<subseteq> set sep \<union> (\<Union>p \<in> set parts. set p)"
  by (cases parts) (auto simp: py_join_def)

lemma py_strip_idem: "py_strip U (py_strip U s) = py_strip U s"
proof (cases "py_strip U s = []")
  case False
  let ?l = "dropWhile (is_space U) s"
  have t: "py_strip U s = rev (dropWhile (is_space U) (rev ?l))" by (simp add: py_strip_def py_lstrip_def)
  then have ne: "dropWhile (is_space U) (rev ?l) \<noteq> []" using False by simp
  have lst: "\<not> is_space U (last (py_strip U s))"
    using hd_dropWhile [OF ne] by (simp add: t last_rev)
  have "?l = py_strip U s @ rev (takeWhile (is_space U) (rev ?l))"
    by (metis t rev_append rev_rev_ident takeWhile_dropWhile_id)
  then have "hd (py_strip U s) = hd ?l" using False by (metis hd_append2)
  moreover have "?l \<noteq> []" using ne by (metis dropWhile.simps(1) rev.simps(1))
  ultimately have "\<not> is_space U (hd (py_strip U s))" using hd_dropWhile by metis
  then show ?thesis using strip_no_space lst False by blast
next
  case True
  then show ?thesis by (simp only: True) (simp add: py_strip_def py_lstrip_def)
qed

section \<open>Properties\<close>

text \<open>Also (schema_clean): Whatever the schema file holds, every statement sent is not blank, has no blanks at its ends and contains no semicolon, so one command never holds two statements.\<close>

theorem schema_clean:
  "list_all (\<lambda>stmt. stmt \<noteq> [] \<and> py_strip U stmt = stmt \<and> 59 \<notin> set stmt)
     (render_schema U text database hot months)"
proof -
  have "list_all (\<lambda>stmt. stmt \<noteq> [] \<and> py_strip U stmt = stmt \<and> 59 \<notin> set stmt) (schema_statements U chunks)"
    if "\<forall>p \<in> set chunks. 59 \<notin> set p" for chunks
    using that
  proof (induction U chunks rule: schema_statements.induct)
    case (2 U chunk chunks)
    let ?lines = "filter (\<lambda>l. \<not> py_startswith (py_strip U l) (lit ''--'')) (py_splitlines chunk)"
    have "59 \<notin> set (py_join [10] ?lines)"
      using set_py_join [of "[10]" ?lines] set_py_splitlines [of _ chunk] 2(3) by fastforce
    then have "59 \<notin> set (py_strip U (py_join [10] ?lines))" using set_py_strip by blast
    then show ?case using 2 by (auto simp: Let_def py_strip_idem)
  qed simp
  then show ?thesis unfolding render_schema_def using py_split_parts by blast
qed

end
