(* ===== verification/Redis_Store.thy ===== *)
theory Redis_Store
  imports Py_Str
begin

text \<open>
  The Redis server as the code meets it. The server is not part of the repository, so it is a
  parameter: a record of the commands the code issues, over an unknown server state. What the
  code relies on is stated as locales, one for each kind of key, in terms of a view of the
  state: the documented effect of the list, set and hash commands. An in-memory store that
  satisfies all of them closes the theory, so the locales are not empty.
\<close>

type_synonym rkey = string

record 'r redis =
  r_lrange :: "rkey \<Rightarrow> int \<Rightarrow> int \<Rightarrow> 'r \<Rightarrow> pybytes list"
  r_ltrim :: "rkey \<Rightarrow> int \<Rightarrow> int \<Rightarrow> 'r \<Rightarrow> 'r"
  r_rpush :: "rkey \<Rightarrow> pybytes list \<Rightarrow> 'r \<Rightarrow> 'r"
  r_lpush :: "rkey \<Rightarrow> pybytes list \<Rightarrow> 'r \<Rightarrow> 'r"
  r_del :: "rkey \<Rightarrow> 'r \<Rightarrow> 'r"
  r_llen :: "rkey \<Rightarrow> 'r \<Rightarrow> int"
  r_scan :: "string \<Rightarrow> 'r \<Rightarrow> rkey list"           \<comment> \<open>\<open>SCAN MATCH prefix*\<close>, run to its end\<close>
  r_smembers :: "rkey \<Rightarrow> 'r \<Rightarrow> pystr set"
  r_sadd :: "rkey \<Rightarrow> pystr list \<Rightarrow> 'r \<Rightarrow> 'r"
  r_hincrby :: "rkey \<Rightarrow> string \<Rightarrow> int \<Rightarrow> 'r \<Rightarrow> 'r"
  r_hgetall :: "rkey \<Rightarrow> 'r \<Rightarrow> (string \<times> int option) list"   \<comment> \<open>\<open>None\<close>: not an integer\<close>

section \<open>The documented commands\<close>

text \<open>
  \<open>LRANGE\<close> and \<open>LTRIM\<close> take inclusive indices, count negative ones from the end and clip
  both to the list.
\<close>

definition redis_slice :: "'a list \<Rightarrow> int \<Rightarrow> int \<Rightarrow> 'a list" where
  "redis_slice xs a b =
     (let n = int (length xs);
          a' = (if a < 0 then max 0 (n + a) else a);
          b' = (if b < 0 then n + b else b)
      in take (nat (b' - a' + 1)) (drop (nat a') xs))"

lemma redis_slice_prefix: "0 < n \<Longrightarrow> redis_slice xs 0 (int n - 1) = take n xs"
  by (simp add: redis_slice_def)

lemma redis_slice_all: "redis_slice xs 0 (-1) = xs"
  by (cases xs) (simp_all add: redis_slice_def)

lemma redis_slice_suffix: "redis_slice xs (int n) (-1) = drop n xs"
  by (simp add: redis_slice_def Let_def nat_diff_distrib)

text \<open>Lists, by the documented effect of the commands. A missing key is the empty list.\<close>

locale redis_lists =
  fixes R :: "'r redis" and V :: "'r \<Rightarrow> rkey \<Rightarrow> pybytes list"
  assumes lrange_law: "r_lrange R k a b s = redis_slice (V s k) a b"
    and ltrim_law: "V (r_ltrim R k a b s) = (V s)(k := redis_slice (V s k) a b)"
    and rpush_law: "xs \<noteq> [] \<Longrightarrow> V (r_rpush R k xs s) = (V s)(k := V s k @ xs)"
    and lpush_law: "xs \<noteq> [] \<Longrightarrow> V (r_lpush R k xs s) = (V s)(k := rev xs @ V s k)"
    and del_law: "V (r_del R k s) = (V s)(k := [])"
    and llen_law: "r_llen R k s = int (length (V s k))"
begin

lemmas list_laws = lrange_law ltrim_law rpush_law lpush_law del_law llen_law

end

text \<open>\<open>SCAN\<close> returns every key of the database with the prefix, possibly more than once.\<close>

locale redis_scan = redis_lists +
  assumes scan_law: "V s k \<noteq> [] \<Longrightarrow> take (length p) k = p \<Longrightarrow> k \<in> set (r_scan R p s)"
    and scan_prefix: "k \<in> set (r_scan R p s) \<Longrightarrow> take (length p) k = p"

text \<open>Sets. A missing key is the empty set.\<close>

locale redis_sets =
  fixes R :: "'r redis" and S :: "'r \<Rightarrow> rkey \<Rightarrow> pystr set"
  assumes smembers_law: "r_smembers R k s = S s k"
    and sadd_law: "xs \<noteq> [] \<Longrightarrow> S (r_sadd R k xs s) = (S s)(k := S s k \<union> set xs)"
    and sdel_law: "S (r_del R k s) = (S s)(k := {})"

text \<open>Hashes that only \<open>HINCRBY\<close> writes. A missing field counts as 0.\<close>

locale redis_hashes =
  fixes R :: "'r redis" and H :: "'r \<Rightarrow> rkey \<Rightarrow> string \<Rightarrow> int"
  assumes hincrby_law: "H (r_hincrby R k f n s) = (H s)(k := (H s k)(f := H s k f + n))"
    and hgetall_law: "distinct (map fst (r_hgetall R k s))"
      "map_of (r_hgetall R k s) f = (if f \<in> fst ` set (r_hgetall R k s) then Some (Some (H s k f)) else None)"
      "f \<notin> fst ` set (r_hgetall R k s) \<Longrightarrow> H s k f = 0"

text \<open>Keys of different kinds live side by side: \<open>SADD\<close> changes no list.\<close>

locale redis_kinds = redis_lists +
  assumes sadd_lists: "xs \<noteq> [] \<Longrightarrow> V (r_sadd R k xs s) = V s"

section \<open>An in-memory store\<close>

record ref_store =
  st_lists :: "(rkey \<times> pybytes list) list"
  st_sets :: "rkey \<Rightarrow> pystr set"
  st_hashes :: "rkey \<Rightarrow> (string \<times> int) list"

definition ref_list :: "ref_store \<Rightarrow> rkey \<Rightarrow> pybytes list" where
  "ref_list s k = dict_get (st_lists s) k []"

definition ref_hash :: "ref_store \<Rightarrow> rkey \<Rightarrow> string \<Rightarrow> int" where
  "ref_hash s k f = dict_get (st_hashes s k) f 0"

definition put_list :: "rkey \<Rightarrow> pybytes list \<Rightarrow> ref_store \<Rightarrow> ref_store" where
  "put_list k xs s = s\<lparr>st_lists := dict_set (st_lists s) k xs\<rparr>"

definition ref_redis :: "ref_store redis" where
  "ref_redis =
     \<lparr>r_lrange = (\<lambda>k a b s. redis_slice (ref_list s k) a b),
      r_ltrim = (\<lambda>k a b s. put_list k (redis_slice (ref_list s k) a b) s),
      r_rpush = (\<lambda>k xs s. put_list k (ref_list s k @ xs) s),
      r_lpush = (\<lambda>k xs s. put_list k (rev xs @ ref_list s k) s),
      r_del = (\<lambda>k s. put_list k [] (s\<lparr>st_sets := (st_sets s)(k := {}),
                                      st_hashes := (st_hashes s)(k := [])\<rparr>)),
      r_llen = (\<lambda>k s. int (length (ref_list s k))),
      r_scan = (\<lambda>p s. filter (\<lambda>k. take (length p) k = p) (map fst (st_lists s))),
      r_smembers = (\<lambda>k s. st_sets s k),
      r_sadd = (\<lambda>k xs s. s\<lparr>st_sets := (st_sets s)(k := st_sets s k \<union> set xs)\<rparr>),
      r_hincrby = (\<lambda>k f n s. s\<lparr>st_hashes := (st_hashes s)
                     (k := dict_set (st_hashes s k) f (dict_get (st_hashes s k) f 0 + n))\<rparr>),
      r_hgetall = (\<lambda>k s. map (\<lambda>(f, v). (f, Some v)) (AList.clearjunk (st_hashes s k)))\<rparr>"

definition empty_store :: ref_store where
  "empty_store = \<lparr>st_lists = [], st_sets = (\<lambda>_. {}), st_hashes = (\<lambda>_. [])\<rparr>"

lemma ref_list_put [simp]: "ref_list (put_list k xs s) k' = (if k' = k then xs else ref_list s k')"
  by (simp add: ref_list_def put_list_def dict_get_set)

lemma ref_list_sets [simp]:
  "ref_list (s\<lparr>st_sets := a\<rparr>) = ref_list s" "ref_list (s\<lparr>st_hashes := b\<rparr>) = ref_list s"
  by (simp_all add: ref_list_def fun_eq_iff)

lemma st_put_list [simp]:
  "st_sets (put_list k xs s) = st_sets s" "st_hashes (put_list k xs s) = st_hashes s"
  by (simp_all add: put_list_def)

lemma ref_list_in: "ref_list s k \<noteq> [] \<Longrightarrow> k \<in> fst ` set (st_lists s)"
  by (auto simp: ref_list_def dict_get_def image_iff dest!: map_of_SomeD split: option.splits)
     (metis fst_conv)

interpretation ref_scan: redis_scan ref_redis ref_list
  by unfold_locales (auto simp: ref_redis_def fun_eq_iff dest: ref_list_in)

interpretation ref_sets: redis_sets ref_redis "\<lambda>s. st_sets s"
  by unfold_locales (auto simp: ref_redis_def fun_eq_iff)

lemma map_of_Some_values:
  "map_of (map (\<lambda>(f, v). (f, Some v)) d) f = map_option Some (map_of d f)"
  by (induction d) auto

lemma fst_Some_values: "fst ` set (map (\<lambda>(f, v). (f, Some v)) d) = dom (map_of d)"
  by (force simp: dom_map_of_conv_image_fst image_iff)

interpretation ref_hashes: redis_hashes ref_redis ref_hash
proof unfold_locales
  fix k f and s :: ref_store
  let ?h = "r_hgetall ref_redis k s"
  have keys: "fst ` set ?h = dom (map_of (st_hashes s k))"
    by (simp only: ref_redis_def redis.simps fst_Some_values) (simp add: map_of_clearjunk)
  show "distinct (map fst ?h)"
    by (simp add: ref_redis_def comp_def case_prod_beta distinct_clearjunk)
  show "map_of ?h f = (if f \<in> fst ` set ?h then Some (Some (ref_hash s k f)) else None)"
    unfolding keys
    by (auto simp: ref_redis_def map_of_Some_values map_of_clearjunk ref_hash_def dict_get_def)
  show "f \<notin> fst ` set ?h \<Longrightarrow> ref_hash s k f = 0"
    unfolding keys by (auto simp: ref_hash_def dict_get_def domIff)
qed (auto simp: ref_redis_def ref_hash_def fun_eq_iff dict_get_set)

interpretation ref_kinds: redis_kinds ref_redis ref_list
  by unfold_locales (simp add: ref_redis_def ref_list_def fun_eq_iff)

end
