(* ===== verification/Queue_Contract.thy ===== *)
theory Queue_Contract
  imports Prelude
begin

text \<open>
  What the pipeline needs of the queue, without Redis: a waiting list, one held list for each
  worker, and four operations. The specification machine \<open>fifo\<close> executes them on plain lists;
  the locale \<open>claim_queue\<close> is the contract of an implementation, and its lemmas carry the
  machine's order and conservation properties over to whatever satisfies it.
\<close>

section \<open>The specification machine\<close>

datatype ('a, 'w) qop = Push "'a list" | Claim 'w nat | Ack 'w | GiveBack 'w

record ('a, 'w) fifo =
  fifo_todo :: "'a list"
  fifo_held :: "'w \<Rightarrow> 'a list"

fun fifo_step :: "('a, 'w) qop \<Rightarrow> ('a, 'w) fifo \<Rightarrow> ('a, 'w) fifo" where
  "fifo_step (Push xs) f = f\<lparr>fifo_todo := fifo_todo f @ xs\<rparr>"
| "fifo_step (Claim w n) f =
     f\<lparr>fifo_todo := drop n (fifo_todo f), fifo_held := (fifo_held f)(w := fifo_held f w @ take n (fifo_todo f))\<rparr>"
| "fifo_step (Ack w) f = f\<lparr>fifo_held := (fifo_held f)(w := [])\<rparr>"
| "fifo_step (GiveBack w) f =
     f\<lparr>fifo_todo := fifo_held f w @ fifo_todo f, fifo_held := (fifo_held f)(w := [])\<rparr>"

definition fifo_run :: "('a, 'w) qop list \<Rightarrow> ('a, 'w) fifo \<Rightarrow> ('a, 'w) fifo" where
  "fifo_run ops f = fold fifo_step ops f"

text \<open>What a run acknowledges, in order, and what it pushes.\<close>

fun acked :: "('a, 'w) qop list \<Rightarrow> ('a, 'w) fifo \<Rightarrow> 'a list" where
  "acked [] f = []"
| "acked (op # ops) f =
     (case op of Ack w \<Rightarrow> fifo_held f w | _ \<Rightarrow> []) @ acked ops (fifo_step op f)"

fun pushed :: "('a, 'w) qop list \<Rightarrow> 'a list" where
  "pushed [] = []"
| "pushed (op # ops) = (case op of Push xs \<Rightarrow> xs | _ \<Rightarrow> []) @ pushed ops"

fun op_worker :: "('a, 'w) qop \<Rightarrow> 'w option" where
  "op_worker (Push xs) = None"
| "op_worker (Claim w n) = Some w"
| "op_worker (Ack w) = Some w"
| "op_worker (GiveBack w) = Some w"

definition op_workers :: "('a, 'w) qop list \<Rightarrow> 'w set" where
  "op_workers ops = {w. \<exists>op \<in> set ops. op_worker op = Some w}"

text \<open>A claim asks for at least one record: \<open>LRANGE 0 -1\<close> would ask for all.\<close>

fun op_ok :: "('a, 'w) qop \<Rightarrow> bool" where
  "op_ok (Claim w n) = (0 < n)"
| "op_ok op = True"

lemma fifo_run_simps [simp]:
  "fifo_run [] f = f"
  "fifo_run (op # ops) f = fifo_run ops (fifo_step op f)"
  by (simp_all add: fifo_run_def)

lemma op_workers_simps [simp]:
  "op_workers [] = {}"
  "op_workers (op # ops) = set_option (op_worker op) \<union> op_workers ops"
  by (auto simp: op_workers_def)

text \<open>With a single worker nothing is ever overtaken.\<close>

lemma fifo_order:
  assumes "op_workers ops \<subseteq> {w}"
  shows "acked ops f @ fifo_held (fifo_run ops f) w @ fifo_todo (fifo_run ops f)
    = fifo_held f w @ fifo_todo f @ pushed ops"
  using assms
proof (induction ops arbitrary: f)
  case (Cons op ops)
  then have "op_workers ops \<subseteq> {w}" and "set_option (op_worker op) \<subseteq> {w}" by auto
  then show ?case using Cons.IH [of "fifo_step op f"] by (cases op) auto
qed simp

text \<open>With any number of workers nothing is lost or doubled.\<close>

definition fifo_content :: "'w set \<Rightarrow> ('a, 'w) fifo \<Rightarrow> 'a multiset" where
  "fifo_content W f = mset (fifo_todo f) + (\<Sum>w\<in>W. mset (fifo_held f w))"

lemma sum_mset_upd:
  assumes "finite W" "w \<in> W"
  shows "(\<Sum>v\<in>W. mset ((h(w := xs)) v)) + mset (h w) = (\<Sum>v\<in>W. mset (h v)) + mset xs"
proof -
  have "(\<Sum>v\<in>W. mset ((h(w := xs)) v)) = mset xs + (\<Sum>v\<in>W - {w}. mset (h v))"
    using assms by (subst sum.remove [of W w]) (auto intro: sum.cong)
  moreover have "(\<Sum>v\<in>W. mset (h v)) = mset (h w) + (\<Sum>v\<in>W - {w}. mset (h v))"
    using assms by (rule sum.remove)
  ultimately show ?thesis by (simp add: ac_simps)
qed

lemma fifo_step_content:
  assumes "finite W" "\<And>w. op_worker op = Some w \<Longrightarrow> w \<in> W"
  shows "mset (case op of Ack w \<Rightarrow> fifo_held f w | _ \<Rightarrow> []) + fifo_content W (fifo_step op f)
    = fifo_content W f + mset (case op of Push xs \<Rightarrow> xs | _ \<Rightarrow> [])"
proof (cases op)
  case (Claim w n)
  have "mset (take n (fifo_todo f)) + mset (drop n (fifo_todo f)) = mset (fifo_todo f)"
    by (metis append_take_drop_id mset_append)
  then show ?thesis
    using sum_mset_upd [OF assms(1), of w "fifo_held f" "fifo_held f w @ take n (fifo_todo f)"] assms(2) Claim
    by (simp add: fifo_content_def ac_simps)
next
  case (Ack w)
  then show ?thesis
    using sum_mset_upd [OF assms(1), of w "fifo_held f" "[]"] assms(2)
    by (simp add: fifo_content_def ac_simps)
next
  case (GiveBack w)
  then show ?thesis
    using sum_mset_upd [OF assms(1), of w "fifo_held f" "[]"] assms(2)
    by (simp add: fifo_content_def ac_simps)
qed (simp add: fifo_content_def)

lemma fifo_conserves:
  assumes "finite W" "op_workers ops \<subseteq> W"
  shows "mset (acked ops f) + fifo_content W (fifo_run ops f)
    = fifo_content W f + mset (pushed ops)"
  using assms(2)
proof (induction ops arbitrary: f)
  case (Cons op ops)
  let ?a = "mset (case op of Ack w \<Rightarrow> fifo_held f w | _ \<Rightarrow> [])"
  let ?p = "mset (case op of Push xs \<Rightarrow> xs | _ \<Rightarrow> [])"
  let ?g = "fifo_step op f"
  have IH: "mset (acked ops ?g) + fifo_content W (fifo_run ops ?g)
      = fifo_content W ?g + mset (pushed ops)"
    using Cons by simp
  have step: "?a + fifo_content W ?g = fifo_content W f + ?p"
    using Cons.prems by (intro fifo_step_content assms(1)) auto
  have "?a + (mset (acked ops ?g) + fifo_content W (fifo_run ops ?g))
      = ?a + fifo_content W ?g + mset (pushed ops)"
    by (simp only: IH add.assoc)
  also have "\<dots> = fifo_content W f + ?p + mset (pushed ops)"
    by (simp only: step)
  finally show ?case by (simp add: add.assoc)
qed simp

section \<open>The contract\<close>

fun apply_op ::
    "('a list \<Rightarrow> 's \<Rightarrow> 's) \<Rightarrow> ('w \<Rightarrow> nat \<Rightarrow> 's \<Rightarrow> 's) \<Rightarrow> ('w \<Rightarrow> 's \<Rightarrow> 's) \<Rightarrow> ('w \<Rightarrow> 's \<Rightarrow> 's)
      \<Rightarrow> ('a, 'w) qop \<Rightarrow> 's \<Rightarrow> 's" where
  "apply_op push claim ack back (Push xs) s = push xs s"
| "apply_op push claim ack back (Claim w n) s = claim w n s"
| "apply_op push claim ack back (Ack w) s = ack w s"
| "apply_op push claim ack back (GiveBack w) s = back w s"

locale claim_queue =
  fixes waiting :: "'s \<Rightarrow> 'a list"
    and held :: "'s \<Rightarrow> 'w \<Rightarrow> 'a list"
    and q_push :: "'a list \<Rightarrow> 's \<Rightarrow> 's"
    and q_claim :: "'w \<Rightarrow> nat \<Rightarrow> 's \<Rightarrow> 's"
    and q_ack :: "'w \<Rightarrow> 's \<Rightarrow> 's"
    and q_back :: "'w \<Rightarrow> 's \<Rightarrow> 's"
  assumes push_law: "waiting (q_push xs s) = waiting s @ xs" "held (q_push xs s) = held s"
    and claim_law: "0 < n \<Longrightarrow> waiting (q_claim w n s) = drop n (waiting s)"
      "0 < n \<Longrightarrow> held (q_claim w n s) = (held s)(w := held s w @ take n (waiting s))"
    and ack_law: "waiting (q_ack w s) = waiting s" "held (q_ack w s) = (held s)(w := [])"
    and back_law: "waiting (q_back w s) = held s w @ waiting s"
      "held (q_back w s) = (held s)(w := [])"
begin

lemmas queue_laws = push_law claim_law ack_law back_law

text \<open>The machine's state an implementation state stands for.\<close>

lemma step_simulates:
  assumes "op_ok op"
  shows "\<lparr>fifo_todo = waiting (apply_op q_push q_claim q_ack q_back op s),
          fifo_held = held (apply_op q_push q_claim q_ack q_back op s)\<rparr>
       = fifo_step op \<lparr>fifo_todo = waiting s, fifo_held = held s\<rparr>"
  using assms by (cases op) (auto simp: queue_laws)

lemma run_simulates:
  assumes "\<forall>op \<in> set ops. op_ok op"
  shows "\<lparr>fifo_todo = waiting (fold (apply_op q_push q_claim q_ack q_back) ops s),
          fifo_held = held (fold (apply_op q_push q_claim q_ack q_back) ops s)\<rparr>
       = fifo_run ops \<lparr>fifo_todo = waiting s, fifo_held = held s\<rparr>"
  using assms by (induction ops arbitrary: s) (simp_all add: step_simulates)

lemma run_order:
  assumes "\<forall>op \<in> set ops. op_ok op" "op_workers ops \<subseteq> {w}"
  shows "acked ops \<lparr>fifo_todo = waiting s, fifo_held = held s\<rparr>
      @ held (fold (apply_op q_push q_claim q_ack q_back) ops s) w
      @ waiting (fold (apply_op q_push q_claim q_ack q_back) ops s)
    = held s w @ waiting s @ pushed ops"
  using fifo_order [OF assms(2), of "\<lparr>fifo_todo = waiting s, fifo_held = held s\<rparr>"]
  by (simp flip: run_simulates [OF assms(1)])

lemma run_conserves:
  assumes "\<forall>op \<in> set ops. op_ok op" "finite W" "op_workers ops \<subseteq> W"
  shows "mset (acked ops \<lparr>fifo_todo = waiting s, fifo_held = held s\<rparr>)
      + mset (waiting (fold (apply_op q_push q_claim q_ack q_back) ops s))
      + (\<Sum>w\<in>W. mset (held (fold (apply_op q_push q_claim q_ack q_back) ops s) w))
    = mset (waiting s) + (\<Sum>w\<in>W. mset (held s w)) + mset (pushed ops)"
  using fifo_conserves [OF assms(2,3), of "\<lparr>fifo_todo = waiting s, fifo_held = held s\<rparr>"]
  by (simp add: fifo_content_def ac_simps flip: run_simulates [OF assms(1)])

text \<open>A claim that is given back leaves the queue as it was.\<close>

lemma claim_back_id:
  assumes "0 < n" "held s w = []"
  shows "waiting (q_back w (q_claim w n s)) = waiting s" "held (q_back w (q_claim w n s)) = held s"
  using assms by (auto simp: queue_laws fun_eq_iff)

end

end
