(* ===== verification/Redis_Queue.thy ===== *)
theory Redis_Queue
  imports Redis_Store Parser_Base Queue_Contract "HOL-Library.Countable"
begin

text \<open>
  \<open>backend/app/queue/redis_queue.py\<close>: the two Lua scripts with their chunked pushes, the
  producer and consumer calls of \<open>LogQueue\<close>, the recovery of orphaned claims and the wire
  format. The Redis server is the parameter \<open>R\<close> of \<open>Redis_Store\<close>, the number of values Lua's
  \<open>unpack\<close> can return is the parameter \<open>lim\<close> (the source gives about 7900), and every call takes
  its network outcome. The contract of the queue is the locale \<open>claim_queue\<close>; the code's
  operations are an instance of it over any server that keeps the list laws.
\<close>

section \<open>The scripts\<close>

text \<open>Lua's \<open>unpack(items, i, j)\<close>: 1-based and inclusive, an error beyond the stack limit.\<close>

definition lua_unpack :: "nat \<Rightarrow> 'a list \<Rightarrow> nat \<Rightarrow> nat \<Rightarrow> 'a list result" where
  "lua_unpack lim items i j =
     (if lim < j + 1 - i then Inl LuaError else Inr (take (j + 1 - i) (drop (i - 1) items)))"

text \<open>The \<open>while\<close> loop of the claim script.\<close>

function claim_push :: "'r redis \<Rightarrow> nat \<Rightarrow> rkey \<Rightarrow> pybytes list \<Rightarrow> nat \<Rightarrow> ('r, unit) eff" where
  "claim_push R lim dst items i s =
     (if i \<le> length items then
        (let stop = min (i + 999) (length items) in
         case lua_unpack lim items i stop of
           Inl e \<Rightarrow> (Inl e, s)
         | Inr chunk \<Rightarrow> claim_push R lim dst items (stop + 1) (r_rpush R dst chunk s))
      else (Inr (), s))"
  by pat_completeness auto
termination
  by (relation "measure (\<lambda>(R, lim, dst, items, i, s). length items + 1 - i)") auto

declare claim_push.simps [simp del]

definition claim_script ::
    "'r redis \<Rightarrow> nat \<Rightarrow> rkey \<Rightarrow> rkey \<Rightarrow> int \<Rightarrow> ('r, pybytes list) eff" where
  "claim_script R lim src dst n s =
     (let items = r_lrange R src 0 (n - 1) s;
          count = length items
      in if count = 0 then (Inr items, s)
         else
           (case claim_push R lim dst items 1 (r_ltrim R src (int count) (-1) s) of
              (Inl e, s') \<Rightarrow> (Inl e, s')
            | (Inr _, s') \<Rightarrow> (Inr items, s')))"

text \<open>The \<open>while\<close> loop of the requeue script: chunks from the end, each one reversed.\<close>

function requeue_push :: "'r redis \<Rightarrow> nat \<Rightarrow> rkey \<Rightarrow> pybytes list \<Rightarrow> nat \<Rightarrow> ('r, unit) eff" where
  "requeue_push R lim dst items i s =
     (if 1 \<le> i then
        (let start = max (i - 999) 1;
             chunk = map (\<lambda>j. items ! (j - 1)) (rev [start..<i + 1])
         in case lua_unpack lim chunk 1 (length chunk) of
              Inl e \<Rightarrow> (Inl e, s)
            | Inr args \<Rightarrow> requeue_push R lim dst items (start - 1) (r_lpush R dst args s))
      else (Inr (), s))"
  by pat_completeness auto
termination
  by (relation "measure (\<lambda>(R, lim, dst, items, i, s). i)") auto

declare requeue_push.simps [simp del]

definition requeue_script :: "'r redis \<Rightarrow> nat \<Rightarrow> rkey \<Rightarrow> rkey \<Rightarrow> ('r, nat) eff" where
  "requeue_script R lim src dst s =
     (let items = r_lrange R src 0 (-1) s;
          count = length items
      in if count = 0 then (Inr 0, r_del R src s)
         else
           (case requeue_push R lim dst items count s of
              (Inl e, s') \<Rightarrow> (Inl e, s')
            | (Inr _, s') \<Rightarrow> (Inr count, r_del R src s')))"

section \<open>The queue object\<close>

record LogQueue =
  queue_key :: rkey
  max_len :: int

definition push_many ::
    "'r redis \<Rightarrow> LogQueue \<Rightarrow> net \<Rightarrow> pybytes list \<Rightarrow> ('r, nat) eff" where
  "push_many R q net payloads s =
     (if payloads = [] then (Inr 0, s)
      else
        (case remote RedisError net (\<lambda>s. (Inr (), r_rpush R (queue_key q) payloads s)) s of
           (Inl e, s') \<Rightarrow> (Inl e, s')
         | (Inr _, s') \<Rightarrow> (Inr (length payloads), s')))"

text \<open>\<open>LogQueue.length\<close>: any failure reads as \<open>-1\<close>.\<close>

definition queue_length :: "'r redis \<Rightarrow> LogQueue \<Rightarrow> net \<Rightarrow> 'r \<Rightarrow> int" where
  "queue_length R q net s =
     ok_or (-1) (fst (remote RedisError net (\<lambda>s. (Inr (r_llen R (queue_key q) s), s)) s))"

definition over_limit :: "'r redis \<Rightarrow> LogQueue \<Rightarrow> net \<Rightarrow> 'r \<Rightarrow> bool" where
  "over_limit R q net s \<longleftrightarrow> queue_length R q net s > max_len q"

definition claim ::
    "'r redis \<Rightarrow> nat \<Rightarrow> LogQueue \<Rightarrow> net \<Rightarrow> rkey \<Rightarrow> int \<Rightarrow> ('r, pybytes list) eff" where
  "claim R lim q net inflight n =
     remote RedisError net (claim_script R lim (queue_key q) inflight n)"

definition ack :: "'r redis \<Rightarrow> net \<Rightarrow> rkey \<Rightarrow> ('r, unit) eff" where
  "ack R net inflight = remote RedisError net (\<lambda>s. (Inr (), r_del R inflight s))"

definition release :: "'r redis \<Rightarrow> nat \<Rightarrow> LogQueue \<Rightarrow> net \<Rightarrow> rkey \<Rightarrow> ('r, nat) eff" where
  "release R lim q net inflight =
     remote RedisError net (requeue_script R lim inflight (queue_key q))"

text \<open>
  \<open>recover_orphans\<close>: the keys are those the scan returns, \<open>net i\<close> is the outcome of the
  \<open>i\<close>th release, and the first exception ends the loop.
\<close>

fun recover_loop ::
    "'r redis \<Rightarrow> nat \<Rightarrow> LogQueue \<Rightarrow> (nat \<Rightarrow> net) \<Rightarrow> nat \<Rightarrow> rkey list \<Rightarrow> nat \<Rightarrow> ('r, nat) eff" where
  "recover_loop R lim q net i [] recovered s = (Inr recovered, s)"
| "recover_loop R lim q net i (name # keys) recovered s =
     (case release R lim q (net i) name s of
        (Inl e, s') \<Rightarrow> (Inl e, s')
      | (Inr n, s') \<Rightarrow> recover_loop R lim q net (i + 1) keys (recovered + n) s')"

definition recover_orphans ::
    "'r redis \<Rightarrow> nat \<Rightarrow> LogQueue \<Rightarrow> (nat \<Rightarrow> net) \<Rightarrow> string \<Rightarrow> ('r, nat) eff" where
  "recover_orphans R lim q net prefix s =
     recover_loop R lim q net 0 (r_scan R prefix s) 0 s"

text \<open>\<open>wait_for_redis\<close>: \<open>pings i\<close> tells whether the \<open>i\<close>th ping is answered.\<close>

fun wait_from :: "(nat \<Rightarrow> bool) \<Rightarrow> nat \<Rightarrow> nat \<Rightarrow> bool" where
  "wait_from pings i 0 = False"
| "wait_from pings i (Suc n) = (if pings i then True else wait_from pings (i + 1) n)"

definition wait_for_redis :: "(nat \<Rightarrow> bool) \<Rightarrow> nat \<Rightarrow> bool" where
  "wait_for_redis pings attempts = wait_from pings 0 attempts"

section \<open>The wire format\<close>

text \<open>msgpack with the options of these calls is a parameter: \<open>pack\<close> and \<open>unpack\<close>, which may raise.\<close>

definition encode :: "(mval \<Rightarrow> pybytes) \<Rightarrow> mval list \<Rightarrow> pybytes" where
  "encode pack row = pack (MList row)"

definition decode :: "(pybytes \<Rightarrow> mval result) \<Rightarrow> pybytes \<Rightarrow> mval list option" where
  "decode unpack payload =
     (case unpack payload of
        Inl _ \<Rightarrow> None
      | Inr v \<Rightarrow> (case v of MList row \<Rightarrow> (if length row = 11 then Some row else None) | _ \<Rightarrow> None))"

text \<open>
  What msgpack documents to pack and unpack unchanged: integers in the 64-bit range, text
  without surrogates, and lists of such values.
\<close>

definition plain_text :: "pystr \<Rightarrow> bool" where
  "plain_text t \<longleftrightarrow> (\<forall>c \<in> set t. c < 55296 \<or> 57343 < c \<and> c < 1114112)"

fun packable :: "mval \<Rightarrow> bool" where
  "packable MNil = True"
| "packable (MBool b) = True"
| "packable (MInt i) = (- (2 ^ 63) \<le> i \<and> i < 2 ^ 64)"
| "packable (MFloat x) = False"
| "packable (MStr t) = plain_text t"
| "packable (MList vs) = list_all packable vs"
| "packable MOther = False"

text \<open>A codec with the documented law, so that it can hold: every value has a number.\<close>

instance mval :: countable
  by countable_datatype

definition unary_pack :: "mval \<Rightarrow> pybytes" where
  "unary_pack v = replicate (to_nat v) CHR ''x''"

definition unary_unpack :: "pybytes \<Rightarrow> mval result" where
  "unary_unpack b = Inr (from_nat (length b))"

lemma unary_codec: "unary_unpack (unary_pack v) = Inr v"
  by (simp add: unary_unpack_def unary_pack_def)

text \<open>The in-flight keys, as \<open>worker.py\<close> names them.\<close>

definition INFLIGHT_PREFIX :: string where
  "INFLIGHT_PREFIX = ''nls:inflight:''"

definition inflight_key :: "string \<Rightarrow> rkey" where
  "inflight_key worker_id = INFLIGHT_PREFIX @ worker_id"

lemma inflight_key_inj [simp]: "inflight_key a = inflight_key b \<longleftrightarrow> a = b"
  by (simp add: inflight_key_def)

lemma inj_inflight_key: "inj inflight_key"
  by (simp add: inj_on_def)

section \<open>The effect of the loops\<close>

context redis_lists
begin

lemma claim_push_view:
  assumes lim: "1000 \<le> lim" and i: "1 \<le> i"
  shows "fst (claim_push R lim dst items i s) = Inr ()
    \<and> V (snd (claim_push R lim dst items i s)) = (V s)(dst := V s dst @ drop (i - 1) items)"
  using i
proof (induction "length items + 1 - i" arbitrary: i s rule: less_induct)
  case less
  show ?case
  proof (cases "i \<le> length items")
    case False
    then show ?thesis by (subst (1 2) claim_push.simps) simp
  next
    case True
    let ?stop = "min (i + 999) (length items)"
    let ?chunk = "take (?stop + 1 - i) (drop (i - 1) items)"
    have chunk: "lua_unpack lim items i ?stop = Inr ?chunk"
      using lim by (auto simp: lua_unpack_def)
    have ne: "?chunk \<noteq> []" using True less.prems by (simp, arith)
    have step: "claim_push R lim dst items i s
        = claim_push R lim dst items (?stop + 1) (r_rpush R dst ?chunk s)"
      using True chunk by (subst claim_push.simps) (simp add: Let_def)
    have IH: "fst (claim_push R lim dst items (?stop + 1) t) = Inr ()
      \<and> V (snd (claim_push R lim dst items (?stop + 1) t))
          = (V t)(dst := V t dst @ drop (?stop + 1 - 1) items)" for t
      using True by (intro less.hyps) auto
    have split: "?chunk @ drop ?stop items = drop (i - 1) items"
    proof -
      have "drop ?stop items = drop (?stop + 1 - i) (drop (i - 1) items)"
        using True less.prems by (simp add: add.commute)
      then show ?thesis by (metis append_take_drop_id)
    qed
    show ?thesis
      using IH [of "r_rpush R dst ?chunk s"] split ne by (simp add: step rpush_law)
  qed
qed

lemma requeue_push_view:
  assumes lim: "1000 \<le> lim" and i: "i \<le> length items"
  shows "fst (requeue_push R lim dst items i s) = Inr ()
    \<and> V (snd (requeue_push R lim dst items i s)) = (V s)(dst := take i items @ V s dst)"
  using i
proof (induction i arbitrary: s rule: less_induct)
  case (less i)
  show ?case
  proof (cases "1 \<le> i")
    case False
    then have "i = 0" by simp
    then show ?thesis by (subst (1 2) requeue_push.simps) (simp add: fun_upd_idem)
  next
    case True
    let ?start = "max (i - 999) 1"
    let ?chunk = "map (\<lambda>j. items ! (j - 1)) (rev [?start..<i + 1])"
    have len: "length ?chunk \<le> 1000" by (simp, arith)
    have args: "lua_unpack lim ?chunk 1 (length ?chunk) = Inr ?chunk"
      using len lim by (simp add: lua_unpack_def)
    have ne: "?chunk \<noteq> []" using True by (auto simp: max_def)
    have step: "requeue_push R lim dst items i s
        = requeue_push R lim dst items (?start - 1) (r_lpush R dst ?chunk s)"
      using True args by (subst requeue_push.simps) (simp add: Let_def)
    have IH: "fst (requeue_push R lim dst items (?start - 1) t) = Inr ()
      \<and> V (snd (requeue_push R lim dst items (?start - 1) t))
          = (V t)(dst := take (?start - 1) items @ V t dst)" for t
      using True less.prems by (intro less.IH) auto
    have j: "?start - 1 = i - 1000" "?start = Suc (i - 1000)" using True by auto
    have "rev ?chunk = map (\<lambda>j. items ! j) [i - 1000..<i]"
      using True unfolding j
      by (simp only: rev_map rev_rev_ident map_Suc_upt [symmetric] map_map Suc_eq_plus1 [symmetric])
         (simp add: comp_def)
    also have "\<dots> = drop (i - 1000) (take i items)"
      using less.prems by (intro nth_equalityI) auto
    finally have rc: "rev ?chunk = drop (i - 1000) (take i items)" .
    have tk: "take (i - 1000) items = take (i - 1000) (take i items)" by (simp add: min_def)
    have rev_chunk: "take (?start - 1) items @ rev ?chunk = take i items"
      by (subst rc) (simp only: j(1) tk append_take_drop_id)
    have "take (?start - 1) items @ (rev ?chunk @ V s dst) = take i items @ V s dst"
      by (simp only: append_assoc [symmetric] rev_chunk)
    then show ?thesis
      by (simp only: step lpush_law [OF ne] IH fun_upd_same fun_upd_upd simp_thms)
  qed
qed

text \<open>Both scripts as a whole.\<close>

lemma claim_script_view:
  assumes "1000 \<le> lim" and "0 < n" and "src \<noteq> dst"
  shows "fst (claim_script R lim src dst (int n) s) = Inr (take n (V s src))
    \<and> V (snd (claim_script R lim src dst (int n) s))
        = (V s)(src := drop n (V s src), dst := V s dst @ take n (V s src))"
proof (cases "V s src = []")
  case True
  then show ?thesis
    by (auto simp: claim_script_def lrange_law redis_slice_prefix [OF assms(2)] fun_eq_iff)
next
  case False
  let ?items = "take n (V s src)"
  let ?t = "r_ltrim R src (int (length ?items)) (-1) s"
  have t: "V ?t = (V s)(src := drop n (V s src))"
    unfolding ltrim_law redis_slice_suffix by (cases "n \<le> length (V s src)") simp_all
  obtain u where u: "claim_push R lim dst ?items 1 ?t = (Inr (), u)"
    and Vu: "V u = (V ?t)(dst := V ?t dst @ ?items)"
    using claim_push_view [OF assms(1), of 1 dst ?items ?t] by (metis prod.collapse diff_self_eq_0 drop0 le_refl)
  have "claim_script R lim src dst (int n) s = (Inr ?items, u)"
    using False assms(2) u
    by (simp add: claim_script_def lrange_law redis_slice_prefix Let_def del: length_take)
  then show ?thesis using Vu t assms(3) by simp
qed

lemma requeue_script_view:
  assumes "1000 \<le> lim" and "src \<noteq> dst"
  shows "fst (requeue_script R lim src dst s) = Inr (length (V s src))
    \<and> V (snd (requeue_script R lim src dst s)) = (V s)(src := [], dst := V s src @ V s dst)"
proof (cases "V s src = []")
  case True
  then show ?thesis
    by (auto simp: requeue_script_def lrange_law redis_slice_all del_law fun_eq_iff)
next
  case False
  obtain u where u: "requeue_push R lim dst (V s src) (length (V s src)) s = (Inr (), u)"
    and Vu: "V u = (V s)(dst := V s src @ V s dst)"
    using requeue_push_view [OF assms(1), of "length (V s src)" "V s src" dst s]
    by (metis prod.collapse le_refl take_all)
  have "requeue_script R lim src dst s = (Inr (length (V s src)), r_del R src u)"
    using False u by (simp add: requeue_script_def lrange_law redis_slice_all Let_def)
  then show ?thesis using Vu assms(2) by (auto simp: del_law)
qed

end

section \<open>The queue against its contract\<close>

text \<open>The answered operations, as the contract lists them.\<close>

definition redis_push :: "'r redis \<Rightarrow> LogQueue \<Rightarrow> pybytes list \<Rightarrow> 'r \<Rightarrow> 'r" where
  "redis_push R q xs s = snd (push_many R q Reply xs s)"

definition redis_claim :: "'r redis \<Rightarrow> nat \<Rightarrow> LogQueue \<Rightarrow> string \<Rightarrow> nat \<Rightarrow> 'r \<Rightarrow> 'r" where
  "redis_claim R lim q w n s = snd (claim R lim q Reply (inflight_key w) (int n) s)"

definition redis_ack :: "'r redis \<Rightarrow> string \<Rightarrow> 'r \<Rightarrow> 'r" where
  "redis_ack R w s = snd (ack R Reply (inflight_key w) s)"

definition redis_back :: "'r redis \<Rightarrow> nat \<Rightarrow> LogQueue \<Rightarrow> string \<Rightarrow> 'r \<Rightarrow> 'r" where
  "redis_back R lim q w s = snd (release R lim q Reply (inflight_key w) s)"

definition redis_op ::
    "'r redis \<Rightarrow> nat \<Rightarrow> LogQueue \<Rightarrow> (pybytes, string) qop \<Rightarrow> 'r \<Rightarrow> 'r" where
  "redis_op R lim q =
     apply_op (redis_push R q) (redis_claim R lim q) (redis_ack R) (redis_back R lim q)"

text \<open>The configured queue key is not an in-flight key.\<close>

definition plain_queue :: "LogQueue \<Rightarrow> bool" where
  "plain_queue q \<longleftrightarrow> take (length INFLIGHT_PREFIX) (queue_key q) \<noteq> INFLIGHT_PREFIX"

lemma plain_queue_neq:
  assumes "plain_queue q" shows "inflight_key w \<noteq> queue_key q" "queue_key q \<noteq> inflight_key w"
  using assms unfolding plain_queue_def inflight_key_def by (metis append_eq_conv_conj)+

locale redis_log_queue = redis_lists +
  fixes lim :: nat and q :: LogQueue
  assumes unpack_limit: "1000 \<le> lim" and queue_plain: "plain_queue q"
begin

lemma claim_reply:
  assumes "0 < n"
  shows "fst (claim R lim q Reply (inflight_key w) (int n) s) = Inr (take n (V s (queue_key q)))"
    "V (snd (claim R lim q Reply (inflight_key w) (int n) s))
      = (V s)(queue_key q := drop n (V s (queue_key q)),
              inflight_key w := V s (inflight_key w) @ take n (V s (queue_key q)))"
  using claim_script_view [OF unpack_limit assms, of "queue_key q" "inflight_key w" s]
    plain_queue_neq [OF queue_plain] by (auto simp: claim_def)

lemma release_reply:
  assumes "k \<noteq> queue_key q"
  shows "fst (release R lim q Reply k s) = Inr (length (V s k))"
    "V (snd (release R lim q Reply k s)) = (V s)(k := [], queue_key q := V s k @ V s (queue_key q))"
  using requeue_script_view [OF unpack_limit assms, of s] by (auto simp: release_def)

lemma push_reply:
  "V (snd (push_many R q Reply xs s)) = (V s)(queue_key q := V s (queue_key q) @ xs)"
  by (cases "xs = []") (simp_all add: push_many_def rpush_law)

lemma release_any:
  assumes "k \<noteq> queue_key q"
  shows "mset (V (snd (release R lim q net k s)) (queue_key q)) + mset (V (snd (release R lim q net k s)) k)
      = mset (V s (queue_key q)) + mset (V s k)"
    "j \<noteq> k \<Longrightarrow> j \<noteq> queue_key q \<Longrightarrow> V (snd (release R lim q net k s)) j = V s j"
proof -
  have "snd (release R lim q net k s) = (if net = Refused then s else snd (release R lim q Reply k s))"
    by (simp add: release_def remote_state)
  then show "mset (V (snd (release R lim q net k s)) (queue_key q)) + mset (V (snd (release R lim q net k s)) k)
      = mset (V s (queue_key q)) + mset (V s k)"
    "j \<noteq> k \<Longrightarrow> j \<noteq> queue_key q \<Longrightarrow> V (snd (release R lim q net k s)) j = V s j"
    using release_reply(2) [OF assms, of s] assms by (simp_all add: ac_simps)
qed

text \<open>Recovery moves records between the lists it touches, whatever the network does.\<close>

lemma recover_loop_conserves:
  assumes "finite K" "set keys \<subseteq> K" "queue_key q \<notin> K"
  shows "mset (V (snd (recover_loop R lim q net i keys n s)) (queue_key q))
      + (\<Sum>k\<in>K. mset (V (snd (recover_loop R lim q net i keys n s)) k))
    = mset (V s (queue_key q)) + (\<Sum>k\<in>K. mset (V s k))"
  using assms(2)
proof (induction keys arbitrary: i n s)
  case (Cons k keys)
  obtain r t where rt: "release R lim q (net i) k s = (r, t)" by force
  have k: "k \<noteq> queue_key q" "k \<in> K" using Cons.prems assms(3) by auto
  have t: "mset (V t (queue_key q)) + mset (V t k) = mset (V s (queue_key q)) + mset (V s k)"
    "j \<noteq> k \<Longrightarrow> j \<noteq> queue_key q \<Longrightarrow> V t j = V s j" for j
    using release_any [OF k(1), where net = "net i" and s = s] rt by auto
  have "(\<Sum>j\<in>K - {k}. mset (V t j)) = (\<Sum>j\<in>K - {k}. mset (V s j))"
    using t(2) assms(3) by (intro sum.cong) (auto, metis)
  then have step: "mset (V t (queue_key q)) + (\<Sum>k\<in>K. mset (V t k))
      = mset (V s (queue_key q)) + (\<Sum>k\<in>K. mset (V s k))"
    using t(1) by (simp add: sum.remove [OF assms(1) k(2)] flip: add.assoc)
  show ?case
    using step Cons.IH [of "i + 1" _ t] Cons.prems rt by (cases r) simp_all
qed simp

lemma recover_loop_reply:
  assumes "queue_key q \<notin> set keys"
  shows "\<exists>t. recover_loop R lim q (\<lambda>_. Reply) i keys n s
      = (Inr (n + (\<Sum>k\<in>set keys. length (V s k))), t)
    \<and> (\<forall>k \<in> set keys. V t k = [])
    \<and> (\<forall>k. k \<notin> set keys \<longrightarrow> k \<noteq> queue_key q \<longrightarrow> V t k = V s k)"
  using assms
proof (induction keys arbitrary: i n s)
  case (Cons k keys)
  have k: "k \<noteq> queue_key q" using Cons.prems by auto
  obtain u where u: "release R lim q Reply k s = (Inr (length (V s k)), u)"
    and Vu: "V u = (V s)(k := [], queue_key q := V s k @ V s (queue_key q))"
    using release_reply [OF k, of s] by (metis prod.collapse)
  obtain t where t: "recover_loop R lim q (\<lambda>_. Reply) (i + 1) keys (n + length (V s k)) u
      = (Inr (n + length (V s k) + (\<Sum>j\<in>set keys. length (V u j))), t)"
    "\<forall>j \<in> set keys. V t j = []"
    "\<forall>j. j \<notin> set keys \<longrightarrow> j \<noteq> queue_key q \<longrightarrow> V t j = V u j"
    using Cons.IH [of "i + 1" "n + length (V s k)" u] Cons.prems by auto
  have "(\<Sum>j\<in>set keys. length (V u j)) = (\<Sum>j\<in>set keys - {k}. length (V s j))"
    using Cons.prems Vu by (intro sum.mono_neutral_cong_right) auto
  then have "length (V s k) + (\<Sum>j\<in>set keys. length (V u j))
      = (\<Sum>j\<in>set (k # keys). length (V s j))"
    by (simp add: sum.insert_remove)
  then show ?case using t u Vu k by (auto simp: add.assoc)
qed auto

lemma release_key:
  assumes "k \<noteq> queue_key q"
  shows "V (snd (release R lim q net k s)) k \<in> {V s k, []}"
proof -
  have "snd (release R lim q net k s) = (if net = Refused then s else snd (release R lim q Reply k s))"
    by (simp add: release_def remote_state)
  then show ?thesis using release_reply(2) [OF assms, of s] assms by simp
qed

text \<open>Whatever the network does, a list keeps its records, or its key was visited and they are back in the queue.\<close>

lemma recover_loop_lists:
  assumes "queue_key q \<notin> set keys" "j \<noteq> queue_key q"
  shows "V (snd (recover_loop R lim q net i keys n s)) j = V s j
    \<or> j \<in> set keys \<and> V (snd (recover_loop R lim q net i keys n s)) j = []"
  using assms(1)
proof (induction keys arbitrary: i n s)
  case (Cons k keys)
  obtain r t where rt: "release R lim q (net i) k s = (r, t)" by force
  have k: "k \<noteq> queue_key q" using Cons.prems by auto
  have t: "V t j = V s j \<or> j = k \<and> V t j = []"
    using release_key [OF k, of "net i" s] release_any(2) [OF k _ assms(2), of "net i" s] rt by (cases "j = k") auto
  show ?case using t Cons.IH [of "i + 1" _ t] Cons.prems rt by (cases r) fastforce+
qed simp

lemma ack_reply: "V (snd (ack R Reply k s)) = (V s)(k := [])"
  by (simp add: ack_def del_law)

end

sublocale redis_log_queue \<subseteq> cq: claim_queue
  "\<lambda>s. V s (queue_key q)" "\<lambda>s w. V s (inflight_key w)"
  "redis_push R q" "redis_claim R lim q" "redis_ack R" "redis_back R lim q"
  using plain_queue_neq [OF queue_plain]
  by unfold_locales
     (auto simp: redis_push_def redis_claim_def redis_ack_def redis_back_def push_reply claim_reply
        release_reply ack_reply fun_eq_iff)

context redis_log_queue
begin

lemmas redis_simulates = cq.run_simulates
  and redis_order = cq.run_order
  and redis_conserves = cq.run_conserves

end

text \<open>The in-memory store with the shipped key and the limit the source names.\<close>

definition default_queue :: LogQueue where
  "default_queue = \<lparr>queue_key = ''nls:queue'', max_len = 5000000\<rparr>"

interpretation ref_queue: redis_log_queue ref_redis ref_list 7900 default_queue
  by unfold_locales (simp_all add: plain_queue_def default_queue_def INFLIGHT_PREFIX_def)

text \<open>The same facts over any server that keeps the list laws.\<close>

lemma redis_log_queueI:
  "redis_lists R V \<Longrightarrow> 1000 \<le> lim \<Longrightarrow> plain_queue q \<Longrightarrow> redis_log_queue R V lim q"
  by (simp add: redis_log_queue_def redis_log_queue_axioms_def)

lemma ref_lists: "redis_lists ref_redis ref_list"
  by (rule redis_log_queue.axioms(1) [OF ref_queue.redis_log_queue_axioms])

lemma default_plain [simp]: "plain_queue default_queue"
  by (rule ref_queue.queue_plain)

text \<open>Two records waiting and two held: the state the witnesses start from.\<close>

definition demo_store :: ref_store where
  "demo_store = put_list ''nls:queue'' [''a'', ''b'']
     (put_list (inflight_key ''w1'') [''c'', ''d''] empty_store)"

lemma demo_lists:
  "ref_list demo_store ''nls:queue'' = [''a'', ''b'']"
  "ref_list demo_store (inflight_key ''w1'') = [''c'', ''d'']"
  "ref_list demo_store (inflight_key ''w2'') = []"
  by (simp_all add: demo_store_def inflight_key_def INFLIGHT_PREFIX_def
      empty_store_def ref_list_def put_list_def dict_get_def)

lemma empty_lists [simp]: "ref_list empty_store k = []"
  by (simp add: empty_store_def ref_list_def)

lemma queue_key_default: "queue_key default_queue = ''nls:queue''"
  by (simp add: default_queue_def)

lemma inflight_not_default [simp]:
  "inflight_key w \<noteq> ''nls:queue''" "''nls:queue'' \<noteq> inflight_key w"
  using plain_queue_neq [OF default_plain] by (simp_all add: queue_key_default)

section \<open>Properties\<close>

text \<open>Also (claim_outcomes): A claim of n records moves exactly the first n waiting records, in order, to the end of the in-flight list and returns them; a refused call changes nothing; and when the reply is lost the caller gets an exception although the records have been moved. The chunked pushes make no difference to the result, for any Redis with the documented list commands.\<close>

theorem claim_outcomes:
  assumes "redis_lists R V" and "1000 \<le> lim" and "plain_queue q" and "0 < n"
  shows "fst (claim R lim q Reply (inflight_key w) (int n) s) = Inr (take n (V s (queue_key q)))
    \<and> V (snd (claim R lim q Reply (inflight_key w) (int n) s))
       = (V s)(queue_key q := drop n (V s (queue_key q)),
               inflight_key w := V s (inflight_key w) @ take n (V s (queue_key q)))
    \<and> claim R lim q Refused (inflight_key w) (int n) s = (Inl RedisError, s)
    \<and> claim R lim q ReplyLost (inflight_key w) (int n) s
       = (Inl RedisError, snd (claim R lim q Reply (inflight_key w) (int n) s))"
  using redis_log_queue.claim_reply [OF redis_log_queueI [OF assms(1-3)] assms(4), of w s]
  by (simp add: claim_def)

theorem claim_outcomes_witness:
  "fst (claim ref_redis 7900 default_queue Reply (inflight_key ''w1'') (int 1) demo_store)
      = Inr [''a'']
   \<and> ref_list (snd (claim ref_redis 7900 default_queue Reply (inflight_key ''w1'') (int 1) demo_store))
       (inflight_key ''w1'') = [''c'', ''d'', ''a'']"
  using claim_outcomes [of ref_redis ref_list 7900 default_queue 1 "''w1''" demo_store]
  by (simp add: ref_lists queue_key_default demo_lists)

text \<open>C6 (queue_refines_fifo): Any sequence of answered pushes, claims, acknowledgements and releases by any number of workers acts on the queue and in-flight lists exactly as the specification machine does on plain lists: the chunked, reversed Lua loops implement take, drop and append. This holds for any Redis with the documented list commands.\<close>

theorem queue_refines_fifo:
  assumes "redis_lists R V" and "1000 \<le> lim" and "plain_queue q" and "\<forall>op \<in> set ops. op_ok op"
  shows "\<lparr>fifo_todo = V (fold (redis_op R lim q) ops s) (queue_key q),
          fifo_held = (\<lambda>w. V (fold (redis_op R lim q) ops s) (inflight_key w))\<rparr>
       = fifo_run ops \<lparr>fifo_todo = V s (queue_key q), fifo_held = (\<lambda>w. V s (inflight_key w))\<rparr>"
  using redis_log_queue.redis_simulates [OF redis_log_queueI [OF assms(1-3)] assms(4), of s]
  by (simp only: redis_op_def)

theorem queue_refines_fifo_witness:
  "ref_list (fold (redis_op ref_redis 7900 default_queue)
       [Push [''e''], Claim ''w1'' 2, GiveBack ''w1''] demo_store) ''nls:queue''
     = [''c'', ''d'', ''a'', ''b'', ''e'']"
  using queue_refines_fifo [of ref_redis ref_list 7900 default_queue
      "[Push [''e''], Claim ''w1'' 2, GiveBack ''w1'']" demo_store]
  by (simp add: ref_lists demo_lists queue_key_default)

text \<open>Also (queue_fifo_order): With one worker the queue is first-in first-out: what it has acknowledged, then what it holds, then what waits, is the sequence of everything pushed, in order, whatever the interleaving of pushes, claims, acknowledgements and releases.\<close>

theorem queue_fifo_order:
  assumes "redis_lists R V" and "1000 \<le> lim" and "plain_queue q"
    and "\<forall>op \<in> set ops. op_ok op" and "op_workers ops \<subseteq> {w}"
    and "V s (inflight_key w) = []" and "V s (queue_key q) = []"
  shows "acked ops \<lparr>fifo_todo = V s (queue_key q), fifo_held = (\<lambda>w. V s (inflight_key w))\<rparr>
      @ V (fold (redis_op R lim q) ops s) (inflight_key w)
      @ V (fold (redis_op R lim q) ops s) (queue_key q)
    = pushed ops"
  using redis_log_queue.redis_order [OF redis_log_queueI [OF assms(1-3)] assms(4,5), of s] assms(6,7)
  by (simp only: redis_op_def append_Nil)

theorem queue_fifo_order_witness:
  "acked [Push [''a'', ''b''], Claim ''w1'' 1, Ack ''w1'']
       \<lparr>fifo_todo = ref_list empty_store ''nls:queue'', fifo_held = (\<lambda>w. ref_list empty_store (inflight_key w))\<rparr>
     @ ref_list (fold (redis_op ref_redis 7900 default_queue)
         [Push [''a'', ''b''], Claim ''w1'' 1, Ack ''w1''] empty_store) (inflight_key ''w1'')
     @ ref_list (fold (redis_op ref_redis 7900 default_queue)
         [Push [''a'', ''b''], Claim ''w1'' 1, Ack ''w1''] empty_store) ''nls:queue''
   = [''a'', ''b'']"
  using queue_fifo_order [of ref_redis ref_list 7900 default_queue
      "[Push [''a'', ''b''], Claim ''w1'' 1, Ack ''w1'']" "''w1''" empty_store]
  by (simp add: ref_lists queue_key_default empty_lists del: fold.simps)

text \<open>C12 (queue_conserves): With any number of workers, what has been acknowledged, what waits and what all workers hold is exactly (with multiplicity) what was there plus what was pushed: no operation of the queue loses or doubles a record.\<close>

theorem queue_conserves:
  assumes "redis_lists R V" and "1000 \<le> lim" and "plain_queue q"
    and "\<forall>op \<in> set ops. op_ok op" and "finite W" and "op_workers ops \<subseteq> W"
  shows "mset (acked ops \<lparr>fifo_todo = V s (queue_key q), fifo_held = (\<lambda>w. V s (inflight_key w))\<rparr>)
      + mset (V (fold (redis_op R lim q) ops s) (queue_key q))
      + (\<Sum>w\<in>W. mset (V (fold (redis_op R lim q) ops s) (inflight_key w)))
    = mset (V s (queue_key q)) + (\<Sum>w\<in>W. mset (V s (inflight_key w))) + mset (pushed ops)"
  using redis_log_queue.redis_conserves [OF redis_log_queueI [OF assms(1-3)] assms(4-6), of s]
  by (simp only: redis_op_def)

theorem queue_conserves_witness:
  "mset (ref_list (fold (redis_op ref_redis 7900 default_queue)
          [Claim ''w1'' 1, Claim ''w2'' 5] demo_store) ''nls:queue'')
      + (\<Sum>w\<in>{''w1'', ''w2''}. mset (ref_list (fold (redis_op ref_redis 7900 default_queue)
          [Claim ''w1'' 1, Claim ''w2'' 5] demo_store) (inflight_key w)))
    = {#''a'', ''b'', ''c'', ''d''#}"
  using queue_conserves [of ref_redis ref_list 7900 default_queue
      "[Claim ''w1'' 1, Claim ''w2'' 5]" "{''w1'', ''w2''}" demo_store]
  by (simp add: ref_lists queue_key_default demo_lists del: fold.simps)

text \<open>Also (recover_orphans_total): Recovering orphans never loses or doubles a record, whatever the network does to each of its calls; and when every call is answered it empties every in-flight list and returns the number of records it moved back to the queue.\<close>

theorem recover_orphans_total:
  assumes "redis_scan R V" and "1000 \<le> lim" and "plain_queue q"
  shows "mset (V (snd (recover_orphans R lim q net INFLIGHT_PREFIX s)) (queue_key q))
      + (\<Sum>k\<in>set (r_scan R INFLIGHT_PREFIX s).
           mset (V (snd (recover_orphans R lim q net INFLIGHT_PREFIX s)) k))
      = mset (V s (queue_key q)) + (\<Sum>k\<in>set (r_scan R INFLIGHT_PREFIX s). mset (V s k))
    \<and> (\<exists>t. recover_orphans R lim q (\<lambda>_. Reply) INFLIGHT_PREFIX s
         = (Inr (\<Sum>k\<in>set (r_scan R INFLIGHT_PREFIX s). length (V s k)), t)
       \<and> (\<forall>w. V t (inflight_key w) = []))"
proof -
  have L: "redis_log_queue R V lim q"
    using redis_scan.axioms(1) [OF assms(1)] assms(2,3) by (rule redis_log_queueI)
  let ?K = "r_scan R INFLIGHT_PREFIX s"
  have q: "queue_key q \<notin> set ?K"
    using redis_scan.scan_prefix [OF assms(1)] assms(3) by (auto simp: plain_queue_def)
  have rest: "V s (inflight_key w) = []" if "inflight_key w \<notin> set ?K" for w
    using redis_scan.scan_law [OF assms(1), of s "inflight_key w" INFLIGHT_PREFIX] that
    by (auto simp: inflight_key_def)
  obtain t where t: "recover_orphans R lim q (\<lambda>_. Reply) INFLIGHT_PREFIX s
      = (Inr (\<Sum>k\<in>set ?K. length (V s k)), t)"
    "\<forall>k \<in> set ?K. V t k = []"
    "\<forall>k. k \<notin> set ?K \<longrightarrow> k \<noteq> queue_key q \<longrightarrow> V t k = V s k"
    using redis_log_queue.recover_loop_reply [OF L q, of 0 0 s] by (auto simp: recover_orphans_def)
  have "V t (inflight_key w) = []" for w
    using t(2,3) rest plain_queue_neq [OF assms(3)] by (cases "inflight_key w \<in> set ?K") auto
  then show ?thesis
    using t(1) redis_log_queue.recover_loop_conserves [OF L finite_set order_refl q]
    by (simp add: recover_orphans_def)
qed

theorem recover_orphans_total_witness:
  "\<exists>t. recover_orphans ref_redis 7900 default_queue (\<lambda>_. Reply) INFLIGHT_PREFIX demo_store
         = (Inr (\<Sum>k\<in>set (r_scan ref_redis INFLIGHT_PREFIX demo_store). length (ref_list demo_store k)), t)
     \<and> (\<forall>w. ref_list t (inflight_key w) = [])"
  using recover_orphans_total [of ref_redis ref_list 7900 default_queue "\<lambda>_. Reply" demo_store]
    ref_scan.redis_scan_axioms by simp


end
