(* ===== verification/Regex.thy ===== *)
theory Regex
  imports Py_Str
begin

text \<open>
  The part of Python's \<open>re\<close> that \<open>parser/patterns.py\<close> uses: literals, character classes,
  ordered choice, greedy repetition of a class, named groups, one-character lookahead and
  lookbehind, and word boundaries. A matcher state is the character before the position, the
  text from the position on, and the groups captured so far. \<open>run\<close> lists the ways to match
  in the order in which the backtracking engine tries them, so the engine's answer is the
  first. \<open>mtch\<close> is the declarative reading of a pattern, and \<open>run\<close> is sound for it.
\<close>

section \<open>Patterns\<close>

datatype cset =
    Is nat
  | Rng nat nat
  | AnyOf "cset list"
  | NoneOf "cset list"
  | Digit    \<comment> \<open>\<open>\d\<close>\<close>
  | Space    \<comment> \<open>\<open>\s\<close>\<close>

fun in_cset :: "ucd \<Rightarrow> cset \<Rightarrow> nat \<Rightarrow> bool" where
  "in_cset U (Is d) c = (c = d)"
| "in_cset U (Rng a b) c = (a \<le> c \<and> c \<le> b)"
| "in_cset U (AnyOf S) c = list_ex (\<lambda>x. in_cset U x c) S"
| "in_cset U (NoneOf S) c = (\<not> list_ex (\<lambda>x. in_cset U x c) S)"
| "in_cset U Digit c = is_decimal U c"
| "in_cset U Space c = is_space U c"

text \<open>The groups that \<open>patterns.py\<close> names, and the numbered group 1.\<close>

datatype grp = PRI | PRI_PORT | PUB | PUB_PORT | DST | DST_PORT | GROUP1

datatype rx =
    RxNil
  | Ch cset
  | Seq rx rx
  | Alt rx rx
  | Opt rx                          \<comment> \<open>greedy \<open>?\<close>\<close>
  | Many cset nat "nat option"      \<comment> \<open>greedy \<open>{lo,hi}\<close> of one character class\<close>
  | Cap grp rx
  | NotAhead cset                   \<comment> \<open>\<open>(?![...])\<close>\<close>
  | NotBehind cset                  \<comment> \<open>\<open>(?<![...])\<close>\<close>
  | WordB                           \<comment> \<open>\<open>\b\<close>\<close>

fun rlit :: "pystr \<Rightarrow> rx" where
  "rlit [] = RxNil"
| "rlit (c # cs) = Seq (Ch (Is c)) (rlit cs)"

fun seqs :: "rx list \<Rightarrow> rx" where
  "seqs [] = RxNil"
| "seqs (x # xs) = Seq x (seqs xs)"

fun alts :: "rx \<Rightarrow> rx list \<Rightarrow> rx" where
  "alts x [] = x"
| "alts x (y # ys) = Alt x (alts y ys)"

section \<open>The backtracking matcher\<close>

type_synonym caps = "grp \<Rightarrow> pystr option"
type_synonym mstate = "nat option \<times> pystr \<times> caps"

fun many :: "ucd \<Rightarrow> cset \<Rightarrow> nat \<Rightarrow> nat option \<Rightarrow> nat option \<Rightarrow> pystr \<Rightarrow> caps \<Rightarrow> mstate list"
where
  "many U S lo hi p [] g = (if lo = 0 then [(p, [], g)] else [])"
| "many U S lo hi p (c # r) g =
     (if hi \<noteq> Some 0 \<and> in_cset U S c
      then many U S (lo - 1) (map_option (\<lambda>n. n - 1) hi) (Some c) r g else [])
     @ (if lo = 0 then [(p, c # r, g)] else [])"

definition word_at :: "ucd \<Rightarrow> nat option \<Rightarrow> bool" where
  "word_at U p = (case p of None \<Rightarrow> False | Some c \<Rightarrow> is_word U c)"

definition next_char :: "pystr \<Rightarrow> nat option" where
  "next_char r = (case r of [] \<Rightarrow> None | c # _ \<Rightarrow> Some c)"

definition in_opt :: "ucd \<Rightarrow> cset \<Rightarrow> nat option \<Rightarrow> bool" where
  "in_opt U S p = (case p of None \<Rightarrow> False | Some c \<Rightarrow> in_cset U S c)"

definition close_cap :: "grp \<Rightarrow> pystr \<Rightarrow> mstate \<Rightarrow> mstate" where
  "close_cap k r m = (case m of (p', r', g') \<Rightarrow> (p', r', g'(k \<mapsto> take (length r - length r') r)))"

primrec run :: "ucd \<Rightarrow> rx \<Rightarrow> mstate \<Rightarrow> mstate list" where
  "run U RxNil m = [m]"
| "run U (Ch S) m =
     (case m of (p, r, g) \<Rightarrow>
        case r of [] \<Rightarrow> [] | c # cs \<Rightarrow> if in_cset U S c then [(Some c, cs, g)] else [])"
| "run U (Seq a b) m = concat (map (run U b) (run U a m))"
| "run U (Alt a b) m = run U a m @ run U b m"
| "run U (Opt a) m = run U a m @ [m]"
| "run U (Many S lo hi) m = (case m of (p, r, g) \<Rightarrow> many U S lo hi p r g)"
| "run U (Cap k a) m =
     (case m of (p, r, g) \<Rightarrow> map (close_cap k r) (run U a m))"
| "run U (NotAhead S) m =
     (case m of (p, r, g) \<Rightarrow> if in_opt U S (next_char r) then [] else [m])"
| "run U (NotBehind S) m = (case m of (p, r, g) \<Rightarrow> if in_opt U S p then [] else [m])"
| "run U WordB m =
     (case m of (p, r, g) \<Rightarrow> if word_at U p \<noteq> word_at U (next_char r) then [m] else [])"

text \<open>\<open>pattern.search(payload)\<close>: the first position at which the pattern matches.\<close>

fun search_from :: "ucd \<Rightarrow> rx \<Rightarrow> nat option \<Rightarrow> pystr \<Rightarrow> caps option" where
  "search_from U x p [] =
     (case run U x (p, [], Map.empty) of [] \<Rightarrow> None | (_, _, g) # _ \<Rightarrow> Some g)"
| "search_from U x p (c # cs) =
     (case run U x (p, c # cs, Map.empty) of
        [] \<Rightarrow> search_from U x (Some c) cs | (_, _, g) # _ \<Rightarrow> Some g)"

definition search :: "ucd \<Rightarrow> rx \<Rightarrow> pystr \<Rightarrow> caps option" where
  "search U x s = search_from U x None s"

text \<open>\<open>m.group(k)\<close> of a match in which the group took part.\<close>

definition m_group :: "caps \<Rightarrow> grp \<Rightarrow> pystr" where
  "m_group g k = (case g k of Some t \<Rightarrow> t | None \<Rightarrow> [])"

section \<open>The declarative reading\<close>

text \<open>
  \<open>mtch U x t g g'\<close>: the pattern reads the text \<open>t\<close> and turns the captures \<open>g\<close> into
  \<open>g'\<close>; lookaround is left out, so this is what a match guarantees of the text read.
\<close>

primrec mtch :: "ucd \<Rightarrow> rx \<Rightarrow> pystr \<Rightarrow> caps \<Rightarrow> caps \<Rightarrow> bool" where
  "mtch U RxNil t g g' = (t = [] \<and> g' = g)"
| "mtch U (Ch S) t g g' = (\<exists>c. t = [c] \<and> in_cset U S c \<and> g' = g)"
| "mtch U (Seq a b) t g g' =
     (\<exists>t1 t2 g1. t = t1 @ t2 \<and> mtch U a t1 g g1 \<and> mtch U b t2 g1 g')"
| "mtch U (Alt a b) t g g' = (mtch U a t g g' \<or> mtch U b t g g')"
| "mtch U (Opt a) t g g' = (mtch U a t g g' \<or> t = [] \<and> g' = g)"
| "mtch U (Many S lo hi) t g g' =
     (list_all (in_cset U S) t \<and> lo \<le> length t
      \<and> (case hi of None \<Rightarrow> True | Some h \<Rightarrow> length t \<le> h) \<and> g' = g)"
| "mtch U (Cap k a) t g g' = (\<exists>g1. mtch U a t g g1 \<and> g' = g1(k \<mapsto> t))"
| "mtch U (NotAhead S) t g g' = (t = [] \<and> g' = g)"
| "mtch U (NotBehind S) t g g' = (t = [] \<and> g' = g)"
| "mtch U WordB t g g' = (t = [] \<and> g' = g)"

lemma many_sound:
  "(p', r', g') \<in> set (many U S lo hi p r g) \<Longrightarrow>
   \<exists>t. r = t @ r' \<and> mtch U (Many S lo hi) t g g'"
proof (induction U S lo hi p r g rule: many.induct)
  case (1 U S lo hi p g)
  then show ?case by (auto split: if_splits option.splits)
next
  case (2 U S lo hi p c r g)
  show ?case
  proof (cases "lo = 0 \<and> (p', r', g') = (p, c # r, g)")
    case True
    then show ?thesis by (auto split: option.splits)
  next
    case False
    with "2.prems" have c: "hi \<noteq> Some 0" "in_cset U S c"
      and m: "(p', r', g') \<in> set (many U S (lo - 1) (map_option (\<lambda>n. n - 1) hi) (Some c) r g)"
      by (auto split: if_splits)
    from "2.IH" [OF _ m] c obtain t where
      "r = t @ r'" "mtch U (Many S (lo - 1) (map_option (\<lambda>n. n - 1) hi)) t g g'"
      by auto
    with c show ?thesis
      by (intro exI [of _ "c # t"]) (auto split: option.splits)
  qed
qed

lemma run_sound:
  "(p', r', g') \<in> set (run U x (p, r, g)) \<Longrightarrow> \<exists>t. r = t @ r' \<and> mtch U x t g g'"
proof (induction x arbitrary: p r g p' r' g')
  case (Seq a b)
  then obtain p1 r1 g1 where a: "(p1, r1, g1) \<in> set (run U a (p, r, g))"
    and b: "(p', r', g') \<in> set (run U b (p1, r1, g1))" by auto
  from Seq.IH(1) [OF a] Seq.IH(2) [OF b] show ?case by fastforce
next
  case (Cap k a)
  then obtain g1 where "(p', r', g1) \<in> set (run U a (p, r, g))"
    and g': "g' = g1(k \<mapsto> take (length r - length r') r)" by (auto simp: close_cap_def)
  from Cap.IH [OF this(1)] obtain t where t: "r = t @ r'" "mtch U a t g g1" by blast
  with g' have "g' = g1(k \<mapsto> t)" by simp
  with t show ?case unfolding mtch.simps by blast
next
  case (Alt a b)
  from Alt.prems show ?case by (simp, elim disjE) (blast dest: Alt.IH)+
next
  case (Opt a)
  from Opt.prems have "(p', r', g') \<in> set (run U a (p, r, g)) \<or> p' = p \<and> r' = r \<and> g' = g"
    by auto
  then show ?case
  proof
    assume "(p', r', g') \<in> set (run U a (p, r, g))"
    from Opt.IH [OF this] show ?case by auto
  qed auto
qed (auto split: list.splits if_splits dest: many_sound simp del: mtch.simps(6))

lemma close_cap_append [simp]: "close_cap k (t @ r) (p, r, g) = (p, r, g(k \<mapsto> t))"
  by (simp add: close_cap_def)

lemma search_from_sound:
  "search_from U x p s = Some g \<Longrightarrow>
   \<exists>pre t post. s = pre @ t @ post \<and> mtch U x t Map.empty g"
proof (induction s arbitrary: p)
  case Nil
  then obtain p' r' ms where "run U x (p, [], Map.empty) = (p', r', g) # ms"
    by (auto split: list.splits)
  then have "(p', r', g) \<in> set (run U x (p, [], Map.empty))" by simp
  from run_sound [OF this] show ?case by fastforce
next
  case (Cons c cs)
  show ?case
  proof (cases "run U x (p, c # cs, Map.empty)")
    case Nil
    with Cons.prems have "search_from U x (Some c) cs = Some g" by simp
    from Cons.IH [OF this] show ?thesis by (metis append_Cons)
  next
    case (Cons m ms)
    obtain p' r' where "m = (p', r', g)" using Cons Cons.prems by (cases m) auto
    with Cons have "(p', r', g) \<in> set (run U x (p, c # cs, Map.empty))" by simp
    from run_sound [OF this] show ?thesis by (metis append_Nil)
  qed
qed

lemma search_sound:
  "search U x s = Some g \<Longrightarrow> \<exists>pre t post. s = pre @ t @ post \<and> mtch U x t Map.empty g"
  unfolding search_def by (rule search_from_sound)

section \<open>Literals\<close>

text \<open>The character before the position once \<open>t\<close> has been read.\<close>

definition after :: "nat option \<Rightarrow> pystr \<Rightarrow> nat option" where
  "after p t = (if t = [] then p else Some (last t))"

lemma after_simps [simp]:
  "after p [] = p" "after p (c # t) = after (Some c) t" "after (after p s) t = after p (s @ t)"
  by (auto simp: after_def)

lemma run_rlit [rx_simps]:
  "run U (rlit w) (p, s, g) =
     (if py_startswith s w then [(after p w, drop (length w) s, g)] else [])"
proof (induction w arbitrary: p s)
  case (Cons c w)
  then show ?case by (cases s) auto
qed simp

lemma run_delim [rx_simps]:
  "run U (Seq (rlit w) y) (p, w @ r, g) = run U y (after p w, r, g)"
  by (simp add: run_rlit)

lemma mtch_rlit [simp]: "mtch U (rlit w) t g g' \<longleftrightarrow> t = w \<and> g' = g"
  by (induction w arbitrary: t) auto

lemma search_from_skip:
  assumes "\<And>p r. \<not> py_startswith r w \<Longrightarrow> run U x (p, r, Map.empty) = []"
    and "\<And>j. j < length pre \<Longrightarrow> \<not> py_startswith (drop j (pre @ s)) w"
  shows "search_from U x p (pre @ s) = search_from U x (after p pre) s"
  using assms(2)
proof (induction pre arbitrary: p)
  case (Cons c pre)
  have "\<not> py_startswith (c # pre @ s) w" using Cons.prems [of 0] by simp
  then have "run U x (p, c # pre @ s, Map.empty) = []" by (rule assms(1))
  moreover have "search_from U x (Some c) (pre @ s) = search_from U x (after (Some c) pre) s"
    using Cons.prems by (intro Cons.IH) (metis Suc_less_eq append_Cons drop_Suc_Cons length_Cons)
  ultimately show ?case by simp
qed simp

lemma search_from_None:
  assumes "\<And>p r. \<not> py_startswith r w \<Longrightarrow> run U x (p, r, Map.empty) = []"
    and "\<And>j. \<not> py_startswith (drop j s) w"
  shows "search_from U x p s = None"
proof -
  have s: "\<not> py_startswith r w" if "r = drop j s" for r j using that assms(2) by simp
  show ?thesis using s
  proof (induction s arbitrary: p)
    case Nil
    then show ?case using assms(1) [of "[]" p] by simp
  next
    case (Cons c cs)
    have "run U x (p, c # cs, Map.empty) = []"
      by (rule assms(1)) (rule Cons.prems [of _ 0], simp)
    moreover have "search_from U x (Some c) cs = None"
      by (rule Cons.IH) (metis Cons.prems drop_Suc_Cons)
    ultimately show ?case by simp
  qed
qed

section \<open>Reading a field up to its end\<close>

text \<open>
  A field pattern \<^emph>\<open>reads\<close> the text \<open>t\<close> when, on any input in which \<open>t\<close> is not
  followed by a decimal digit, the first way to match takes exactly \<open>t\<close>, and every other
  way stops in front of a digit (so that no delimiter can follow it).
\<close>

definition digit_next :: "ucd \<Rightarrow> mstate \<Rightarrow> bool" where
  "digit_next U m = (case m of (p, r, g) \<Rightarrow> r \<noteq> [] \<and> is_decimal U (hd r))"

lemma digit_next_close_cap [simp]: "digit_next U (close_cap k s m) = digit_next U m"
  by (simp add: digit_next_def close_cap_def split: prod.splits)

definition reads :: "ucd \<Rightarrow> rx \<Rightarrow> pystr \<Rightarrow> bool" where
  "reads U x t \<longleftrightarrow>
     (\<forall>p r g. (r = [] \<or> \<not> is_decimal U (hd r)) \<longrightarrow>
        (\<exists>ms. run U x (p, t @ r, g) = (after p t, r, g) # ms \<and>
              (\<forall>m \<in> set ms. digit_next U m)))"

lemma readsD:
  assumes "reads U x t" and "r = [] \<or> \<not> is_decimal U (hd r)"
  obtains ms where "run U x (p, t @ r, g) = (after p t, r, g) # ms"
    and "\<And>m. m \<in> set ms \<Longrightarrow> digit_next U m"
proof -
  from assms have "\<exists>ms. run U x (p, t @ r, g) = (after p t, r, g) # ms \<and> (\<forall>m \<in> set ms. digit_next U m)"
    unfolding reads_def by blast
  then show thesis using that by blast
qed

text \<open>A captured field followed by a delimiter is read in exactly one way.\<close>

lemma run_field_delim:
  assumes "reads U x t" and "w \<noteq> []" and "\<not> is_decimal U (hd w)"
  shows "run U (Seq (Cap k x) (Seq (rlit w) y)) (p, t @ w @ r, g) =
         run U y (after p (t @ w), r, g(k \<mapsto> t))"
proof -
  have wr: "w @ r = [] \<or> \<not> is_decimal U (hd (w @ r))" using assms(2,3) by simp
  obtain ms where run: "run U x (p, t @ w @ r, g) = (after p t, w @ r, g) # ms"
    and ms: "\<And>m. m \<in> set ms \<Longrightarrow> digit_next U m"
    by (rule readsD [OF assms(1) wr]) blast
  have stuck: "run U (Seq (rlit w) y) m = []" if "m \<in> set (map (close_cap k (t @ w @ r)) ms)" for m
  proof -
    have "digit_next U m" using that ms by auto
    then obtain p' r' g' where m: "m = (p', r', g')" and "r' \<noteq> []" "is_decimal U (hd r')"
      by (cases m) (auto simp: digit_next_def)
    then have "\<not> py_startswith r' w" using assms(2,3) by (cases w; cases r') auto
    then show ?thesis by (simp add: m run_rlit)
  qed
  have cap: "run U (Cap k x) (p, t @ w @ r, g) =
      (after p t, w @ r, g(k \<mapsto> t)) # map (close_cap k (t @ w @ r)) ms"
    by (simp add: run)
  have "run U (Seq (Cap k x) (Seq (rlit w) y)) (p, t @ w @ r, g) =
      run U (Seq (rlit w) y) (after p t, w @ r, g(k \<mapsto> t))
      @ concat (map (run U (Seq (rlit w) y)) (map (close_cap k (t @ w @ r)) ms))"
    by (subst run.simps(3)) (simp only: cap list.map concat.simps)
  also have "concat (map (run U (Seq (rlit w) y)) (map (close_cap k (t @ w @ r)) ms)) = []"
    by (rule concat_map_all_Nil) (rule stuck)
  finally show ?thesis by (simp only: run_delim append_Nil2 after_simps)
qed

text \<open>At the end of the pattern the first way to match is the one that counts.\<close>

lemma run_field_end:
  assumes "reads U x t" and "r = [] \<or> \<not> is_decimal U (hd r)"
  shows "\<exists>ms. run U (Cap k x) (p, t @ r, g) = (after p t, r, g(k \<mapsto> t)) # ms"
proof -
  obtain ms where "run U x (p, t @ r, g) = (after p t, r, g) # ms"
    by (rule readsD [OF assms]) blast
  then show ?thesis by simp
qed

end
