(* ===== verification/Patterns.thy ===== *)
theory Patterns
  imports Regex Parser_Base
begin

text \<open>
  \<open>backend/app/parser/patterns.py\<close>: the pattern registry, and what its patterns read. The
  address pattern reads exactly the canonical dotted quads, and each field pattern takes a
  field up to its delimiter in one way only.
\<close>

section \<open>The registry\<close>

abbreviation word :: "string \<Rightarrow> rx" where
  "word s \<equiv> rlit (lit s)"

definition ascii_digit :: cset where
  "ascii_digit = Rng 48 57"

text \<open>\<open>OCTET\<close>: \<open>25[0-5]|2[0-4][0-9]|1[0-9]{2}|[1-9]?[0-9]\<close>.\<close>

definition OCTET :: rx where
  "OCTET =
     alts (Seq (word ''25'') (Ch (Rng 48 53)))
       [Seq (word ''2'') (Seq (Ch (Rng 48 52)) (Ch ascii_digit)),
        Seq (word ''1'') (Many ascii_digit 2 (Some 2)),
        Seq (Opt (Ch (Rng 49 57))) (Ch ascii_digit)]"

definition IPV4 :: rx where
  "IPV4 =
     Seq OCTET (Seq (word ''.'') (Seq OCTET (Seq (word ''.'')
       (Seq OCTET (Seq (word ''.'') OCTET)))))"

definition PORT :: rx where
  "PORT = Many Digit 1 (Some 5)"

definition NOT_ADDR_AFTER :: rx where
  "NOT_ADDR_AFTER = NotAhead (AnyOf [Digit, Is 46, Is 58])"

definition NOT_ADDR_BEFORE :: rx where
  "NOT_ADDR_BEFORE = NotBehind (AnyOf [Digit, Is 46])"

definition SRCNAT_PORTS :: rx where
  "SRCNAT_PORTS =
     seqs [word ''NAT'', Many Space 0 None, word ''('',
           Cap PRI IPV4, word '':'', Cap PRI_PORT PORT, word ''->'',
           Cap PUB IPV4, word '':'', Cap PUB_PORT PORT, word '')->'',
           Cap DST IPV4, word '':'', Cap DST_PORT PORT]"

definition SRCNAT_NOPORTS :: rx where
  "SRCNAT_NOPORTS =
     seqs [word ''NAT'', Many Space 0 None, word ''('',
           Cap PRI IPV4, word ''->'', Cap PUB IPV4, word '')->'',
           Cap DST IPV4, NOT_ADDR_AFTER]"

definition PLAIN_PORTS :: rx where
  "PLAIN_PORTS =
     seqs [NOT_ADDR_BEFORE, Cap PRI IPV4, word '':'', Cap PRI_PORT PORT, word ''->'',
           Cap DST IPV4, word '':'', Cap DST_PORT PORT]"

definition PLAIN_NOPORTS :: rx where
  "PLAIN_NOPORTS =
     seqs [NOT_ADDR_BEFORE, Cap PRI IPV4, word ''->'', Cap DST IPV4, NOT_ADDR_AFTER]"

text \<open>\<open>\bin:<?([^\s,>]*)>?\<close>\<close>

definition IN_INTERFACE :: rx where
  "IN_INTERFACE =
     seqs [WordB, word ''in:'', Opt (word ''<''),
           Cap GROUP1 (Many (NoneOf [Space, Is 44, Is 62]) 0 None), Opt (word ''>'')]"

text \<open>\<open>\bproto\s+([A-Za-z0-9_-]{1,16})\<close>\<close>

definition PROTOCOL :: rx where
  "PROTOCOL =
     seqs [WordB, word ''proto'', Many Space 1 None,
           Cap GROUP1 (Many (AnyOf [Rng 65 90, Rng 97 122, Rng 48 57, Is 95, Is 45]) 1 (Some 16))]"

definition SUBSCRIBER_PREFIXES :: "pystr list" where
  "SUBSCRIBER_PREFIXES =
     map lit [''pppoe-in-'', ''pppoe-out-'', ''pppoe-'', ''l2tp-'', ''pptp-'', ''sstp-'', ''ovpn-'']"

definition PROTO_NUMBERS :: "(pystr, pystr) pydict" where
  "PROTO_NUMBERS =
     map (\<lambda>(n, v). (lit n, lit v))
       [(''1'', ''ICMP''), (''2'', ''IGMP''), (''6'', ''TCP''), (''17'', ''UDP''),
        (''41'', ''IPV6''), (''47'', ''GRE''), (''50'', ''ESP''), (''51'', ''AH''),
        (''58'', ''ICMPV6''), (''89'', ''OSPF''), (''132'', ''SCTP'')]"

section \<open>What the field patterns accept\<close>

lemma lit_simps [simp]: "lit [] = []" "lit (c # s) = of_char c # lit s"
  by (simp_all add: lit_def)

lemma length_2_iff: "length t = 2 \<longleftrightarrow> (\<exists>b c. t = [b, c])"
  by (auto simp: length_Suc_conv numeral_2_eq_2)

lemma mtch_two_digits:
  "mtch U (Many ascii_digit 2 (Some 2)) t g g' \<longleftrightarrow>
     (\<exists>b c. t = [b, c] \<and> 48 \<le> b \<and> b \<le> 57 \<and> 48 \<le> c \<and> c \<le> 57) \<and> g' = g"
  using length_2_iff [of t] by (auto simp: ascii_digit_def)

lemma mtch_OCTET:
  assumes "mtch U OCTET t g g'"
  shows "octet_text t \<and> g' = g"
proof -
  have d: "\<exists>y < 10. c = 48 + y" if "48 \<le> c" "c \<le> 57" for c :: nat
    using that by (intro exI [of _ "c - 48"]) auto
  consider
      c where "t = [50, 53, c]" "48 \<le> c" "c \<le> 53"
    | b c where "t = [50, b, c]" "48 \<le> b" "b \<le> 52" "48 \<le> c" "c \<le> 57"
    | b c where "t = [49, b, c]" "48 \<le> b" "b \<le> 57" "48 \<le> c" "c \<le> 57"
    | b c where "t = [b, c]" "49 \<le> b" "b \<le> 57" "48 \<le> c" "c \<le> 57"
    | c where "t = [c]" "48 \<le> c" "c \<le> 57"
    using assms
    by (auto simp: OCTET_def mtch_two_digits simp del: mtch.simps(6))
       (auto simp: ascii_digit_def)
  then have "octet_text t"
  proof cases
    case (1 c)
    with py_str_nat_digits3 [of 2 5 "c - 48"] show ?thesis
      unfolding octet_text_def by (intro exI [of _ "250 + (c - 48)"]) auto
  next
    case (2 b c)
    obtain y z where "y < 10" "b = 48 + y" "z < 10" "c = 48 + z" using d [of b] d [of c] 2 by auto
    with 2 py_str_nat_digits3 [of 2 y z] show ?thesis
      unfolding octet_text_def by (intro exI [of _ "200 + 10 * y + z"]) auto
  next
    case (3 b c)
    obtain y z where "y < 10" "b = 48 + y" "z < 10" "c = 48 + z" using d [of b] d [of c] 3 by auto
    with 3 py_str_nat_digits3 [of 1 y z] show ?thesis
      unfolding octet_text_def by (intro exI [of _ "100 + 10 * y + z"]) auto
  next
    case (4 b c)
    obtain y z where "y < 10" "b = 48 + y" "z < 10" "c = 48 + z" using d [of b] d [of c] 4 by auto
    with 4 py_str_nat_digits2 [of y z] show ?thesis
      unfolding octet_text_def by (intro exI [of _ "10 * y + z"]) auto
  next
    case (5 c)
    obtain z where "z < 10" "c = 48 + z" using d [of c] 5 by auto
    with 5 show ?thesis
      unfolding octet_text_def by (intro exI [of _ z]) (auto simp: py_str_nat_small)
  qed
  moreover have "g' = g" using assms by (auto simp: OCTET_def)
  ultimately show ?thesis by simp
qed

lemma mtch_IPV4:
  assumes "mtch U IPV4 t g g'"
  shows "canonical_ipv4 t \<and> g' = g"
proof -
  obtain t1 t2 t3 t4 g1 g2 g3 where
      t: "t = t1 @ [46] @ t2 @ [46] @ t3 @ [46] @ t4"
    and m: "mtch U OCTET t1 g g1" "mtch U OCTET t2 g1 g2" "mtch U OCTET t3 g2 g3" "mtch U OCTET t4 g3 g'"
    using assms by (auto simp: IPV4_def)
  from m [THEN mtch_OCTET] have "g' = g"
    and "octet_text t1" "octet_text t2" "octet_text t3" "octet_text t4" by auto
  with t show ?thesis unfolding canonical_ipv4_def octet_text_def dotted_def by blast
qed

lemma mtch_PORT:
  assumes "mtch U PORT t g g'"
  shows "t \<noteq> [] \<and> length t \<le> 5 \<and> list_all (is_decimal U) t \<and> g' = g"
proof -
  have "in_cset U Digit = is_decimal U" by auto
  with assms show ?thesis by (auto simp: PORT_def)
qed

section \<open>Field patterns read a field in one way\<close>

lemma decimal_ascii_range: "48 \<le> c \<Longrightarrow> c \<le> 57 \<Longrightarrow> is_decimal U c"
  by (simp add: is_decimal_def is_decimal_ascii is_ascii_digit_def)

lemma not_decimal_cases:
  assumes "r = [] \<or> \<not> is_decimal U (hd r)"
  obtains "r = []" | c r' where "r = c # r'" "c < 48" | c r' where "r = c # r'" "57 < c"
proof (cases r)
  case (Cons c r')
  with assms have "\<not> (48 \<le> c \<and> c \<le> 57)" using decimal_ascii_range by auto
  then show ?thesis using Cons that by force
qed (use that in blast)

lemma many_zero [simp]: "many U S 0 (Some 0) p r g = [(p, r, g)]"
  by (cases r) auto

lemma run_two_digits:
  "run U (Many ascii_digit 2 (Some 2)) (p, r, g) =
     (case r of b # c # r' \<Rightarrow>
        if 48 \<le> b \<and> b \<le> 57 \<and> 48 \<le> c \<and> c \<le> 57 then [(Some c, r', g)] else []
      | _ \<Rightarrow> [])"
  by (cases r; cases "tl r") (auto simp: ascii_digit_def)

lemmas octet_run = OCTET_def run_two_digits run_rlit ascii_digit_def digit_next_def decimal_ascii_range

lemma reads_octet1:
  assumes "x < 10"
  shows "reads U OCTET [48 + x]"
  unfolding reads_def
proof (intro allI impI)
  fix p r g
  assume "r = [] \<or> \<not> is_decimal U (hd r)"
  then show "\<exists>ms. run U OCTET (p, [48 + x] @ r, g) = (after p [48 + x], r, g) # ms \<and>
      (\<forall>m \<in> set ms. digit_next U m)"
    by (cases rule: not_decimal_cases) (use assms in \<open>auto simp: octet_run\<close>)
qed

lemma reads_octet2:
  assumes "0 < x" "x < 10" "y < 10"
  shows "reads U OCTET [48 + x, 48 + y]"
  unfolding reads_def
proof (intro allI impI)
  fix p r g
  assume "r = [] \<or> \<not> is_decimal U (hd r)"
  then show "\<exists>ms. run U OCTET (p, [48 + x, 48 + y] @ r, g) = (after p [48 + x, 48 + y], r, g) # ms \<and>
      (\<forall>m \<in> set ms. digit_next U m)"
    by (cases rule: not_decimal_cases) (use assms in \<open>auto simp: octet_run\<close>)
qed

lemma reads_octet3:
  assumes "x = 1 \<or> x = 2 \<and> (y < 5 \<or> y = 5 \<and> z < 6)" "y < 10" "z < 10"
  shows "reads U OCTET [48 + x, 48 + y, 48 + z]"
  unfolding reads_def
proof (intro allI impI)
  fix p r g
  from assms show "\<exists>ms. run U OCTET (p, [48 + x, 48 + y, 48 + z] @ r, g) =
        (after p [48 + x, 48 + y, 48 + z], r, g) # ms \<and> (\<forall>m \<in> set ms. digit_next U m)"
    by (auto simp: octet_run)
qed

lemma reads_OCTET:
  assumes "n < 256"
  shows "reads U OCTET (py_str_nat n)"
  using assms
proof (cases rule: octet_bound_split)
  case 1
  then show ?thesis by (simp add: py_str_nat_small reads_octet1)
next
  case 2
  then show ?thesis by (simp add: py_str_nat_small reads_octet2)
next
  case 3
  define x y z where "x = n div 100" and "y = n div 10 mod 10" and "z = n mod 10"
  have h: "n div 10 div 10 = x" unfolding x_def by (simp add: div_mult2_eq [symmetric])
  have t: "n div 10 = n div 10 div 10 * 10 + y"
    unfolding y_def by (rule div_mult_mod_eq [symmetric])
  have "n = n div 10 * 10 + z"
    unfolding z_def by (rule div_mult_mod_eq [symmetric])
  with t have n: "n = 100 * x + 10 * y + z" unfolding h by linarith
  have "y < 10" "z < 10" by (simp_all add: y_def z_def)
  with n 3 have "x = 1 \<or> x = 2" "x = 2 \<longrightarrow> y < 6" "x = 2 \<longrightarrow> y = 5 \<longrightarrow> z < 6" by linarith+
  then have "x = 1 \<or> x = 2 \<and> (y < 5 \<or> y = 5 \<and> z < 6)" by linarith
  then have "n div 100 = 1 \<or> n div 100 = 2 \<and> (n div 10 mod 10 < 5 \<or> n div 10 mod 10 = 5 \<and> n mod 10 < 6)"
    by (simp only: x_def y_def z_def)
  then have "reads U OCTET [48 + n div 100, 48 + n div 10 mod 10, 48 + n mod 10]"
    by (rule reads_octet3) auto
  then show ?thesis using 3 by (simp add: py_str_nat_small(3))
qed

text \<open>A field, a delimiter and a further field pattern are again a field pattern.\<close>

lemma reads_Seq:
  assumes "reads U x t" "reads U y u" "w \<noteq> []" "\<not> is_decimal U (hd w)"
  shows "reads U (Seq x (Seq (rlit w) y)) (t @ w @ u)"
  unfolding reads_def
proof (intro allI impI)
  fix p r g
  assume r: "r = [] \<or> \<not> is_decimal U (hd r)"
  have wr: "w @ u @ r = [] \<or> \<not> is_decimal U (hd (w @ u @ r))" using assms(3,4) by simp
  obtain ms where x: "run U x (p, t @ w @ u @ r, g) = (after p t, w @ u @ r, g) # ms"
    and ms: "\<And>m. m \<in> set ms \<Longrightarrow> digit_next U m"
    by (rule readsD [OF assms(1) wr]) blast
  obtain ns where y: "run U y (after p (t @ w), u @ r, g) = (after (after p (t @ w)) u, r, g) # ns"
    and ns: "\<And>m. m \<in> set ns \<Longrightarrow> digit_next U m"
    by (rule readsD [OF assms(2) r]) blast
  have "run U (Seq (rlit w) y) m = []" if "m \<in> set ms" for m
  proof -
    have "digit_next U m" using ms that by blast
    then obtain p' r' g' where m: "m = (p', r', g')" and "r' \<noteq> []" "is_decimal U (hd r')"
      by (cases m) (auto simp: digit_next_def)
    then have "\<not> py_startswith r' w" using assms(3,4) by (cases w; cases r') auto
    then show ?thesis by (simp add: m run_rlit)
  qed
  then have "concat (map (run U (Seq (rlit w) y)) ms) = []"
    by (rule concat_map_all_Nil)
  then have "run U (Seq x (Seq (rlit w) y)) (p, (t @ w @ u) @ r, g) =
      run U (Seq (rlit w) y) (after p t, w @ u @ r, g)"
    by (subst run.simps(3)) (simp only: append.assoc x list.map concat.simps append_Nil2)
  also have "\<dots> = (after p (t @ w @ u), r, g) # ns"
    by (simp only: run_delim after_simps y append.assoc)
  finally show "\<exists>ms. run U (Seq x (Seq (rlit w) y)) (p, (t @ w @ u) @ r, g) =
      (after p (t @ w @ u), r, g) # ms \<and> (\<forall>m \<in> set ms. digit_next U m)"
    using ns by blast
qed

lemma not_decimal_delims [simp]:
  "\<not> is_decimal U 46" "\<not> is_decimal U 58" "\<not> is_decimal U 45" "\<not> is_decimal U 41"
  "\<not> is_decimal U 44"
  by (simp_all add: is_decimal_def dec_val_def is_ascii_digit_def)

lemma reads_IPV4:
  assumes "a < 256" "b < 256" "c < 256" "d < 256"
  shows "reads U IPV4 (dotted a b c d)"
proof -
  have "reads U (Seq OCTET (Seq (rlit [46]) OCTET)) (py_str_nat c @ [46] @ py_str_nat d)"
    by (rule reads_Seq) (use assms in \<open>auto simp: reads_OCTET\<close>)
  then have "reads U (Seq OCTET (Seq (rlit [46]) (Seq OCTET (Seq (rlit [46]) OCTET))))
      (py_str_nat b @ [46] @ py_str_nat c @ [46] @ py_str_nat d)"
    by (rule reads_Seq [rotated]) (use assms in \<open>auto simp: reads_OCTET\<close>)
  then have "reads U (Seq OCTET (Seq (rlit [46]) (Seq OCTET (Seq (rlit [46]) (Seq OCTET (Seq (rlit [46]) OCTET))))))
      (py_str_nat a @ [46] @ py_str_nat b @ [46] @ py_str_nat c @ [46] @ py_str_nat d)"
    by (rule reads_Seq [rotated]) (use assms in \<open>auto simp: reads_OCTET\<close>)
  then show ?thesis by (simp add: IPV4_def dotted_def)
qed

lemma many_digits:
  assumes "list_all (is_decimal U) t" "length t \<le> h" "lo \<le> length t"
    and "r = [] \<or> \<not> is_decimal U (hd r)"
  shows "\<exists>ms. many U Digit lo (Some h) p (t @ r) g = (after p t, r, g) # ms \<and>
    (\<forall>m \<in> set ms. digit_next U m)"
  using assms(1-3)
proof (induction t arbitrary: lo h p)
  case Nil
  show ?case using Nil assms(4) by (cases r) auto
next
  case (Cons c t)
  then have "length t \<le> h - 1" "lo - 1 \<le> length t" by auto
  then obtain ms where
    "many U Digit (lo - 1) (Some (h - 1)) (Some c) (t @ r) g = (after (Some c) t, r, g) # ms"
    "\<forall>m \<in> set ms. digit_next U m"
    using Cons.IH [of "h - 1" "lo - 1" "Some c"] Cons.prems(1) by auto
  with Cons.prems show ?case by (auto simp: digit_next_def)
qed

lemma reads_PORT:
  assumes "t \<noteq> []" "length t \<le> 5" "list_all (is_decimal U) t"
  shows "reads U PORT t"
  using assms many_digits [of U t 5 1]
  by (auto simp: reads_def PORT_def Suc_leI)

lemma reads_PORT_number:
  assumes "n < 100000"
  shows "reads U PORT (py_str_nat n)"
  using assms by (intro reads_PORT) (auto simp: length_py_str_nat py_str_nat_decimal)

text \<open>Blanks up to a delimiter that is not one.\<close>

definition space_next :: "ucd \<Rightarrow> mstate \<Rightarrow> bool" where
  "space_next U m = (case m of (p, r, g) \<Rightarrow> r \<noteq> [] \<and> is_space U (hd r))"

lemma many_spaces:
  assumes "list_all (is_space U) ws" and "r = [] \<or> \<not> is_space U (hd r)"
  shows "\<exists>ms. many U Space 0 None p (ws @ r) g = (after p ws, r, g) # ms \<and>
    (\<forall>m \<in> set ms. space_next U m)"
  using assms(1)
proof (induction ws arbitrary: p)
  case Nil
  show ?case using assms(2) by (cases r) auto
next
  case (Cons c ws)
  then obtain ms where
    "many U Space 0 None (Some c) (ws @ r) g = (after (Some c) ws, r, g) # ms"
    "\<forall>m \<in> set ms. space_next U m"
    using Cons.IH [of "Some c"] Cons.prems by auto
  with Cons.prems show ?case by (auto simp: space_next_def)
qed

lemma run_spaces_delim:
  assumes "list_all (is_space U) ws" "w \<noteq> []" "\<not> is_space U (hd w)"
  shows "run U (Seq (Many Space 0 None) (Seq (rlit w) y)) (p, ws @ w @ r, g) =
         run U y (after p (ws @ w), r, g)"
proof -
  have wr: "w @ r = [] \<or> \<not> is_space U (hd (w @ r))" using assms(2,3) by simp
  obtain ms where m: "many U Space 0 None p (ws @ w @ r) g = (after p ws, w @ r, g) # ms"
    and ms: "\<forall>m \<in> set ms. space_next U m"
    using many_spaces [OF assms(1) wr] by blast
  have stuck: "run U (Seq (rlit w) y) x = []" if "x \<in> set ms" for x
  proof -
    have "space_next U x" using ms that by blast
    then obtain p' r' g' where x: "x = (p', r', g')" and "r' \<noteq> []" "is_space U (hd r')"
      by (cases x) (auto simp: space_next_def)
    then have "\<not> py_startswith r' w" using assms(2,3) by (cases w; cases r') auto
    then show ?thesis by (simp add: x run_rlit)
  qed
  have "run U (Seq (Many Space 0 None) (Seq (rlit w) y)) (p, ws @ w @ r, g) =
      run U (Seq (rlit w) y) (after p ws, w @ r, g) @ concat (map (run U (Seq (rlit w) y)) ms)"
    by (subst run.simps(3)) (simp only: run.simps(6) prod.case m list.map concat.simps)
  also have "concat (map (run U (Seq (rlit w) y)) ms) = []"
    by (rule concat_map_all_Nil) (rule stuck)
  finally show ?thesis by (simp only: run_delim append_Nil2 after_simps)
qed

lemma run_word_stuck: "\<not> py_startswith r w \<Longrightarrow> run U (Seq (rlit w) y) (p, r, g) = []"
  by (simp add: run_rlit)

text \<open>A field followed by anything but the delimiter the pattern wants.\<close>

lemma run_field_stuck:
  assumes "reads U x t" and "r = [] \<or> \<not> is_decimal U (hd r)"
    and "\<not> py_startswith r w" "w \<noteq> []" "\<not> is_decimal U (hd w)"
  shows "run U (Seq (Cap k x) (Seq (rlit w) y)) (p, t @ r, g) = []"
proof -
  obtain ms where run: "run U x (p, t @ r, g) = (after p t, r, g) # ms"
    and ms: "\<And>m. m \<in> set ms \<Longrightarrow> digit_next U m"
    by (rule readsD [OF assms(1,2)]) blast
  have "run U (Seq (rlit w) y) m = []" if "m \<in> set (map (close_cap k (t @ r)) ms)" for m
  proof -
    have "digit_next U m" using that ms by auto
    then obtain p' r' g' where m: "m = (p', r', g')" and "r' \<noteq> []" "is_decimal U (hd r')"
      by (cases m) (auto simp: digit_next_def)
    then have "\<not> py_startswith r' w" using assms(4,5) by (cases w; cases r') auto
    then show ?thesis by (simp add: m run_rlit)
  qed
  then have "concat (map (run U (Seq (rlit w) y)) (map (close_cap k (t @ r)) ms)) = []"
    by (rule concat_map_all_Nil)
  moreover have "run U (Seq (rlit w) y) (after p t, r, g(k \<mapsto> t)) = []"
    by (rule run_word_stuck) (rule assms(3))
  moreover have "run U (Cap k x) (p, t @ r, g) = (after p t, r, g(k \<mapsto> t)) # map (close_cap k (t @ r)) ms"
    by (simp add: run)
  ultimately show ?thesis
    by (subst run.simps(3)) (simp only: list.map concat.simps append_Nil)
qed

end
