(* ===== verification/Mikrotik.thy ===== *)
theory Mikrotik
  imports Patterns
begin

text \<open>
  \<open>backend/app/parser/mikrotik.py\<close>: the parser proper. The match of a NAT or plain line, the
  port conversion, the protocol and the subscriber, and the two public entry points, which
  turn every exception into the reason \<open>decode\<close>. The lemmas show what an accepted line says
  (soundness), which lines are accepted (completeness for both NAT shapes) and that the
  exception branch is never taken.
\<close>

section \<open>The parser\<close>

record MikroTikParser =
  require_nat :: bool
  subscriber_from_interface :: bool

definition PROTO_END :: "pystr" where
  "PROTO_END = [32, 44, 40, 41, 9, 13, 10]"

text \<open>The texts that a match assigns: addresses and ports, not yet converted.\<close>

record fields =
  f_pri :: pystr
  f_pri_port :: pystr
  f_pub :: pystr
  f_pub_port :: pystr
  f_dst :: pystr
  f_dst_port :: pystr

text \<open>The first half of \<open>_parse\<close>: which pattern matches, and what it captures.\<close>

definition match_fields :: "ucd \<Rightarrow> MikroTikParser \<Rightarrow> pystr \<Rightarrow> reason + fields" where
  "match_fields U P payload =
     (if py_find payload (lit ''NAT'') \<noteq> None then
        (case search U SRCNAT_PORTS payload of
           Some g \<Rightarrow>
             Inr \<lparr>f_pri = m_group g PRI, f_pri_port = m_group g PRI_PORT,
                  f_pub = m_group g PUB, f_pub_port = m_group g PUB_PORT,
                  f_dst = m_group g DST, f_dst_port = m_group g DST_PORT\<rparr>
         | None \<Rightarrow>
             (case search U SRCNAT_NOPORTS payload of
                None \<Rightarrow> Inl NO_MATCH
              | Some g \<Rightarrow>
                  Inr \<lparr>f_pri = m_group g PRI, f_pri_port = lit ''0'',
                       f_pub = m_group g PUB, f_pub_port = lit ''0'',
                       f_dst = m_group g DST, f_dst_port = lit ''0''\<rparr>))
      else if require_nat P then Inl NO_NAT
      else
        (case search U PLAIN_PORTS payload of
           Some g \<Rightarrow>
             Inr \<lparr>f_pri = m_group g PRI, f_pri_port = m_group g PRI_PORT,
                  f_pub = m_group g PRI, f_pub_port = m_group g PRI_PORT,
                  f_dst = m_group g DST, f_dst_port = m_group g DST_PORT\<rparr>
         | None \<Rightarrow>
             (case search U PLAIN_NOPORTS payload of
                None \<Rightarrow> Inl NO_MATCH
              | Some g \<Rightarrow>
                  Inr \<lparr>f_pri = m_group g PRI, f_pri_port = lit ''0'',
                       f_pub = m_group g PRI, f_pub_port = lit ''0'',
                       f_dst = m_group g DST, f_dst_port = lit ''0''\<rparr>)))"

definition protocol_of :: "ucd \<Rightarrow> pystr \<Rightarrow> pystr" where
  "protocol_of U payload =
     (case (case py_find payload (lit ''proto '') of
              None \<Rightarrow> map_option (\<lambda>g. m_group g GROUP1) (search U PROTOCOL payload)
            | Some i \<Rightarrow>
                (let raw = takeWhile (\<lambda>c. c \<notin> set PROTO_END) (drop (i + 6) payload)
                 in if raw = [] then None else Some raw)) of
        None \<Rightarrow> []
      | Some raw \<Rightarrow>
          if py_isdigit U raw then dict_get PROTO_NUMBERS raw raw else py_upper U raw)"

text \<open>The interface name: between \<open>in:<\<close> and \<open>>\<close>, or the fallback pattern's group.\<close>

definition iface_of :: "ucd \<Rightarrow> pystr \<Rightarrow> pystr option" where
  "iface_of U payload =
     (case py_find payload (lit ''in:<'') of
        Some i \<Rightarrow>
          (case py_find_from payload (lit ''>'') (i + 4) of
             Some j \<Rightarrow> Some (if j > 0 then py_slice payload (i + 4) j else [])
           | None \<Rightarrow> Some [])
      | None \<Rightarrow> map_option (\<lambda>g. m_group g GROUP1) (search U IN_INTERFACE payload))"

definition strip_session_prefix :: "bool \<Rightarrow> pystr \<Rightarrow> pystr" where
  "strip_session_prefix keep iface =
     (case find (py_startswith iface) SUBSCRIBER_PREFIXES of
        Some prefix \<Rightarrow> drop (length prefix) iface
      | None \<Rightarrow> if keep then iface else [])"

definition subscriber_of :: "ucd \<Rightarrow> MikroTikParser \<Rightarrow> pystr \<Rightarrow> pystr" where
  "subscriber_of U P payload =
     (case iface_of U payload of
        None \<Rightarrow> []
      | Some iface \<Rightarrow>
          if iface = [] then [] else strip_session_prefix (subscriber_from_interface P) iface)"

text \<open>\<open>_parse\<close>: \<open>int()\<close> is the one call in it that can raise.\<close>

definition do_parse :: "ucd \<Rightarrow> MikroTikParser \<Rightarrow> pystr \<Rightarrow> (ParsedLog option \<times> reason) result" where
  "do_parse U P payload =
     (case match_fields U P payload of
        Inl why \<Rightarrow> Inr (None, why)
      | Inr f \<Rightarrow>
          (case py_int U (f_pri_port f) of Inl e \<Rightarrow> Inl e | Inr pri_p \<Rightarrow>
          (case py_int U (f_pub_port f) of Inl e \<Rightarrow> Inl e | Inr pub_p \<Rightarrow>
          (case py_int U (f_dst_port f) of Inl e \<Rightarrow> Inl e | Inr dst_p \<Rightarrow>
             if pri_p > 65535 \<or> pub_p > 65535 \<or> dst_p > 65535 then Inr (None, NO_MATCH)
             else Inr (Some \<lparr>private_ip = f_pri f, private_port = pri_p,
                             public_ip = f_pub f, public_port = pub_p,
                             dest_ip = f_dst f, dest_port = dst_p,
                             protocol = protocol_of U payload,
                             subscriber_id = subscriber_of U P payload\<rparr>, OK)))))"

definition parse :: "ucd \<Rightarrow> MikroTikParser \<Rightarrow> pystr \<Rightarrow> ParsedLog option \<times> reason" where
  "parse U P payload = (case do_parse U P payload of Inl e \<Rightarrow> (None, DECODE) | Inr x \<Rightarrow> x)"

definition parse_bytes :: "ucd \<Rightarrow> MikroTikParser \<Rightarrow> pybytes \<Rightarrow> ParsedLog option \<times> reason" where
  "parse_bytes U P payload = parse U P (decode_replace payload)"

section \<open>What a match guarantees\<close>

text \<open>The declarative reading of a sequence, one element at a time.\<close>

lemma mtch_word: "mtch U (Seq (rlit w) y) t g g' \<longleftrightarrow> (\<exists>u. t = w @ u \<and> mtch U y u g g')"
  by auto

lemma mtch_addr:
  "mtch U (Seq (Cap k IPV4) y) t g g' \<Longrightarrow>
     \<exists>a u. t = a @ u \<and> canonical_ipv4 a \<and> mtch U y u (g(k \<mapsto> a)) g'"
  using mtch_IPV4 by (fastforce simp del: fun_upd_apply)

definition port_text :: "ucd \<Rightarrow> pystr \<Rightarrow> bool" where
  "port_text U t \<longleftrightarrow> t \<noteq> [] \<and> length t \<le> 5 \<and> list_all (is_decimal U) t"

lemma mtch_port:
  "mtch U (Seq (Cap k PORT) y) t g g' \<Longrightarrow>
     \<exists>a u. t = a @ u \<and> port_text U a \<and> mtch U y u (g(k \<mapsto> a)) g'"
  unfolding port_text_def using mtch_PORT by (fastforce simp del: fun_upd_apply)

lemma mtch_spaces:
  "mtch U (Seq (Many Space 0 None) y) t g g' \<Longrightarrow>
     \<exists>ws u. t = ws @ u \<and> list_all (is_space U) ws \<and> mtch U y u g g'"
  by (fastforce simp: list_all_iff)

lemma mtch_anchor:
  "mtch U (Seq NOT_ADDR_AFTER y) t g g' \<Longrightarrow> mtch U y t g g'"
  "mtch U (Seq NOT_ADDR_BEFORE y) t g g' \<Longrightarrow> mtch U y t g g'"
  by (auto simp: NOT_ADDR_AFTER_def NOT_ADDR_BEFORE_def)

lemma port_text_int: "port_text U t \<Longrightarrow> \<exists>n. py_int U t = Inr (int n)"
  unfolding port_text_def using py_int_decimal by blast

text \<open>The texts of the four shapes.\<close>

definition srcnat_ports_text ::
  "pystr \<Rightarrow> pystr \<Rightarrow> pystr \<Rightarrow> pystr \<Rightarrow> pystr \<Rightarrow> pystr \<Rightarrow> pystr \<Rightarrow> pystr"
where
  "srcnat_ports_text ws a ap b bp c cp =
     lit ''NAT'' @ ws @ lit ''('' @ a @ lit '':'' @ ap @ lit ''->'' @ b @ lit '':'' @ bp
     @ lit '')->'' @ c @ lit '':'' @ cp"

definition srcnat_noports_text :: "pystr \<Rightarrow> pystr \<Rightarrow> pystr \<Rightarrow> pystr \<Rightarrow> pystr" where
  "srcnat_noports_text ws a b c =
     lit ''NAT'' @ ws @ lit ''('' @ a @ lit ''->'' @ b @ lit '')->'' @ c"

definition plain_ports_text :: "pystr \<Rightarrow> pystr \<Rightarrow> pystr \<Rightarrow> pystr \<Rightarrow> pystr" where
  "plain_ports_text a ap c cp = a @ lit '':'' @ ap @ lit ''->'' @ c @ lit '':'' @ cp"

definition plain_noports_text :: "pystr \<Rightarrow> pystr \<Rightarrow> pystr" where
  "plain_noports_text a c = a @ lit ''->'' @ c"

lemma mtch_addr_word:
  "mtch U (Seq (Cap k IPV4) (Seq (rlit w) y)) t g g' \<Longrightarrow>
     \<exists>a u. t = a @ w @ u \<and> canonical_ipv4 a \<and> mtch U y u (g(k \<mapsto> a)) g'"
  unfolding mtch_word [symmetric] by (drule mtch_addr) (auto simp only: mtch_word)

lemma mtch_port_word:
  "mtch U (Seq (Cap k PORT) (Seq (rlit w) y)) t g g' \<Longrightarrow>
     \<exists>a u. t = a @ w @ u \<and> port_text U a \<and> mtch U y u (g(k \<mapsto> a)) g'"
  unfolding mtch_word [symmetric] by (drule mtch_port) (auto simp only: mtch_word)

lemma mtch_nat_head:
  "mtch U (Seq (rlit w) (Seq (Many Space 0 None) (Seq (rlit w') y))) t g g' \<Longrightarrow>
     \<exists>ws u. t = w @ ws @ w' @ u \<and> list_all (is_space U) ws \<and> mtch U y u g g'"
  unfolding mtch_word by (elim exE conjE, drule mtch_spaces) (auto simp only: mtch_word)

lemma search_SRCNAT_PORTS:
  assumes "search U SRCNAT_PORTS s = Some g"
  shows "\<exists>pre ws a ap b bp c cp post.
    s = pre @ srcnat_ports_text ws a ap b bp c cp @ post
    \<and> list_all (is_space U) ws
    \<and> canonical_ipv4 a \<and> canonical_ipv4 b \<and> canonical_ipv4 c
    \<and> port_text U ap \<and> port_text U bp \<and> port_text U cp
    \<and> m_group g PRI = a \<and> m_group g PRI_PORT = ap \<and> m_group g PUB = b \<and> m_group g PUB_PORT = bp
    \<and> m_group g DST = c \<and> m_group g DST_PORT = cp"
proof -
  let ?r1 = "Seq (Cap DST_PORT PORT) RxNil"
  let ?r2 = "Seq (Cap DST IPV4) (Seq (word '':'') ?r1)"
  let ?r3 = "Seq (Cap PUB_PORT PORT) (Seq (word '')->'') ?r2)"
  let ?r4 = "Seq (Cap PUB IPV4) (Seq (word '':'') ?r3)"
  let ?r5 = "Seq (Cap PRI_PORT PORT) (Seq (word ''->'') ?r4)"
  let ?r6 = "Seq (Cap PRI IPV4) (Seq (word '':'') ?r5)"
  obtain pre t post where s: "s = pre @ t @ post" and m: "mtch U SRCNAT_PORTS t Map.empty g"
    using search_sound [OF assms] by blast
  obtain ws t6 where 6: "t = lit ''NAT'' @ ws @ lit ''('' @ t6" "list_all (is_space U) ws"
    and m6: "mtch U ?r6 t6 Map.empty g"
    using mtch_nat_head [OF m [unfolded SRCNAT_PORTS_def seqs.simps]] by blast
  obtain a t5 where 5: "t6 = a @ lit '':'' @ t5" "canonical_ipv4 a"
    and m5: "mtch U ?r5 t5 (Map.empty(PRI \<mapsto> a)) g"
    using mtch_addr_word [OF m6] by blast
  obtain ap t4 where 4: "t5 = ap @ lit ''->'' @ t4" "port_text U ap"
    and m4: "mtch U ?r4 t4 (Map.empty(PRI \<mapsto> a, PRI_PORT \<mapsto> ap)) g"
    using mtch_port_word [OF m5] by blast
  obtain b t3 where 3: "t4 = b @ lit '':'' @ t3" "canonical_ipv4 b"
    and m3: "mtch U ?r3 t3 (Map.empty(PRI \<mapsto> a, PRI_PORT \<mapsto> ap, PUB \<mapsto> b)) g"
    using mtch_addr_word [OF m4] by blast
  obtain bp t2 where 2: "t3 = bp @ lit '')->'' @ t2" "port_text U bp"
    and m2: "mtch U ?r2 t2 (Map.empty(PRI \<mapsto> a, PRI_PORT \<mapsto> ap, PUB \<mapsto> b, PUB_PORT \<mapsto> bp)) g"
    using mtch_port_word [OF m3] by blast
  obtain c t1 where 1: "t2 = c @ lit '':'' @ t1" "canonical_ipv4 c"
    and m1: "mtch U ?r1 t1 (Map.empty(PRI \<mapsto> a, PRI_PORT \<mapsto> ap, PUB \<mapsto> b, PUB_PORT \<mapsto> bp, DST \<mapsto> c)) g"
    using mtch_addr_word [OF m2] by blast
  obtain cp t0 where 0: "t1 = cp @ t0" "port_text U cp"
    and m0: "mtch U RxNil t0 (Map.empty(PRI \<mapsto> a, PRI_PORT \<mapsto> ap, PUB \<mapsto> b, PUB_PORT \<mapsto> bp, DST \<mapsto> c, DST_PORT \<mapsto> cp)) g"
    using mtch_port [OF m1] by blast
  have "s = pre @ srcnat_ports_text ws a ap b bp c cp @ post"
    using m0 by (simp only: s 6 5 4 3 2 1 0 srcnat_ports_text_def append.assoc mtch.simps append_Nil)
  moreover have "m_group g PRI = a" "m_group g PRI_PORT = ap" "m_group g PUB = b"
    "m_group g PUB_PORT = bp" "m_group g DST = c" "m_group g DST_PORT = cp"
    using m0 by (simp_all add: m_group_def)
  ultimately show ?thesis using 6(2) 5(2) 4(2) 3(2) 2(2) 1(2) 0(2) by blast
qed

lemma search_SRCNAT_NOPORTS:
  assumes "search U SRCNAT_NOPORTS s = Some g"
  shows "\<exists>pre ws a b c post.
    s = pre @ srcnat_noports_text ws a b c @ post
    \<and> list_all (is_space U) ws
    \<and> canonical_ipv4 a \<and> canonical_ipv4 b \<and> canonical_ipv4 c
    \<and> m_group g PRI = a \<and> m_group g PUB = b \<and> m_group g DST = c"
proof -
  let ?r1 = "Seq (Cap DST IPV4) (Seq NOT_ADDR_AFTER RxNil)"
  let ?r2 = "Seq (Cap PUB IPV4) (Seq (word '')->'') ?r1)"
  let ?r3 = "Seq (Cap PRI IPV4) (Seq (word ''->'') ?r2)"
  obtain pre t post where s: "s = pre @ t @ post" and m: "mtch U SRCNAT_NOPORTS t Map.empty g"
    using search_sound [OF assms] by blast
  obtain ws t3 where 3: "t = lit ''NAT'' @ ws @ lit ''('' @ t3" "list_all (is_space U) ws"
    and m3: "mtch U ?r3 t3 Map.empty g"
    using mtch_nat_head [OF m [unfolded SRCNAT_NOPORTS_def seqs.simps]] by blast
  obtain a t2 where 2: "t3 = a @ lit ''->'' @ t2" "canonical_ipv4 a"
    and m2: "mtch U ?r2 t2 (Map.empty(PRI \<mapsto> a)) g"
    using mtch_addr_word [OF m3] by blast
  obtain b t1 where 1: "t2 = b @ lit '')->'' @ t1" "canonical_ipv4 b"
    and m1: "mtch U ?r1 t1 (Map.empty(PRI \<mapsto> a, PUB \<mapsto> b)) g"
    using mtch_addr_word [OF m2] by blast
  obtain c t0 where 0: "t1 = c @ t0" "canonical_ipv4 c"
    and "mtch U (Seq NOT_ADDR_AFTER RxNil) t0 (Map.empty(PRI \<mapsto> a, PUB \<mapsto> b, DST \<mapsto> c)) g"
    using mtch_addr [OF m1] by blast
  from mtch_anchor(1) [OF this(3)]
  have m0: "mtch U RxNil t0 (Map.empty(PRI \<mapsto> a, PUB \<mapsto> b, DST \<mapsto> c)) g" .
  have "s = pre @ srcnat_noports_text ws a b c @ post"
    using m0 by (simp only: s 3 2 1 0 srcnat_noports_text_def append.assoc mtch.simps append_Nil)
  moreover have "m_group g PRI = a" "m_group g PUB = b" "m_group g DST = c"
    using m0 by (simp_all add: m_group_def)
  ultimately show ?thesis using 3(2) 2(2) 1(2) 0(2) by blast
qed

lemma search_PLAIN_PORTS:
  assumes "search U PLAIN_PORTS s = Some g"
  shows "\<exists>pre a ap c cp post.
    s = pre @ plain_ports_text a ap c cp @ post
    \<and> canonical_ipv4 a \<and> canonical_ipv4 c \<and> port_text U ap \<and> port_text U cp
    \<and> m_group g PRI = a \<and> m_group g PRI_PORT = ap \<and> m_group g DST = c \<and> m_group g DST_PORT = cp"
proof -
  let ?r1 = "Seq (Cap DST_PORT PORT) RxNil"
  let ?r2 = "Seq (Cap DST IPV4) (Seq (word '':'') ?r1)"
  let ?r3 = "Seq (Cap PRI_PORT PORT) (Seq (word ''->'') ?r2)"
  let ?r4 = "Seq (Cap PRI IPV4) (Seq (word '':'') ?r3)"
  obtain pre t post where s: "s = pre @ t @ post" and "mtch U PLAIN_PORTS t Map.empty g"
    using search_sound [OF assms] by blast
  from mtch_anchor(2) [OF this(2) [unfolded PLAIN_PORTS_def seqs.simps]]
  have m4: "mtch U ?r4 t Map.empty g" .
  obtain a t3 where 3: "t = a @ lit '':'' @ t3" "canonical_ipv4 a"
    and m3: "mtch U ?r3 t3 (Map.empty(PRI \<mapsto> a)) g"
    using mtch_addr_word [OF m4] by blast
  obtain ap t2 where 2: "t3 = ap @ lit ''->'' @ t2" "port_text U ap"
    and m2: "mtch U ?r2 t2 (Map.empty(PRI \<mapsto> a, PRI_PORT \<mapsto> ap)) g"
    using mtch_port_word [OF m3] by blast
  obtain c t1 where 1: "t2 = c @ lit '':'' @ t1" "canonical_ipv4 c"
    and m1: "mtch U ?r1 t1 (Map.empty(PRI \<mapsto> a, PRI_PORT \<mapsto> ap, DST \<mapsto> c)) g"
    using mtch_addr_word [OF m2] by blast
  obtain cp t0 where 0: "t1 = cp @ t0" "port_text U cp"
    and m0: "mtch U RxNil t0 (Map.empty(PRI \<mapsto> a, PRI_PORT \<mapsto> ap, DST \<mapsto> c, DST_PORT \<mapsto> cp)) g"
    using mtch_port [OF m1] by blast
  have "s = pre @ plain_ports_text a ap c cp @ post"
    using m0 by (simp only: s 3 2 1 0 plain_ports_text_def append.assoc mtch.simps append_Nil)
  moreover have "m_group g PRI = a" "m_group g PRI_PORT = ap" "m_group g DST = c"
    "m_group g DST_PORT = cp"
    using m0 by (simp_all add: m_group_def)
  ultimately show ?thesis using 3(2) 2(2) 1(2) 0(2) by blast
qed

lemma search_PLAIN_NOPORTS:
  assumes "search U PLAIN_NOPORTS s = Some g"
  shows "\<exists>pre a c post.
    s = pre @ plain_noports_text a c @ post
    \<and> canonical_ipv4 a \<and> canonical_ipv4 c \<and> m_group g PRI = a \<and> m_group g DST = c"
proof -
  let ?r1 = "Seq (Cap DST IPV4) (Seq NOT_ADDR_AFTER RxNil)"
  let ?r2 = "Seq (Cap PRI IPV4) (Seq (word ''->'') ?r1)"
  obtain pre t post where s: "s = pre @ t @ post" and "mtch U PLAIN_NOPORTS t Map.empty g"
    using search_sound [OF assms] by blast
  from mtch_anchor(2) [OF this(2) [unfolded PLAIN_NOPORTS_def seqs.simps]]
  have m2: "mtch U ?r2 t Map.empty g" .
  obtain a t1 where 1: "t = a @ lit ''->'' @ t1" "canonical_ipv4 a"
    and m1: "mtch U ?r1 t1 (Map.empty(PRI \<mapsto> a)) g"
    using mtch_addr_word [OF m2] by blast
  obtain c t0 where 0: "t1 = c @ t0" "canonical_ipv4 c"
    and "mtch U (Seq NOT_ADDR_AFTER RxNil) t0 (Map.empty(PRI \<mapsto> a, DST \<mapsto> c)) g"
    using mtch_addr [OF m1] by blast
  from mtch_anchor(1) [OF this(3)]
  have m0: "mtch U RxNil t0 (Map.empty(PRI \<mapsto> a, DST \<mapsto> c)) g" .
  have "s = pre @ plain_noports_text a c @ post"
    using m0 by (simp only: s 1 0 plain_noports_text_def append.assoc mtch.simps append_Nil)
  moreover have "m_group g PRI = a" "m_group g DST = c"
    using m0 by (simp_all add: m_group_def)
  ultimately show ?thesis using 1(2) 0(2) by blast
qed

text \<open>Whatever pattern matched, the captures are canonical addresses and convertible ports.\<close>

definition fields_ok :: "ucd \<Rightarrow> fields \<Rightarrow> bool" where
  "fields_ok U f \<longleftrightarrow>
     canonical_ipv4 (f_pri f) \<and> canonical_ipv4 (f_pub f) \<and> canonical_ipv4 (f_dst f)
     \<and> port_text U (f_pri_port f) \<and> port_text U (f_pub_port f) \<and> port_text U (f_dst_port f)"

lemma port_text_zero: "port_text U (lit ''0'')" "port_text U [48]"
  by (simp_all add: port_text_def decimal_ascii_range)

lemma match_fields_ok: "match_fields U P s = Inr f \<Longrightarrow> fields_ok U f"
  by (auto simp: match_fields_def fields_ok_def port_text_zero split: if_splits option.splits
      dest!: search_SRCNAT_PORTS search_SRCNAT_NOPORTS search_PLAIN_PORTS search_PLAIN_NOPORTS)

lemma match_fields_reason: "match_fields U P s = Inl why \<Longrightarrow> why = NO_MATCH \<or> why = NO_NAT"
  by (auto simp: match_fields_def split: if_splits option.splits)

text \<open>No conversion in \<open>_parse\<close> raises.\<close>

lemma do_parse_total: "\<exists>x. do_parse U P s = Inr x"
proof (cases "match_fields U P s")
  case (Inl why)
  then show ?thesis by (simp add: do_parse_def)
next
  case (Inr f)
  from match_fields_ok [OF this] obtain i j k where
    "py_int U (f_pri_port f) = Inr (int i)" "py_int U (f_pub_port f) = Inr (int j)"
    "py_int U (f_dst_port f) = Inr (int k)"
    using port_text_int unfolding fields_ok_def by metis
  with Inr show ?thesis by (simp add: do_parse_def)
qed

lemma parse_cases:
  "parse U P s =
     (case match_fields U P s of
        Inl why \<Rightarrow> (None, why)
      | Inr f \<Rightarrow>
          (let pri_p = ok_or 0 (py_int U (f_pri_port f));
               pub_p = ok_or 0 (py_int U (f_pub_port f));
               dst_p = ok_or 0 (py_int U (f_dst_port f))
           in if pri_p > 65535 \<or> pub_p > 65535 \<or> dst_p > 65535 then (None, NO_MATCH)
              else (Some \<lparr>private_ip = f_pri f, private_port = pri_p,
                          public_ip = f_pub f, public_port = pub_p,
                          dest_ip = f_dst f, dest_port = dst_p,
                          protocol = protocol_of U s, subscriber_id = subscriber_of U P s\<rparr>, OK)))"
proof (cases "match_fields U P s")
  case (Inl why)
  then show ?thesis by (simp add: parse_def do_parse_def)
next
  case (Inr f)
  from match_fields_ok [OF this] obtain i j k where
    "py_int U (f_pri_port f) = Inr (int i)" "py_int U (f_pub_port f) = Inr (int j)"
    "py_int U (f_dst_port f) = Inr (int k)"
    using port_text_int unfolding fields_ok_def by metis
  with Inr show ?thesis by (simp add: parse_def do_parse_def)
qed

section \<open>Which lines are accepted\<close>

lemma reads_canonical: "canonical_ipv4 a \<Longrightarrow> reads U IPV4 a"
  by (auto simp: canonical_ipv4_def reads_IPV4)

lemma reads_port_number: "n \<le> 65535 \<Longrightarrow> reads U PORT (py_str_nat n)"
  by (rule reads_PORT_number) simp

lemma delims [simp]:
  "lit '':'' \<noteq> []" "lit ''->'' \<noteq> []" "lit '')->'' \<noteq> []" "lit ''('' \<noteq> []"
  "\<not> is_decimal U (hd (lit '':''))" "\<not> is_decimal U (hd (lit ''->''))"
  "\<not> is_decimal U (hd (lit '')->''))" "\<not> is_space U (hd (lit ''(''))"
  by (simp_all add: is_space_def)

text \<open>
  Reading the last port: the pattern's first way to match takes \<open>t\<close> and leaves \<open>post\<close>.
  So it is for a port that ends there, and also for five digits of a longer run of digits.
\<close>

definition port_first :: "ucd \<Rightarrow> pystr \<Rightarrow> pystr \<Rightarrow> bool" where
  "port_first U t post \<longleftrightarrow>
     (\<forall>p g. \<exists>ms. run U PORT (p, t @ post, g) = (after p t, post, g) # ms)"

lemma port_first_end:
  "n \<le> 65535 \<Longrightarrow> post = [] \<or> \<not> is_decimal U (hd post) \<Longrightarrow> port_first U (py_str_nat n) post"
  unfolding port_first_def using reads_port_number [of n U] by (metis readsD)

lemma many_full:
  "list_all (is_decimal U) t \<Longrightarrow> lo \<le> length t \<Longrightarrow>
   \<exists>ms. many U Digit lo (Some (length t)) p (t @ r) g = (after p t, r, g) # ms"
proof (induction t arbitrary: lo p)
  case (Cons c t)
  then have "lo - 1 \<le> length t" by simp
  then obtain ms where
    "many U Digit (lo - 1) (Some (length t)) (Some c) (t @ r) g = (after (Some c) t, r, g) # ms"
    using Cons.IH [of "lo - 1" "Some c"] Cons.prems(1) by auto
  with Cons.prems show ?case by auto
qed simp

lemma port_first_five:
  "list_all (is_decimal U) t \<Longrightarrow> length t = 5 \<Longrightarrow> port_first U t post"
  unfolding port_first_def PORT_def using many_full [of U t 1] by simp

text \<open>The ports pattern on its own shape, and a position without \<open>NAT\<close>.\<close>

lemma run_SRCNAT_PORTS:
  assumes "list_all (is_space U) ws" "canonical_ipv4 a" "canonical_ipv4 b" "canonical_ipv4 c"
    and "i \<le> 65535" "j \<le> 65535" "port_first U cp post"
  shows "\<exists>p' ms. run U SRCNAT_PORTS
      (p, srcnat_ports_text ws a (py_str_nat i) b (py_str_nat j) c cp @ post, Map.empty) =
    (p', post, Map.empty(PRI \<mapsto> a, PRI_PORT \<mapsto> py_str_nat i, PUB \<mapsto> b, PUB_PORT \<mapsto> py_str_nat j,
                        DST \<mapsto> c, DST_PORT \<mapsto> cp)) # ms"
proof -
  note ra = reads_canonical [OF assms(2)] reads_canonical [OF assms(3)] reads_canonical [OF assms(4)]
  note rp = reads_port_number [OF assms(5)] reads_port_number [OF assms(6)]
  let ?g = "Map.empty(PRI \<mapsto> a, PRI_PORT \<mapsto> py_str_nat i, PUB \<mapsto> b, PUB_PORT \<mapsto> py_str_nat j, DST \<mapsto> c)"
  obtain q where "run U SRCNAT_PORTS
      (p, srcnat_ports_text ws a (py_str_nat i) b (py_str_nat j) c cp @ post, Map.empty) =
      run U (Seq (Cap DST_PORT PORT) RxNil) (q, cp @ post, ?g)"
    unfolding SRCNAT_PORTS_def seqs.simps srcnat_ports_text_def append.assoc
    by (simp only: run_delim run_spaces_delim [OF assms(1) delims(4,8)]
        run_field_delim [OF ra(1)] run_field_delim [OF ra(2)] run_field_delim [OF ra(3)]
        run_field_delim [OF rp(1)] run_field_delim [OF rp(2)] delims not_False_eq_True simp_thms)
  moreover obtain ms where "run U PORT (q, cp @ post, ?g) = (after q cp, post, ?g) # ms"
    using assms(7) unfolding port_first_def by blast
  then have "run U (Cap DST_PORT PORT) (q, cp @ post, ?g) =
      (after q cp, post, ?g(DST_PORT \<mapsto> cp)) # map (close_cap DST_PORT (cp @ post)) ms"
    by (simp only: run.simps(7) prod.case list.map close_cap_append)
  ultimately show ?thesis
    by (simp only: run.simps(1,3) list.map concat.simps append_Cons append_Nil) blast
qed

lemma run_nat_stuck:
  "\<not> py_startswith r (lit ''NAT'') \<Longrightarrow> run U SRCNAT_PORTS (p, r, g) = []"
  "\<not> py_startswith r (lit ''NAT'') \<Longrightarrow> run U SRCNAT_NOPORTS (p, r, g) = []"
  unfolding SRCNAT_PORTS_def SRCNAT_NOPORTS_def seqs.simps by (rule run_word_stuck, assumption)+

text \<open>Up to the first \<open>NAT\<close> the search only moves on.\<close>

lemma search_first_nat:
  assumes "py_find (pre @ s) (lit ''NAT'') = Some (length pre)"
    and "\<And>p r. \<not> py_startswith r (lit ''NAT'') \<Longrightarrow> run U x (p, r, Map.empty) = []"
  shows "search U x (pre @ s) = search_from U x (after None pre) s"
  unfolding search_def
  by (rule search_from_skip [OF assms(2)]) (use py_find_least [OF assms(1)] in auto)

lemma search_from_hit:
  "run U x (p, s, Map.empty) = (q, r, g) # ms \<Longrightarrow> search_from U x p s = Some g"
  by (cases s) auto

lemma search_SRCNAT_PORTS_line:
  assumes "py_find (pre @ srcnat_ports_text ws a (py_str_nat i) b (py_str_nat j) c cp @ post)
      (lit ''NAT'') = Some (length pre)"
    and "list_all (is_space U) ws" "canonical_ipv4 a" "canonical_ipv4 b" "canonical_ipv4 c"
    and "i \<le> 65535" "j \<le> 65535" "port_first U cp post"
  shows "search U SRCNAT_PORTS
      (pre @ srcnat_ports_text ws a (py_str_nat i) b (py_str_nat j) c cp @ post) =
    Some (Map.empty(PRI \<mapsto> a, PRI_PORT \<mapsto> py_str_nat i, PUB \<mapsto> b, PUB_PORT \<mapsto> py_str_nat j,
                    DST \<mapsto> c, DST_PORT \<mapsto> cp))"
  using run_SRCNAT_PORTS [OF assms(2-8), of "after None pre"]
  by (subst search_first_nat [OF assms(1) run_nat_stuck(1)]) (auto dest: search_from_hit)

text \<open>What \<open>parse\<close> makes of such a line.\<close>

lemma parse_of_SRCNAT_PORTS:
  assumes "py_find s (lit ''NAT'') \<noteq> None"
    and "search U SRCNAT_PORTS s =
      Some (Map.empty(PRI \<mapsto> a, PRI_PORT \<mapsto> py_str_nat i, PUB \<mapsto> b, PUB_PORT \<mapsto> py_str_nat j,
                      DST \<mapsto> c, DST_PORT \<mapsto> py_str_nat k))"
    and "i \<le> 65535" "j \<le> 65535" "k \<le> 65535"
  shows "parse U P s =
    (Some \<lparr>private_ip = a, private_port = int i, public_ip = b, public_port = int j,
           dest_ip = c, dest_port = int k,
           protocol = protocol_of U s, subscriber_id = subscriber_of U P s\<rparr>, OK)"
  using assms by (simp add: parse_cases match_fields_def m_group_def py_int_py_str_nat Let_def)

text \<open>A translation without ports, alone in its line.\<close>

lemma run_SRCNAT_PORTS_noports:
  assumes "list_all (is_space U) ws" "canonical_ipv4 a"
  shows "run U SRCNAT_PORTS (p, srcnat_noports_text ws a b c @ post, g) = []"
proof -
  have w: "\<not> py_startswith (lit ''->'' @ r) (lit '':'')" "\<not> is_decimal U (hd (lit ''->'' @ r))" for r
    by simp_all
  show ?thesis
    unfolding SRCNAT_PORTS_def seqs.simps srcnat_noports_text_def append.assoc
    by (simp only: run_delim run_spaces_delim [OF assms(1) delims(4,8)])
       (rule run_field_stuck [OF reads_canonical [OF assms(2)]], use w in simp_all)
qed

lemma run_NOT_ADDR_AFTER:
  "post = [] \<or> \<not> in_cset U (AnyOf [Digit, Is 46, Is 58]) (hd post) \<Longrightarrow>
   run U (Seq NOT_ADDR_AFTER RxNil) (p, post, g) = [(p, post, g)]"
  by (cases post) (auto simp: NOT_ADDR_AFTER_def next_char_def in_opt_def)

lemma run_SRCNAT_NOPORTS:
  assumes "list_all (is_space U) ws" "canonical_ipv4 a" "canonical_ipv4 b" "canonical_ipv4 c"
    and post: "post = [] \<or> \<not> in_cset U (AnyOf [Digit, Is 46, Is 58]) (hd post)"
  shows "\<exists>q ms. run U SRCNAT_NOPORTS (p, srcnat_noports_text ws a b c @ post, Map.empty) =
    (q, post, Map.empty(PRI \<mapsto> a, PUB \<mapsto> b, DST \<mapsto> c)) # ms"
proof -
  note ra = reads_canonical [OF assms(2)] reads_canonical [OF assms(3)] reads_canonical [OF assms(4)]
  obtain q where q: "run U SRCNAT_NOPORTS (p, srcnat_noports_text ws a b c @ post, Map.empty) =
      run U (Seq (Cap DST IPV4) (Seq NOT_ADDR_AFTER RxNil)) (q, c @ post, Map.empty(PRI \<mapsto> a, PUB \<mapsto> b))"
    unfolding SRCNAT_NOPORTS_def seqs.simps srcnat_noports_text_def append.assoc
    by (simp only: run_delim run_spaces_delim [OF assms(1) delims(4,8)]
        run_field_delim [OF ra(1)] run_field_delim [OF ra(2)] delims not_False_eq_True simp_thms)
  have "post = [] \<or> \<not> is_decimal U (hd post)" using post by auto
  from run_field_end [OF ra(3) this] obtain ms where
    "run U (Cap DST IPV4) (q, c @ post, Map.empty(PRI \<mapsto> a, PUB \<mapsto> b)) =
      (after q c, post, Map.empty(PRI \<mapsto> a, PUB \<mapsto> b, DST \<mapsto> c)) # ms" by blast
  then show ?thesis
    unfolding q run.simps(3) [of U "Cap DST IPV4"]
    by (simp only: list.map concat.simps run_NOT_ADDR_AFTER [OF post] append_Cons) blast
qed

lemma search_none_after:
  assumes "py_find s (lit ''NAT'') = None"
    and "\<And>p r. \<not> py_startswith r (lit ''NAT'') \<Longrightarrow> run U x (p, r, Map.empty) = []"
  shows "search_from U x p s = None"
  by (rule search_from_None [OF assms(2)]) (use py_find_None [OF assms(1)] in auto)

lemma search_SRCNAT_NOPORTS_line:
  assumes first: "py_find (pre @ srcnat_noports_text ws a b c @ post) (lit ''NAT'') = Some (length pre)"
    and last: "py_find (drop (Suc (length pre)) (pre @ srcnat_noports_text ws a b c @ post)) (lit ''NAT'') = None"
    and "list_all (is_space U) ws" "canonical_ipv4 a" "canonical_ipv4 b" "canonical_ipv4 c"
    and post: "post = [] \<or> \<not> in_cset U (AnyOf [Digit, Is 46, Is 58]) (hd post)"
  shows "search U SRCNAT_PORTS (pre @ srcnat_noports_text ws a b c @ post) = None"
    and "search U SRCNAT_NOPORTS (pre @ srcnat_noports_text ws a b c @ post) =
      Some (Map.empty(PRI \<mapsto> a, PUB \<mapsto> b, DST \<mapsto> c))"
proof -
  let ?t = "srcnat_noports_text ws a b c @ post"
  obtain t' where t: "?t = of_char (CHR ''N'') # t'" by (simp add: srcnat_noports_text_def)
  have "search U SRCNAT_PORTS (pre @ ?t) = search_from U SRCNAT_PORTS (after None pre) ?t"
    by (rule search_first_nat [OF first run_nat_stuck(1)])
  also have "\<dots> = search_from U SRCNAT_PORTS (Some (of_char (CHR ''N''))) t'"
    using run_SRCNAT_PORTS_noports [OF assms(3,4), of "after None pre" b c post Map.empty]
    unfolding t by simp
  also have "\<dots> = None"
    by (rule search_none_after [OF _ run_nat_stuck(1)]) (use last in \<open>simp only: t, simp\<close>)
  finally show "search U SRCNAT_PORTS (pre @ ?t) = None" .
  have "search U SRCNAT_NOPORTS (pre @ ?t) = search_from U SRCNAT_NOPORTS (after None pre) ?t"
    by (rule search_first_nat [OF first run_nat_stuck(2)])
  with run_SRCNAT_NOPORTS [OF assms(3-7), of "after None pre"]
  show "search U SRCNAT_NOPORTS (pre @ ?t) = Some (Map.empty(PRI \<mapsto> a, PUB \<mapsto> b, DST \<mapsto> c))"
    by (metis search_from_hit)
qed

section \<open>Properties of the parser\<close>

definition default_parser :: MikroTikParser where
  "default_parser = \<lparr>require_nat = True, subscriber_from_interface = False\<rparr>"

definition sample_head :: pystr where
  "sample_head = lit ''forward: in:<pppoe-P2-musa> out:vlan2436, proto TCP (SYN), ''"

text \<open>The record of an accepted line is well-formed.\<close>

lemma parse_record_ok:
  assumes "parse U P s = (Some r, why)"
  shows "why = OK
    \<and> canonical_ipv4 (private_ip r) \<and> canonical_ipv4 (public_ip r) \<and> canonical_ipv4 (dest_ip r)
    \<and> valid_ipv4 (private_ip r) \<and> valid_ipv4 (public_ip r) \<and> valid_ipv4 (dest_ip r)
    \<and> valid_port (private_port r) \<and> valid_port (public_port r) \<and> valid_port (dest_port r)"
proof -
  obtain f where f: "match_fields U P s = Inr f"
    using assms by (auto simp: parse_cases split: sum.splits)
  from match_fields_ok [OF f] obtain i j k where
    "py_int U (f_pri_port f) = Inr (int i)" "py_int U (f_pub_port f) = Inr (int j)"
    "py_int U (f_dst_port f) = Inr (int k)"
    using port_text_int unfolding fields_ok_def by metis
  with assms f match_fields_ok [OF f] show ?thesis
    by (auto simp: parse_cases fields_ok_def valid_port_def canonical_valid Let_def split: if_splits)
qed

text \<open>C7 (parse_sound): Every record the parser returns carries three canonical dotted-quad addresses (no leading zeros, each octet at most 255, accepted by base.valid_ipv4) and three ports between 0 and 65535, and the reason is the empty string.\<close>

theorem parse_sound:
  assumes "parse U P s = (Some r, why)"
  shows "why = OK
    \<and> canonical_ipv4 (private_ip r) \<and> canonical_ipv4 (public_ip r) \<and> canonical_ipv4 (dest_ip r)
    \<and> valid_ipv4 (private_ip r) \<and> valid_ipv4 (public_ip r) \<and> valid_ipv4 (dest_ip r)
    \<and> valid_port (private_port r) \<and> valid_port (public_port r) \<and> valid_port (dest_port r)"
  using assms by (rule parse_record_ok)

theorem parse_sound_witness:
  "\<exists>r. parse ascii_only default_parser (lit ''NAT (10.0.0.1:5->1.2.3.4:6)->8.8.8.8:53'') = (Some r, OK)
     \<and> valid_ipv4 (public_ip r) \<and> valid_port (public_port r)"
proof -
  let ?s = "lit ''NAT (10.0.0.1:5->1.2.3.4:6)->8.8.8.8:53''"
  let ?r = "\<lparr>private_ip = lit ''10.0.0.1'', private_port = 5, public_ip = lit ''1.2.3.4'',
    public_port = 6, dest_ip = lit ''8.8.8.8'', dest_port = 53, protocol = [], subscriber_id = []\<rparr>"
  have "parse ascii_only default_parser ?s = (Some ?r, OK)" by code_simp
  from this parse_sound [OF this] show ?thesis by blast
qed

text \<open>C11 (parse_text_order): A record made from a line with NAT is read off one stretch of the line, in the order private endpoint, public endpoint, destination: the destination is never swapped with the public endpoint, and the ports are the numbers written there (or 0 in the form without ports).\<close>

theorem parse_text_order:
  assumes "parse U P s = (Some r, why)" and "py_find s (lit ''NAT'') \<noteq> None"
  shows "(\<exists>pre ws ap bp cp post.
      s = pre @ srcnat_ports_text ws (private_ip r) ap (public_ip r) bp (dest_ip r) cp @ post
      \<and> list_all (is_space U) ws
      \<and> py_int U ap = Inr (private_port r) \<and> py_int U bp = Inr (public_port r)
      \<and> py_int U cp = Inr (dest_port r))
    \<or> (\<exists>pre ws post.
      s = pre @ srcnat_noports_text ws (private_ip r) (public_ip r) (dest_ip r) @ post
      \<and> list_all (is_space U) ws
      \<and> private_port r = 0 \<and> public_port r = 0 \<and> dest_port r = 0)"
proof (cases "search U SRCNAT_PORTS s")
  case (Some g)
  from search_SRCNAT_PORTS [OF this] obtain pre ws ap bp cp post where
    s: "s = pre @ srcnat_ports_text ws (m_group g PRI) ap (m_group g PUB) bp (m_group g DST) cp @ post"
    and p: "list_all (is_space U) ws" "port_text U ap" "port_text U bp" "port_text U cp"
      "m_group g PRI_PORT = ap" "m_group g PUB_PORT = bp" "m_group g DST_PORT = cp" by blast
  from p(2-4) obtain i j k where
    "py_int U ap = Inr (int i)" "py_int U bp = Inr (int j)" "py_int U cp = Inr (int k)"
    using port_text_int by metis
  with assms Some p have "private_ip r = m_group g PRI" "public_ip r = m_group g PUB"
    "dest_ip r = m_group g DST" "py_int U ap = Inr (private_port r)"
    "py_int U bp = Inr (public_port r)" "py_int U cp = Inr (dest_port r)"
    by (auto simp: parse_cases match_fields_def Let_def split: if_splits)
  with s p(1) show ?thesis by metis
next
  case None
  then obtain g where g: "search U SRCNAT_NOPORTS s = Some g"
    using assms by (auto simp: parse_cases match_fields_def split: option.splits)
  have zero: "py_int U [48] = Inr 0" by (simp add: py_int_def is_decimal_ascii is_ascii_digit_def)
  from None g assms have "private_ip r = m_group g PRI" "public_ip r = m_group g PUB"
    "dest_ip r = m_group g DST" "private_port r = 0" "public_port r = 0" "dest_port r = 0"
    by (auto simp: parse_cases match_fields_def Let_def zero)
  with search_SRCNAT_NOPORTS [OF g] show ?thesis by metis
qed

theorem parse_text_order_witness:
  "\<exists>r why. parse ascii_only default_parser (lit ''NAT (10.0.0.1->1.2.3.4)->8.8.8.8'') = (Some r, why)
     \<and> dest_ip r = lit ''8.8.8.8'' \<and> dest_port r = 0"
proof -
  let ?s = "lit ''NAT (10.0.0.1->1.2.3.4)->8.8.8.8''"
  let ?r = "\<lparr>private_ip = lit ''10.0.0.1'', private_port = 0, public_ip = lit ''1.2.3.4'',
    public_port = 0, dest_ip = lit ''8.8.8.8'', dest_port = 0, protocol = [], subscriber_id = []\<rparr>"
  have p: "parse ascii_only default_parser ?s = (Some ?r, OK)" by code_simp
  have "py_find ?s (lit ''NAT'') \<noteq> None" by code_simp
  from p parse_text_order [OF p this] show ?thesis by force
qed

text \<open>C10 (parse_srcnat_line): Every line whose first NAT is a well-formed translation with ports is accepted, and the record is exactly the one written: for all canonical addresses and ports up to 65535, any blanks after NAT, any text before, and any text after that does not go on with a digit.\<close>

theorem parse_srcnat_line:
  assumes "s = pre @ srcnat_ports_text ws a (py_str_nat i) b (py_str_nat j) c (py_str_nat k) @ post"
    and "py_find s (lit ''NAT'') = Some (length pre)"
    and "list_all (is_space U) ws" "canonical_ipv4 a" "canonical_ipv4 b" "canonical_ipv4 c"
    and "i \<le> 65535" "j \<le> 65535" "k \<le> 65535" "post = [] \<or> \<not> is_decimal U (hd post)"
  shows "parse U P s =
    (Some \<lparr>private_ip = a, private_port = int i, public_ip = b, public_port = int j,
           dest_ip = c, dest_port = int k,
           protocol = protocol_of U s, subscriber_id = subscriber_of U P s\<rparr>, OK)"
proof (rule parse_of_SRCNAT_PORTS)
  show "py_find s (lit ''NAT'') \<noteq> None" using assms(2) by simp
  show "search U SRCNAT_PORTS s =
      Some (Map.empty(PRI \<mapsto> a, PRI_PORT \<mapsto> py_str_nat i, PUB \<mapsto> b, PUB_PORT \<mapsto> py_str_nat j,
                      DST \<mapsto> c, DST_PORT \<mapsto> py_str_nat k))"
    unfolding assms(1)
    by (rule search_SRCNAT_PORTS_line)
       (use assms(2-8) port_first_end [OF assms(9,10)] in \<open>auto simp: assms(1)\<close>)
qed (fact assms)+

lemma canonical_dotted:
  "a < 256 \<Longrightarrow> b < 256 \<Longrightarrow> c < 256 \<Longrightarrow> d < 256 \<Longrightarrow> canonical_ipv4 (dotted a b c d)"
  by (auto simp: canonical_ipv4_def)

theorem parse_srcnat_line_witness:
  "parse ascii_only default_parser
     (sample_head @ srcnat_ports_text (lit '' '') (dotted 100 68 180 230) (py_str_nat 35420)
        (dotted 103 125 177 119) (py_str_nat 35420) (dotted 99 124 164 160) (py_str_nat 22) @ lit '', len 60'')
   = (Some \<lparr>private_ip = lit ''100.68.180.230'', private_port = 35420,
            public_ip = lit ''103.125.177.119'', public_port = 35420,
            dest_ip = lit ''99.124.164.160'', dest_port = 22,
            protocol = lit ''TCP'', subscriber_id = lit ''P2-musa''\<rparr>, OK)"
proof -
  let ?s = "sample_head @ srcnat_ports_text (lit '' '') (dotted 100 68 180 230) (py_str_nat 35420)
        (dotted 103 125 177 119) (py_str_nat 35420) (dotted 99 124 164 160) (py_str_nat 22) @ lit '', len 60''"
  have 1: "py_find ?s (lit ''NAT'') = Some (length sample_head)" by code_simp
  have 2: "list_all (is_space ascii_only) (lit '' '')" by code_simp
  have 3: "lit '', len 60'' = [] \<or> \<not> is_decimal ascii_only (hd (lit '', len 60''))" by code_simp
  have 4: "protocol_of ascii_only ?s = lit ''TCP''" by code_simp
  have 5: "subscriber_of ascii_only default_parser ?s = lit ''P2-musa''" by code_simp
  have 6: "dotted 100 68 180 230 = lit ''100.68.180.230''"
    "dotted 103 125 177 119 = lit ''103.125.177.119''" "dotted 99 124 164 160 = lit ''99.124.164.160''"
    by code_simp+
  have r: "parse ascii_only default_parser ?s =
      (Some \<lparr>private_ip = dotted 100 68 180 230, private_port = int 35420,
             public_ip = dotted 103 125 177 119, public_port = int 35420,
             dest_ip = dotted 99 124 164 160, dest_port = int 22,
             protocol = lit ''TCP'', subscriber_id = lit ''P2-musa''\<rparr>, OK)"
    unfolding 4 [symmetric] 5 [symmetric]
    by (rule parse_srcnat_line [OF refl 1 2 _ _ _ _ _ _ 3]) (simp_all add: canonical_dotted)
  show ?thesis by (simp only: r) (simp only: 6 of_nat_numeral)
qed

text \<open>Also (parse_srcnat_noports_line): A line whose only NAT is a translation without ports (ICMP, GRE, ESP) is accepted with all ports 0, for all canonical addresses, when the destination is not run into a further digit, dot or colon.\<close>

theorem parse_srcnat_noports_line:
  assumes "s = pre @ srcnat_noports_text ws a b c @ post"
    and "py_find s (lit ''NAT'') = Some (length pre)"
    and "py_find (drop (Suc (length pre)) s) (lit ''NAT'') = None"
    and "list_all (is_space U) ws" "canonical_ipv4 a" "canonical_ipv4 b" "canonical_ipv4 c"
    and "post = [] \<or> \<not> in_cset U (AnyOf [Digit, Is 46, Is 58]) (hd post)"
  shows "parse U P s =
    (Some \<lparr>private_ip = a, private_port = 0, public_ip = b, public_port = 0,
           dest_ip = c, dest_port = 0,
           protocol = protocol_of U s, subscriber_id = subscriber_of U P s\<rparr>, OK)"
proof -
  note line = search_SRCNAT_NOPORTS_line [OF assms(2,3,4-8) [unfolded assms(1)], folded assms(1)]
  have zero: "py_int U [48] = Inr 0" by (simp add: py_int_def is_decimal_ascii is_ascii_digit_def)
  show ?thesis using assms(2)
    by (simp add: parse_cases match_fields_def line m_group_def zero)
qed

theorem parse_srcnat_noports_line_witness:
  "parse ascii_only default_parser
     (lit ''proto ICMP (type 8, code 0), '' @ srcnat_noports_text (lit '' '') (dotted 10 0 0 1)
        (dotted 103 1 1 1) (dotted 8 8 8 8) @ lit '', len 84'')
   = (Some \<lparr>private_ip = lit ''10.0.0.1'', private_port = 0, public_ip = lit ''103.1.1.1'',
            public_port = 0, dest_ip = lit ''8.8.8.8'', dest_port = 0,
            protocol = lit ''ICMP'', subscriber_id = []\<rparr>, OK)"
proof -
  let ?pre = "lit ''proto ICMP (type 8, code 0), ''"
  let ?s = "?pre @ srcnat_noports_text (lit '' '') (dotted 10 0 0 1)
        (dotted 103 1 1 1) (dotted 8 8 8 8) @ lit '', len 84''"
  have 1: "py_find ?s (lit ''NAT'') = Some (length ?pre)" by code_simp
  have 2: "py_find (drop (Suc (length ?pre)) ?s) (lit ''NAT'') = None" by code_simp
  have 3: "list_all (is_space ascii_only) (lit '' '')" by code_simp
  have 4: "lit '', len 84'' = [] \<or> \<not> in_cset ascii_only (AnyOf [Digit, Is 46, Is 58]) (hd (lit '', len 84''))"
    by code_simp
  have 5: "protocol_of ascii_only ?s = lit ''ICMP''" "subscriber_of ascii_only default_parser ?s = []"
    by code_simp+
  have 6: "dotted 10 0 0 1 = lit ''10.0.0.1''" "dotted 103 1 1 1 = lit ''103.1.1.1''"
    "dotted 8 8 8 8 = lit ''8.8.8.8''" by code_simp+
  have r: "parse ascii_only default_parser ?s =
      (Some \<lparr>private_ip = dotted 10 0 0 1, private_port = 0,
             public_ip = dotted 103 1 1 1, public_port = 0,
             dest_ip = dotted 8 8 8 8, dest_port = 0,
             protocol = lit ''ICMP'', subscriber_id = []\<rparr>, OK)"
    unfolding 5(1) [symmetric] unfolding 5(2) [symmetric]
    by (rule parse_srcnat_noports_line [OF refl 1 2 3 _ _ _ 4]) (simp_all add: canonical_dotted)
  show ?thesis by (simp only: r) (simp only: 6)
qed

text \<open>C36 (parse_total): The parser is total on every string: nothing in _parse raises, so the catch-all branch with reason decode is never taken; a rejection has one of the two reasons no_match and no_nat, and a record comes with the empty reason.\<close>

theorem parse_total:
  "(\<exists>x. do_parse U P s = Inr x)
   \<and> (case parse U P s of
        (Some r, why) \<Rightarrow> why = OK
      | (None, why) \<Rightarrow> why = NO_MATCH \<or> why = NO_NAT)"
  using do_parse_total match_fields_reason
  by (auto simp: parse_cases Let_def split: sum.splits)

text \<open>Also (parse_plain): A line without NAT is dropped with reason no_nat when a translation is required; otherwise a record made from it has its public endpoint equal to its private one.\<close>

theorem parse_plain:
  assumes "py_find s (lit ''NAT'') = None"
  shows "if require_nat P then parse U P s = (None, NO_NAT)
    else case fst (parse U P s) of
           None \<Rightarrow> snd (parse U P s) = NO_MATCH
         | Some r \<Rightarrow> public_ip r = private_ip r \<and> public_port r = private_port r"
  using assms
  by (auto simp: parse_cases match_fields_def Let_def split: option.splits sum.splits if_splits)

theorem parse_plain_witness:
  "parse ascii_only default_parser (lit ''proto TCP (SYN), 1.1.1.1:5->2.2.2.2:80, len 60'') = (None, NO_NAT)"
proof -
  have 1: "py_find (lit ''proto TCP (SYN), 1.1.1.1:5->2.2.2.2:80, len 60'') (lit ''NAT'') = None"
    by code_simp
  from parse_plain [OF 1, of default_parser ascii_only]
  show ?thesis by (simp add: default_parser_def del: lit_simps)
qed

text \<open>Also (parse_port_overrun): A destination port written with six digits is not rejected: the record gets its first five digits, whenever those stay within 65535. The pattern has no guard after its last field.\<close>

theorem parse_port_overrun:
  assumes "s = pre @ srcnat_ports_text ws a (py_str_nat i) b (py_str_nat j) c (py_str_nat n) @ post"
    and "py_find s (lit ''NAT'') = Some (length pre)"
    and "list_all (is_space U) ws" "canonical_ipv4 a" "canonical_ipv4 b" "canonical_ipv4 c"
    and "i \<le> 65535" "j \<le> 65535" "100000 \<le> n" "n < 655360"
  shows "\<exists>r. parse U P s = (Some r, OK) \<and> dest_port r = int (n div 10)"
proof -
  have n: "py_str_nat n = py_str_nat (n div 10) @ [48 + n mod 10]"
    using assms(9) by (subst py_str_nat.simps) simp
  have "length (py_str_nat (n div 10)) = 5"
    using length_py_str_nat_eq [of 4 "n div 10"] assms(9,10) by simp
  then have five: "port_first U (py_str_nat (n div 10)) ([48 + n mod 10] @ post)"
    by (intro port_first_five py_str_nat_decimal)
  have s: "s = pre @ srcnat_ports_text ws a (py_str_nat i) b (py_str_nat j) c (py_str_nat (n div 10))
      @ [48 + n mod 10] @ post"
    by (simp only: assms(1) srcnat_ports_text_def n append.assoc)
  have "search U SRCNAT_PORTS s =
      Some (Map.empty(PRI \<mapsto> a, PRI_PORT \<mapsto> py_str_nat i, PUB \<mapsto> b, PUB_PORT \<mapsto> py_str_nat j,
                      DST \<mapsto> c, DST_PORT \<mapsto> py_str_nat (n div 10)))"
    unfolding s
    by (rule search_SRCNAT_PORTS_line [OF _ assms(3-8) five]) (use assms(2) in \<open>simp only: s\<close>)
  moreover have "py_find s (lit ''NAT'') \<noteq> None" using assms(2) by simp
  moreover have "n div 10 \<le> 65535" using assms(10) by simp
  ultimately show ?thesis using parse_of_SRCNAT_PORTS [OF _ _ assms(7,8)] by force
qed

theorem parse_port_overrun_witness:
  "\<exists>r. parse ascii_only default_parser
       (srcnat_ports_text (lit '' '') (dotted 10 0 0 1) (py_str_nat 1) (dotted 1 2 3 4) (py_str_nat 3)
          (dotted 8 8 8 8) (py_str_nat 443210)) = (Some r, OK) \<and> dest_port r = 44321"
proof -
  let ?s = "srcnat_ports_text (lit '' '') (dotted 10 0 0 1) (py_str_nat 1) (dotted 1 2 3 4) (py_str_nat 3)
          (dotted 8 8 8 8) (py_str_nat 443210)"
  have 0: "?s = [] @ ?s @ []" by simp
  have 1: "py_find ?s (lit ''NAT'') = Some (length ([] :: pystr))" by code_simp
  have 2: "list_all (is_space ascii_only) (lit '' '')" by code_simp
  from parse_port_overrun [OF 0 1 2, of default_parser] show ?thesis
    by (simp add: canonical_dotted)
qed

section \<open>Subscriber and protocol\<close>

lemma py_find_char: "c \<notin> set x \<Longrightarrow> py_find (x @ c # post) [c] = Some (length x)"
  by (induction x) auto

lemma iface_of_angle:
  assumes "py_find (pre @ lit ''in:<'' @ x @ lit ''>'' @ post) (lit ''in:<'') = Some (length pre)"
    and "62 \<notin> set x"
  shows "iface_of U (pre @ lit ''in:<'' @ x @ lit ''>'' @ post) = Some x"
proof -
  have d: "drop (length pre + 4) (pre @ lit ''in:<'' @ x @ lit ''>'' @ post) = x @ lit ''>'' @ post"
    by simp
  have "py_find (x @ lit ''>'' @ post) (lit ''>'') = Some (length x)"
    using py_find_char [OF assms(2)] by simp
  then have "py_find_from (pre @ lit ''in:<'' @ x @ lit ''>'' @ post) (lit ''>'') (length pre + 4) =
      Some (length pre + 4 + length x)"
    unfolding py_find_from_def d by simp
  then show ?thesis
    unfolding iface_of_def assms(1) by (simp add: py_slice_def del: lit_simps) (simp add: d)
qed

text \<open>Also (subscriber_pppoe): The subscriber of a line whose first in:< interface is <pppoe-NAME> is NAME, for every name without > that does not itself begin with in- or out- (those are read as the longer prefixes), whatever the settings.\<close>

theorem subscriber_pppoe:
  assumes "s = pre @ lit ''in:<'' @ (lit ''pppoe-'' @ u) @ lit ''>'' @ post"
    and "py_find s (lit ''in:<'') = Some (length pre)"
    and "62 \<notin> set u" "\<not> py_startswith u (lit ''in-'')" "\<not> py_startswith u (lit ''out-'')"
  shows "subscriber_of U P s = u"
proof -
  have "62 \<notin> set (lit ''pppoe-'' @ u)" using assms(3) by simp
  with assms(1,2) have "iface_of U s = Some (lit ''pppoe-'' @ u)"
    using iface_of_angle by blast
  then show ?thesis using assms(4,5)
    by (simp add: subscriber_of_def strip_session_prefix_def SUBSCRIBER_PREFIXES_def)
qed

theorem subscriber_pppoe_witness:
  "subscriber_of ascii_only default_parser (lit ''in:<pppoe-user.name@isp.pk> proto UDP'') = lit ''user.name@isp.pk''"
proof -
  have 1: "lit ''in:<pppoe-user.name@isp.pk> proto UDP'' =
      [] @ lit ''in:<'' @ (lit ''pppoe-'' @ lit ''user.name@isp.pk'') @ lit ''>'' @ lit '' proto UDP''"
    by code_simp
  have 2: "py_find (lit ''in:<pppoe-user.name@isp.pk> proto UDP'') (lit ''in:<'') = Some (length ([] :: pystr))"
    by code_simp
  have 3: "62 \<notin> set (lit ''user.name@isp.pk'')" "\<not> py_startswith (lit ''user.name@isp.pk'') (lit ''in-'')"
    "\<not> py_startswith (lit ''user.name@isp.pk'') (lit ''out-'')" by code_simp+
  show ?thesis by (rule subscriber_pppoe [OF 1 2 3])
qed

lemma protocol_of_word:
  assumes "s = pre @ lit ''proto '' @ w @ c # post"
    and "py_find s (lit ''proto '') = Some (length pre)"
    and "w \<noteq> []" "c \<in> set PROTO_END" "\<And>x. x \<in> set w \<Longrightarrow> x \<notin> set PROTO_END"
  shows "protocol_of U s = (if py_isdigit U w then dict_get PROTO_NUMBERS w w else py_upper U w)"
proof -
  have "drop (length pre + 6) s = w @ c # post" by (simp add: assms(1))
  moreover have "takeWhile (\<lambda>c. c \<notin> set PROTO_END) (w @ c # post) = w"
    by (rule takeWhile_append_stop) (use assms(4,5) in auto)
  ultimately show ?thesis
    unfolding protocol_of_def assms(2) using assms(3) by (simp add: Let_def)
qed

text \<open>The table against the operations: checked entry by entry, for any Unicode database.\<close>

lemma proto_numbers_ok:
  "list_all (\<lambda>(n, v). n \<noteq> [] \<and> v \<noteq> [] \<and> list_all (\<lambda>x. x \<notin> set PROTO_END) (n @ v)
     \<and> py_isdigit U n \<and> \<not> py_isdigit U v \<and> dict_get PROTO_NUMBERS n n = v \<and> py_upper U v = v)
     PROTO_NUMBERS"
  by code_simp

text \<open>Also (protocol_two_spellings): For each of the eleven numbered protocols, a line that writes the number after proto and a line that writes the name store the same value, the name.\<close>

theorem protocol_two_spellings:
  assumes "(n, v) \<in> set PROTO_NUMBERS" and "c \<in> set PROTO_END"
    and "py_find (pre @ lit ''proto '' @ n @ c # post) (lit ''proto '') = Some (length pre)"
    and "py_find (pre' @ lit ''proto '' @ v @ c # post') (lit ''proto '') = Some (length pre')"
  shows "protocol_of U (pre @ lit ''proto '' @ n @ c # post) = v
    \<and> protocol_of U (pre' @ lit ''proto '' @ v @ c # post') = v"
proof -
  have nv: "n \<noteq> [] \<and> v \<noteq> [] \<and> list_all (\<lambda>x. x \<notin> set PROTO_END) (n @ v)
      \<and> py_isdigit U n \<and> \<not> py_isdigit U v \<and> dict_get PROTO_NUMBERS n n = v \<and> py_upper U v = v"
    using proto_numbers_ok [of U] assms(1) by (auto simp: list_all_iff)
  then have ok: "x \<notin> set PROTO_END" if "x \<in> set n \<or> x \<in> set v" for x
    using that by (auto simp: list_all_iff)
  have "protocol_of U (pre @ lit ''proto '' @ n @ c # post) = v"
    using protocol_of_word [OF refl assms(3) _ assms(2), of U] nv ok by simp
  moreover have "protocol_of U (pre' @ lit ''proto '' @ v @ c # post') = v"
    using protocol_of_word [OF refl assms(4) _ assms(2), of U] nv ok by simp
  ultimately show ?thesis ..
qed

theorem protocol_two_spellings_witness:
  "protocol_of ascii_only (lit ''proto 47, x'') = lit ''GRE'' \<and> protocol_of ascii_only (lit ''proto GRE, x'') = lit ''GRE''"
proof -
  have 1: "(lit ''47'', lit ''GRE'') \<in> set PROTO_NUMBERS" by (simp add: PROTO_NUMBERS_def)
  have 2: "44 \<in> set PROTO_END" by (simp add: PROTO_END_def)
  have 3: "py_find ([] @ lit ''proto '' @ lit ''47'' @ 44 # lit '' x'') (lit ''proto '') = Some (length ([] :: pystr))"
    by code_simp
  have 4: "py_find ([] @ lit ''proto '' @ lit ''GRE'' @ 44 # lit '' x'') (lit ''proto '') = Some (length ([] :: pystr))"
    by code_simp
  from protocol_two_spellings [OF 1 2 3 4, of ascii_only] show ?thesis by simp
qed

end
