(* ===== verification/Metrics.thy ===== *)
theory Metrics
  imports Redis_Store
begin

text \<open>
  \<open>backend/app/metrics.py\<close>: the counters a process keeps and flushes to a Redis hash. A flush
  awaits the pipeline, so increments of other tasks fall between its two halves, and the
  pipeline is not a transaction: when it fails, any number of its commands may have run.
\<close>

section \<open>Names\<close>

definition METRICS_KEY :: rkey where "METRICS_KEY = ''nls:metrics''"

definition RECEIVED :: string where "RECEIVED = ''logs_received''"
definition PARSED :: string where "PARSED = ''logs_parsed''"
definition STORED :: string where "STORED = ''logs_stored''"
definition DROPPED_UNKNOWN_ROUTER :: string where
  "DROPPED_UNKNOWN_ROUTER = ''logs_unknown_router''"
definition DROPPED_BACKPRESSURE :: string where
  "DROPPED_BACKPRESSURE = ''logs_dropped_backpressure''"
definition DROPPED_REDIS_ERROR :: string where
  "DROPPED_REDIS_ERROR = ''logs_dropped_redis_error''"
definition PARSER_ERRORS :: string where "PARSER_ERRORS = ''parser_errors''"
definition CH_INSERT_ERRORS :: string where "CH_INSERT_ERRORS = ''clickhouse_insert_errors''"
definition CH_INSERT_BATCHES :: string where "CH_INSERT_BATCHES = ''clickhouse_insert_batches''"
definition BYTES_RECEIVED :: string where "BYTES_RECEIVED = ''bytes_received''"

lemmas counter_names =
  RECEIVED_def PARSED_def STORED_def DROPPED_UNKNOWN_ROUTER_def DROPPED_BACKPRESSURE_def
  DROPPED_REDIS_ERROR_def PARSER_ERRORS_def CH_INSERT_ERRORS_def CH_INSERT_BATCHES_def
  BYTES_RECEIVED_def

definition ALL_COUNTERS :: "string list" where
  "ALL_COUNTERS =
     [RECEIVED, PARSED, STORED, DROPPED_UNKNOWN_ROUTER, DROPPED_BACKPRESSURE,
      DROPPED_REDIS_ERROR, PARSER_ERRORS, CH_INSERT_ERRORS, CH_INSERT_BATCHES, BYTES_RECEIVED]"

section \<open>Counting and flushing\<close>

record Metrics =
  counts :: "(string, int) pydict"
  has_redis :: bool                  \<comment> \<open>\<open>_redis is not None\<close>\<close>

definition count_add :: "(string, int) pydict \<Rightarrow> string \<Rightarrow> int \<Rightarrow> (string, int) pydict" where
  "count_add c name v = dict_set c name (dict_get c name 0 + v)"

definition incr :: "string \<Rightarrow> int \<Rightarrow> Metrics \<Rightarrow> Metrics" where
  "incr name v m = m\<lparr>counts := count_add (counts m) name v\<rparr>"

text \<open>
  How the pipeline of a flush ends: answered, failed after some of its commands ran, or
  abandoned because the task was cancelled. \<open>CancelledError\<close> is not an \<open>Exception\<close>, so the
  handler that folds the deltas back does not see it.
\<close>

datatype flush_end = Flushed | Failed nat | Cancelled nat

definition pipe_hincrby :: "'r redis \<Rightarrow> (string \<times> int) list \<Rightarrow> 'r \<Rightarrow> 'r" where
  "pipe_hincrby R items s = fold (\<lambda>(name, v). r_hincrby R METRICS_KEY name v) items s"

definition fold_back ::
    "(string \<times> int) list \<Rightarrow> (string, int) pydict \<Rightarrow> (string, int) pydict" where
  "fold_back pending c = fold (\<lambda>(name, v) c. count_add c name v) pending c"

text \<open>
  \<open>during\<close> lists the increments other tasks make until the flush has ended: while it awaits
  the pipeline, or after it when it returns at once.
\<close>

definition flush ::
    "'r redis \<Rightarrow> flush_end \<Rightarrow> (string \<times> int) list \<Rightarrow> Metrics \<Rightarrow> 'r \<Rightarrow> Metrics \<times> 'r" where
  "flush R out during m s =
     (if \<not> has_redis m \<or> counts m = [] then (fold (\<lambda>(name, v). incr name v) during m, s)
      else
        (let pending = counts m;
             m1 = fold (\<lambda>(name, v). incr name v) during (m\<lparr>counts := []\<rparr>)
         in case out of
              Flushed \<Rightarrow> (m1, pipe_hincrby R pending s)
            | Failed k \<Rightarrow>
                (m1\<lparr>counts := fold_back pending (counts m1)\<rparr>, pipe_hincrby R (take k pending) s)
            | Cancelled k \<Rightarrow> (m1, pipe_hincrby R (take k pending) s)))"

text \<open>\<open>read_all\<close>: every known counter, 0 when Redis cannot be read or holds no integer.\<close>

definition zeros :: "(string, int) pydict" where
  "zeros = map (\<lambda>name. (name, 0)) ALL_COUNTERS"

fun read_loop :: "(string \<times> int option) list \<Rightarrow> (string, int) pydict \<Rightarrow> (string, int) pydict" where
  "read_loop [] out = out"
| "read_loop ((name, Some v) # raw) out = read_loop raw (dict_set out name v)"
| "read_loop ((name, None) # raw) out = read_loop raw out"

definition read_all :: "'r redis \<Rightarrow> net \<Rightarrow> 'r \<Rightarrow> (string, int) pydict" where
  "read_all R net s =
     (case fst (remote RedisError net (\<lambda>s. (Inr (r_hgetall R METRICS_KEY s), s)) s) of
        Inl _ \<Rightarrow> zeros
      | Inr raw \<Rightarrow> read_loop raw zeros)"

section \<open>Lemmas\<close>

definition local_count :: "Metrics \<Rightarrow> string \<Rightarrow> int" where
  "local_count m name = dict_get (counts m) name 0"

text \<open>The sum a list of increments adds to one counter.\<close>

definition summed :: "(string \<times> int) list \<Rightarrow> string \<Rightarrow> int" where
  "summed items name = (\<Sum>(n, v)\<leftarrow>items. if n = name then v else 0)"

lemma summed_simps [simp]:
  "summed [] name = 0"
  "summed ((n, v) # items) name = (if n = name then v else 0) + summed items name"
  "summed (a @ b) name = summed a name + summed b name"
  by (simp_all add: summed_def)

lemma summed_nonneg: "\<forall>(n, v) \<in> set items. 0 \<le> v \<Longrightarrow> 0 \<le> summed items name"
  by (induction items) auto

lemma summed_split: "summed items name = summed (take k items) name + summed (drop k items) name"
  using summed_simps(3) [of "take k items" "drop k items" name] by (simp only: append_take_drop_id)

lemma summed_take_le: "\<forall>(n, v) \<in> set items. 0 \<le> v \<Longrightarrow> summed (take k items) name \<le> summed items name"
proof -
  assume nonneg: "\<forall>(n, v) \<in> set items. 0 \<le> v"
  have "\<forall>(n, v) \<in> set (drop k items). 0 \<le> v"
    by (rule ballI) (rule bspec [OF nonneg in_set_dropD])
  then have "0 \<le> summed (drop k items) name" by (rule summed_nonneg)
  then show ?thesis using summed_split [of items name k] by linarith
qed

lemma count_add_get: "dict_get (count_add c n v) name 0 = dict_get c name 0 + (if n = name then v else 0)"
  by (simp add: count_add_def dict_get_set)

lemma count_incr: "local_count (incr n v m) name = local_count m name + (if n = name then v else 0)"
  by (simp add: local_count_def incr_def count_add_get)

lemma has_redis_incr [simp]: "has_redis (incr n v m) = has_redis m"
  by (simp add: incr_def)

lemma count_incrs: "local_count (fold (\<lambda>(name, v). incr name v) items m) name = local_count m name + summed items name"
  by (induction items arbitrary: m) (auto simp: count_incr)

lemma has_redis_incrs [simp]:
  "has_redis (fold (\<lambda>(name, v). incr name v) items m) = has_redis m"
  by (induction items arbitrary: m) (simp_all add: case_prod_beta)

lemma fold_back_get: "dict_get (fold_back p c) name 0 = dict_get c name 0 + summed p name"
  unfolding fold_back_def by (induction p arbitrary: c) (auto simp: count_add_get)

text \<open>The dictionary holds each name once, so its items add up to its entries.\<close>

definition metrics_ok :: "Metrics \<Rightarrow> bool" where
  "metrics_ok m \<longleftrightarrow> distinct (map fst (counts m)) \<and> (\<forall>(n, v) \<in> set (counts m). 0 \<le> v)"

lemma summed_distinct: "distinct (map fst d) \<Longrightarrow> summed d name = dict_get d name 0"
proof (induction d)
  case (Cons p d)
  have "summed d name = 0" if "name \<notin> fst ` set d"
    using that by (induction d) auto
  with Cons show ?case by (cases p; cases "fst p = name") (simp_all add: dict_get_def)
qed simp

lemma set_dict_set: "set (dict_set d k v) \<subseteq> insert (k, v) (set d)"
  unfolding dict_set_def by (induction d) auto

lemma dict_get_nonneg:
  "\<forall>(n, v) \<in> set d. (0::int) \<le> v \<Longrightarrow> 0 \<le> dict_get d name 0"
  by (auto simp: dict_get_def split: option.splits dest: map_of_SomeD)

lemma metrics_ok_incr [inv_intros]: "metrics_ok m \<Longrightarrow> 0 \<le> v \<Longrightarrow> metrics_ok (incr n v m)"
  using set_dict_set [of "counts m" n "dict_get (counts m) n 0 + v"] dict_get_nonneg [of "counts m" n]
  by (fastforce simp: metrics_ok_def incr_def count_add_def)

lemma metrics_ok_incrs [inv_intros]:
  "metrics_ok m \<Longrightarrow> \<forall>(n, v) \<in> set items. 0 \<le> v \<Longrightarrow>
     metrics_ok (fold (\<lambda>(name, v). incr name v) items m)"
  by (induction items arbitrary: m) (auto intro: inv_intros)

lemma metrics_ok_fold_back [inv_intros]:
  "metrics_ok m \<Longrightarrow> \<forall>(n, v) \<in> set p. 0 \<le> v \<Longrightarrow> metrics_ok (m\<lparr>counts := fold_back p (counts m)\<rparr>)"
proof (induction p arbitrary: m)
  case (Cons a p)
  obtain n v where a: "a = (n, v)" by force
  then have "metrics_ok (incr n v m)" using Cons.prems by (auto intro: inv_intros)
  then show ?case
    using Cons.IH [of "incr n v m"] Cons.prems by (simp add: a fold_back_def incr_def)
qed (simp add: fold_back_def)

lemma metrics_ok_flush [inv_intros]:
  assumes "metrics_ok m" "\<forall>(n, v) \<in> set during. 0 \<le> v"
  shows "metrics_ok (fst (flush R out during m s))"
proof -
  have "metrics_ok (fold (\<lambda>(name, v). incr name v) during (m\<lparr>counts := []\<rparr>))"
    using assms(2) by (intro inv_intros) (simp_all add: metrics_ok_def)
  moreover have "metrics_ok (fold (\<lambda>(name, v). incr name v) during m)"
    using assms by (rule metrics_ok_incrs)
  ultimately show ?thesis
    using assms(1) metrics_ok_fold_back
      [of "fold (\<lambda>(name, v). incr name v) during (m\<lparr>counts := []\<rparr>)" "counts m"]
    by (cases out) (simp_all add: flush_def Let_def metrics_ok_def)
qed

lemma has_redis_flush [simp]: "has_redis (fst (flush R out during m s)) = has_redis m"
  by (cases out) (simp_all add: flush_def Let_def)

text \<open>A process counts and flushes.\<close>

datatype metric_event = Count string int | Flush flush_end "(string \<times> int) list"

fun metric_step :: "'r redis \<Rightarrow> metric_event \<Rightarrow> Metrics \<times> 'r \<Rightarrow> Metrics \<times> 'r" where
  "metric_step R (Count name v) (m, s) = (incr name v m, s)"
| "metric_step R (Flush out during) (m, s) = flush R out during m s"

fun counted :: "metric_event \<Rightarrow> (string \<times> int) list" where
  "counted (Count name v) = [(name, v)]"
| "counted (Flush out during) = during"

text \<open>Only non-negative increments, and no flush abandoned half-way.\<close>

fun uncancelled :: "metric_event \<Rightarrow> bool" where
  "uncancelled (Count name v) = True"
| "uncancelled (Flush out during) = (case out of Cancelled k \<Rightarrow> False | _ \<Rightarrow> True)"

definition counts_up :: "metric_event \<Rightarrow> bool" where
  "counts_up ev \<longleftrightarrow> (\<forall>(n, v) \<in> set (counted ev). 0 \<le> v)"

text \<open>A flush that was not acknowledged and had run no command.\<close>

fun all_or_nothing :: "metric_event \<Rightarrow> bool" where
  "all_or_nothing (Count name v) = True"
| "all_or_nothing (Flush out during) = (out = Flushed \<or> out = Failed 0)"

context redis_hashes
begin

lemma pipe_summed: "H (pipe_hincrby R items s) METRICS_KEY name = H s METRICS_KEY name + summed items name"
  unfolding pipe_hincrby_def by (induction items arbitrary: s) (auto simp: hincrby_law)

text \<open>What a flush does to the sum of the local and the remote count.\<close>

lemma flush_balance:
  assumes "metrics_ok m" "has_redis m"
  shows "H (snd (flush R out during m s)) METRICS_KEY name + local_count (fst (flush R out during m s)) name
    = H s METRICS_KEY name + local_count m name + summed during name
      + (case out of Flushed \<Rightarrow> 0
                   | Failed k \<Rightarrow> summed (take k (counts m)) name
                   | Cancelled k \<Rightarrow> - summed (drop k (counts m)) name)"
proof -
  have "local_count m name = summed (counts m) name"
    using assms(1) by (simp add: local_count_def metrics_ok_def summed_distinct)
  moreover have "local_count (m\<lparr>counts := []\<rparr>) name = 0"
    by (simp add: local_count_def)
  moreover have "local_count (x\<lparr>counts := fold_back p (counts x)\<rparr>) name = local_count x name + summed p name" for x p
    by (simp add: local_count_def fold_back_get)
  moreover have "out = Cancelled k \<Longrightarrow> summed (take k (counts m)) name
      = summed (counts m) name - summed (drop k (counts m)) name" for k
    using summed_split [of "counts m" name k] by linarith
  ultimately show ?thesis
    using assms(2)
    by (cases "counts m = []"; cases out) (simp_all add: flush_def Let_def count_incrs pipe_summed)
qed

lemma read_all_reply: "dict_get (read_all R Reply s) name 0 = H s METRICS_KEY name"
proof -
  have loop: "dict_get (read_loop raw out) name 0
      = (case map_of raw name of Some (Some v) \<Rightarrow> v | _ \<Rightarrow> dict_get out name 0)"
    if "distinct (map fst raw)" for raw out
    using that
  proof (induction raw out rule: read_loop.induct)
    case (2 n v raw out)
    moreover have "map_of raw n = None" using 2 by (simp add: map_of_eq_None_iff)
    ultimately show ?case by (auto simp: dict_get_set split: option.splits)
  next
    case (3 n raw out)
    moreover have "map_of raw n = None" using 3 by (simp add: map_of_eq_None_iff)
    ultimately show ?case by (auto split: option.splits)
  qed simp
  have "dict_get zeros name 0 = 0"
    by (auto simp: dict_get_def zeros_def map_of_eq_None_iff split: option.splits
        dest!: map_of_SomeD)
  then show ?thesis
    using loop [OF hgetall_law(1)] hgetall_law(2,3) [where k = METRICS_KEY and s = s and f = name]
    by (auto simp: read_all_def)
qed

lemma metric_step_balance:
  assumes "metrics_ok m" "has_redis m" "counts_up ev"
  shows "metrics_ok (fst (metric_step R ev (m, s))) \<and> has_redis (fst (metric_step R ev (m, s)))"
    "uncancelled ev \<Longrightarrow>
      H s METRICS_KEY name + local_count m name + summed (counted ev) name
      \<le> H (snd (metric_step R ev (m, s))) METRICS_KEY name + local_count (fst (metric_step R ev (m, s))) name"
    "all_or_nothing ev \<Longrightarrow>
      H s METRICS_KEY name + local_count m name + summed (counted ev) name
      = H (snd (metric_step R ev (m, s))) METRICS_KEY name + local_count (fst (metric_step R ev (m, s))) name"
proof -
  have nonneg: "0 \<le> summed (take k (counts m)) name" for k
  proof (rule summed_nonneg)
    have "\<forall>(n, v) \<in> set (counts m). 0 \<le> v" using assms(1) by (simp add: metrics_ok_def)
    then show "\<forall>(n, v) \<in> set (take k (counts m)). 0 \<le> v" by (meson in_set_takeD)
  qed
  show "metrics_ok (fst (metric_step R ev (m, s))) \<and> has_redis (fst (metric_step R ev (m, s)))"
    using assms metrics_ok_incr metrics_ok_flush by (cases ev) (auto simp: counts_up_def)
  show "H s METRICS_KEY name + local_count m name + summed (counted ev) name
      \<le> H (snd (metric_step R ev (m, s))) METRICS_KEY name + local_count (fst (metric_step R ev (m, s))) name"
    if "uncancelled ev"
    using that nonneg flush_balance [OF assms(1,2)]
    by (cases ev) (auto simp: count_incr split: flush_end.splits)
  show "H s METRICS_KEY name + local_count m name + summed (counted ev) name
      = H (snd (metric_step R ev (m, s))) METRICS_KEY name + local_count (fst (metric_step R ev (m, s))) name"
    if "all_or_nothing ev"
    using that flush_balance [OF assms(1,2)] by (cases ev) (auto simp: count_incr)
qed

lemma metric_run_balance:
  assumes "metrics_ok m" "has_redis m" "\<forall>ev \<in> set evs. counts_up ev"
    and "fold (metric_step R) evs (m, s) = (m', s')"
  shows "((\<forall>ev \<in> set evs. uncancelled ev) \<longrightarrow>
      H s METRICS_KEY name + local_count m name + summed (concat (map counted evs)) name
      \<le> H s' METRICS_KEY name + local_count m' name)
    \<and> ((\<forall>ev \<in> set evs. all_or_nothing ev) \<longrightarrow>
      H s METRICS_KEY name + local_count m name + summed (concat (map counted evs)) name
      = H s' METRICS_KEY name + local_count m' name)"
  using assms
proof (induction evs arbitrary: m s)
  case (Cons ev evs)
  obtain m1 s1 where st: "metric_step R ev (m, s) = (m1, s1)" by force
  have run: "fold (metric_step R) evs (m1, s1) = (m', s')" using Cons.prems st by simp
  have ev: "counts_up ev" "\<forall>ev \<in> set evs. counts_up ev" using Cons.prems by auto
  note step = metric_step_balance [OF Cons.prems(1,2) ev(1), of s, unfolded st fst_conv snd_conv]
  show ?case
    using step(2,3) [of name] Cons.IH [OF _ _ ev(2) run] step(1) by auto
qed auto

end

text \<open>The reference store with its counters.\<close>

lemma ref_hashes_ok: "redis_hashes ref_redis ref_hash"
  by (rule ref_hashes.redis_hashes_axioms)

definition fresh_metrics :: Metrics where
  "fresh_metrics = \<lparr>counts = [], has_redis = True\<rparr>"

lemma fresh_metrics_ok [simp]: "metrics_ok fresh_metrics" "has_redis fresh_metrics"
  by (simp_all add: fresh_metrics_def metrics_ok_def)

lemma ref_hash_empty [simp]: "ref_hash empty_store k f = 0"
  by (simp add: ref_hash_def empty_store_def)

section \<open>Properties\<close>

text \<open>C32 (metrics_never_undercount): Whatever the interleaving of increments and flushes, and however each flush ends short of cancellation, a counter in Redis plus the process's own share is never below what has been counted; a flush that fails after some of its commands ran makes it larger (those deltas are folded back and sent again), and without such failures it is exact.\<close>

theorem metrics_never_undercount:
  assumes "redis_hashes R H" and "metrics_ok m" and "has_redis m"
    and "\<forall>ev \<in> set evs. counts_up ev" and "\<forall>ev \<in> set evs. uncancelled ev"
    and "fold (metric_step R) evs (m, s) = (m', s')"
  shows "H s METRICS_KEY name + local_count m name + summed (concat (map counted evs)) name
      \<le> H s' METRICS_KEY name + local_count m' name
    \<and> ((\<forall>ev \<in> set evs. all_or_nothing ev) \<longrightarrow>
        H s METRICS_KEY name + local_count m name + summed (concat (map counted evs)) name
        = H s' METRICS_KEY name + local_count m' name)"
  using redis_hashes.metric_run_balance [OF assms(1-4) assms(6)] assms(5) by blast

theorem metrics_never_undercount_witness:
  "\<exists>m' s'. fold (metric_step ref_redis)
       [Count RECEIVED 3, Flush (Failed 1) [(RECEIVED, 2)], Flush Flushed []]
       (fresh_metrics, empty_store) = (m', s')
     \<and> 5 \<le> ref_hash s' METRICS_KEY RECEIVED + local_count m' RECEIVED"
proof -
  let ?evs = "[Count RECEIVED 3, Flush (Failed 1) [(RECEIVED, 2)], Flush Flushed []]"
  obtain m' s' where run: "fold (metric_step ref_redis) ?evs (fresh_metrics, empty_store) = (m', s')"
    by (metis prod.collapse)
  have "5 \<le> ref_hash s' METRICS_KEY RECEIVED + local_count m' RECEIVED"
    using metrics_never_undercount [OF ref_hashes_ok _ _ _ _ run, of RECEIVED]
    by (simp add: counts_up_def) (simp add: fresh_metrics_def local_count_def)
  with run show ?thesis by blast
qed

text \<open>Also (metrics_cancel_loses): A flush that is cancelled while it awaits Redis, as Metrics.stop does to the background task, loses every delta whose command had not run: the handler that folds them back catches Exception, and a cancellation is not one.\<close>

theorem metrics_cancel_loses:
  assumes "redis_hashes R H" and "metrics_ok m" and "has_redis m"
  shows "H (snd (flush R (Cancelled 0) [] m s)) METRICS_KEY name
      + local_count (fst (flush R (Cancelled 0) [] m s)) name
    = H s METRICS_KEY name"
proof -
  have "local_count m name = summed (counts m) name"
    using assms(2) by (simp add: local_count_def metrics_ok_def summed_distinct)
  then show ?thesis
    using redis_hashes.flush_balance [OF assms, of "Cancelled 0" "[]" s name] by simp
qed

theorem metrics_cancel_loses_witness:
  "ref_hash (snd (flush ref_redis (Cancelled 0) [] (incr STORED 7 fresh_metrics) empty_store)) METRICS_KEY STORED
   + local_count (fst (flush ref_redis (Cancelled 0) [] (incr STORED 7 fresh_metrics) empty_store)) STORED = 0"
  using metrics_cancel_loses [OF ref_hashes_ok, of "incr STORED 7 fresh_metrics" empty_store STORED]
    metrics_ok_incr [OF fresh_metrics_ok(1), of 7 STORED] by simp

end
