(* ===== verification/Receiver.thy ===== *)
theory Receiver
  imports Redis_Queue Mikrotik Metrics Complex_Main "HOL-Library.Sublist"
begin

text \<open>
  \<open>backend/app/services/receiver.py\<close>: the allow-list of routers and the ingest path from a
  datagram to the Redis queue. The event loop runs one task at a time between awaits, so the
  model is a step function over events: a datagram, a tick of the flusher, the two halves of
  \<open>_push\<close> around its await, and a queue-depth check. Times are rationals. Framing of TCP
  streams is in \<open>Syslog_Tcp\<close>.
\<close>

section \<open>The router registry\<close>

definition ROUTER_SET_KEY :: rkey where "ROUTER_SET_KEY = ''nls:authorized_routers''"

text \<open>\<open>_publish\<close>: one transaction, and every exception is swallowed.\<close>

definition publish :: "'r redis \<Rightarrow> net \<Rightarrow> pystr list \<Rightarrow> 'r \<Rightarrow> 'r" where
  "publish R net ips s =
     snd (remote RedisError net
            (\<lambda>s. let s1 = r_del R ROUTER_SET_KEY s
                 in (Inr (), if ips \<noteq> [] then r_sadd R ROUTER_SET_KEY ips s1 else s1)) s)"

text \<open>
  \<open>refresh\<close>: \<open>n1\<close> and \<open>n2\<close> are the outcomes of the read and of the publish, \<open>meta\<close> is
  \<open>None\<close> without a metadata store and otherwise what its query returns or raises.
\<close>

definition refresh ::
    "'r redis \<Rightarrow> net \<Rightarrow> pystr list result option \<Rightarrow> net \<Rightarrow> pystr set \<Rightarrow> 'r \<Rightarrow> pystr set \<times> 'r" where
  "refresh R n1 meta n2 cur s =
     (let (reply, s1) = remote RedisError n1 (\<lambda>s. (Inr (r_smembers R ROUTER_SET_KEY s), s)) s;
          ips = (case reply of Inl _ \<Rightarrow> None | Inr members \<Rightarrow> Some members)
      in if (ips = None \<or> ips = Some {}) \<and> meta \<noteq> None then
           (case the meta of
              Inl _ \<Rightarrow> (cur, s1)
            | Inr l \<Rightarrow> (set l, publish R n2 (remdups l) s1))
         else (case ips of None \<Rightarrow> (cur, s1) | Some new \<Rightarrow> (new, s1)))"

section \<open>The ingest state\<close>

record ingest_cfg =
  parser_cfg :: MikroTikParser
  push_batch :: nat

text \<open>
  \<open>scheduled\<close> counts push tasks created and not yet run; \<open>awaiting\<close> holds the batches whose
  \<open>push_many\<close> is under way, with the time their task read.
\<close>

record Ingest =
  metrics :: Metrics
  buffer :: "pybytes list"
  pushing :: bool
  paused_until :: rat
  last_warn :: rat
  tick :: nat
  scheduled :: nat
  awaiting :: "(pybytes list \<times> rat) list"

definition count_up :: "string \<Rightarrow> int \<Rightarrow> Ingest \<Rightarrow> Ingest" where
  "count_up name v g = g\<lparr>metrics := incr name v (metrics g)\<rparr>"

definition new_ingest :: "Metrics \<Rightarrow> Ingest" where
  "new_ingest m = \<lparr>metrics = m, buffer = [], pushing = False, paused_until = 0, last_warn = 0,
     tick = 0, scheduled = 0, awaiting = []\<rparr>"

section \<open>The hot path\<close>

definition schedule_flush :: "Ingest \<Rightarrow> Ingest" where
  "schedule_flush g =
     (if \<not> pushing g \<and> buffer g \<noteq> [] then g\<lparr>pushing := True, scheduled := scheduled g + 1\<rparr> else g)"

definition handle ::
    "ucd \<Rightarrow> (mval \<Rightarrow> pybytes) \<Rightarrow> ingest_cfg \<Rightarrow> pystr set \<Rightarrow> int \<Rightarrow> pybytes \<Rightarrow> pystr \<Rightarrow> Ingest \<Rightarrow> Ingest" where
  "handle U pack cfg registry time payload source_ip g =
     (let g = count_up BYTES_RECEIVED (int (length payload)) (count_up RECEIVED 1 g)
      in if source_ip \<notin> registry then count_up DROPPED_UNKNOWN_ROUTER 1 g
         else
           (case parse_bytes U (parser_cfg cfg) payload of
              (None, _) \<Rightarrow> count_up PARSER_ERRORS 1 g
            | (Some record, _) \<Rightarrow>
                (let g = count_up PARSED 1 g;
                     g = g\<lparr>buffer := buffer g @ [encode pack (as_row record time source_ip)]\<rparr>
                 in if length (buffer g) \<ge> push_batch cfg then schedule_flush g else g)))"

section \<open>Pushing\<close>

text \<open>\<open>_push\<close> up to its await: take the buffer, or shed it while paused.\<close>

definition push_start :: "rat \<Rightarrow> Ingest \<Rightarrow> Ingest" where
  "push_start now g =
     (let batch = buffer g; g = g\<lparr>buffer := []\<rparr>
      in if batch = [] then g\<lparr>pushing := False\<rparr>
         else if now < paused_until g then
           (count_up DROPPED_BACKPRESSURE (int (length batch)) g)\<lparr>pushing := False\<rparr>
         else g\<lparr>awaiting := awaiting g @ [(batch, now)]\<rparr>)"

text \<open>
  \<open>_push\<close> from its await on, for the \<open>i\<close>th batch under way, with the outcome of the call.
\<close>

definition push_end ::
    "'r redis \<Rightarrow> LogQueue \<Rightarrow> net \<Rightarrow> nat \<Rightarrow> Ingest \<Rightarrow> 'r \<Rightarrow> Ingest \<times> 'r" where
  "push_end R q net i g s =
     (if i < length (awaiting g) then
        (let (batch, now) = awaiting g ! i;
             g = g\<lparr>awaiting := take i (awaiting g) @ drop (i + 1) (awaiting g)\<rparr>
         in case push_many R q net batch s of
              (Inl _, s') \<Rightarrow>
                (let g = count_up DROPPED_REDIS_ERROR (int (length batch)) g;
                     g = (if now - last_warn g > 10 then g\<lparr>last_warn := now\<rparr> else g)
                 in (g\<lparr>pushing := False\<rparr>, s'))
            | (Inr _, s') \<Rightarrow> (g\<lparr>pushing := False\<rparr>, s'))
      else (g, s))"

text \<open>
  One round of \<open>run_flusher\<close> up to its possible depth check, and that check. \<open>check_every\<close> is
  the number of rounds that make up two seconds, at least 1.
\<close>

definition flusher_tick :: "nat \<Rightarrow> Ingest \<Rightarrow> Ingest \<times> bool" where
  "flusher_tick check_every g =
     (let g = schedule_flush g; g = g\<lparr>tick := tick g + 1\<rparr>
      in (g, tick g mod check_every = 0))"

definition check_backpressure ::
    "'r redis \<Rightarrow> LogQueue \<Rightarrow> net \<Rightarrow> rat \<Rightarrow> Ingest \<Rightarrow> 'r \<Rightarrow> Ingest" where
  "check_backpressure R q net now g s =
     (let depth = queue_length R q net s
      in if depth < 0 then g
         else if depth > max_len q then g\<lparr>paused_until := now + 5\<rparr> else g)"

section \<open>Events\<close>

text \<open>
  \<open>Drain\<close> is the direct call of \<open>_push\<close> at shutdown. A depth check can run at any time,
  which covers the flusher's schedule.
\<close>

datatype ievent =
    Datagram pybytes pystr int
  | Tick
  | PushStart rat
  | PushEnd nat net
  | Depth net rat
  | Drain rat

fun ingest_step ::
    "ucd \<Rightarrow> (mval \<Rightarrow> pybytes) \<Rightarrow> 'r redis \<Rightarrow> LogQueue \<Rightarrow> ingest_cfg \<Rightarrow> pystr set \<Rightarrow> ievent
      \<Rightarrow> Ingest \<times> 'r \<Rightarrow> Ingest \<times> 'r" where
  "ingest_step U pack R q cfg reg (Datagram payload ip time) (g, s) =
     (handle U pack cfg reg time payload ip g, s)"
| "ingest_step U pack R q cfg reg Tick (g, s) = (fst (flusher_tick 1 g), s)"
| "ingest_step U pack R q cfg reg (PushStart now) (g, s) =
     (if 0 < scheduled g then push_start now (g\<lparr>scheduled := scheduled g - 1\<rparr>) else g, s)"
| "ingest_step U pack R q cfg reg (PushEnd i net) (g, s) = push_end R q net i g s"
| "ingest_step U pack R q cfg reg (Depth net now) (g, s) = (check_backpressure R q net now g s, s)"
| "ingest_step U pack R q cfg reg (Drain now) (g, s) = (push_start now g, s)"

definition ingest_run ::
    "ucd \<Rightarrow> (mval \<Rightarrow> pybytes) \<Rightarrow> 'r redis \<Rightarrow> LogQueue \<Rightarrow> ingest_cfg \<Rightarrow> pystr set \<Rightarrow> ievent list
      \<Rightarrow> Ingest \<times> 'r \<Rightarrow> Ingest \<times> 'r" where
  "ingest_run U pack R q cfg reg evs x = fold (ingest_step U pack R q cfg reg) evs x"

section \<open>Lemmas\<close>

text \<open>What the hot path decides about a datagram.\<close>

datatype verdict = Unknown | Unparsed | Accepted pybytes

definition judge ::
    "ucd \<Rightarrow> (mval \<Rightarrow> pybytes) \<Rightarrow> ingest_cfg \<Rightarrow> pystr set \<Rightarrow> int \<Rightarrow> pybytes \<Rightarrow> pystr \<Rightarrow> verdict" where
  "judge U pack cfg reg time payload ip =
     (if ip \<notin> reg then Unknown
      else (case parse_bytes U (parser_cfg cfg) payload of
              (None, _) \<Rightarrow> Unparsed
            | (Some record, _) \<Rightarrow> Accepted (encode pack (as_row record time ip))))"

definition accepted :: "verdict \<Rightarrow> pybytes list" where
  "accepted v = (case v of Accepted b \<Rightarrow> [b] | _ \<Rightarrow> [])"

lemma accepted_simps [simp]:
  "accepted Unknown = []" "accepted Unparsed = []" "accepted (Accepted b) = [b]"
  by (simp_all add: accepted_def)

text \<open>The records a sequence of events brings in.\<close>

definition arrival ::
    "ucd \<Rightarrow> (mval \<Rightarrow> pybytes) \<Rightarrow> ingest_cfg \<Rightarrow> pystr set \<Rightarrow> ievent \<Rightarrow> pybytes list" where
  "arrival U pack cfg reg ev =
     (case ev of Datagram payload ip time \<Rightarrow> accepted (judge U pack cfg reg time payload ip) | _ \<Rightarrow> [])"

definition tally :: "Ingest \<Rightarrow> string \<Rightarrow> int" where
  "tally g name = local_count (metrics g) name"

lemma tally_simps [simp]:
  "tally (count_up n v g) name = tally g name + (if n = name then v else 0)"
  "tally (g\<lparr>buffer := b\<rparr>) name = tally g name"
  "tally (g\<lparr>pushing := p\<rparr>) name = tally g name"
  "tally (g\<lparr>paused_until := t\<rparr>) name = tally g name"
  "tally (g\<lparr>last_warn := t\<rparr>) name = tally g name"
  "tally (g\<lparr>tick := k\<rparr>) name = tally g name"
  "tally (g\<lparr>scheduled := k\<rparr>) name = tally g name"
  "tally (g\<lparr>awaiting := a\<rparr>) name = tally g name"
  by (simp_all add: tally_def count_up_def count_incr)

lemma count_up_fields [simp]:
  "buffer (count_up n v g) = buffer g" "pushing (count_up n v g) = pushing g"
  "paused_until (count_up n v g) = paused_until g" "last_warn (count_up n v g) = last_warn g"
  "tick (count_up n v g) = tick g" "scheduled (count_up n v g) = scheduled g"
  "awaiting (count_up n v g) = awaiting g"
  by (simp_all add: count_up_def)

lemma schedule_flush_fields [simp]:
  "tally (schedule_flush g) name = tally g name" "buffer (schedule_flush g) = buffer g"
  "awaiting (schedule_flush g) = awaiting g" "paused_until (schedule_flush g) = paused_until g"
  by (simp_all add: schedule_flush_def)

lemma flusher_tick_fields [simp]:
  "tally (fst (flusher_tick k g)) name = tally g name"
  "buffer (fst (flusher_tick k g)) = buffer g" "awaiting (fst (flusher_tick k g)) = awaiting g"
  "paused_until (fst (flusher_tick k g)) = paused_until g"
  by (simp_all add: flusher_tick_def Let_def)

lemma check_backpressure_fields [simp]:
  "tally (check_backpressure R q net now g s) name = tally g name"
  "buffer (check_backpressure R q net now g s) = buffer g"
  "awaiting (check_backpressure R q net now g s) = awaiting g"
  "pushing (check_backpressure R q net now g s) = pushing g"
  "scheduled (check_backpressure R q net now g s) = scheduled g"
  by (simp_all add: check_backpressure_def Let_def)

text \<open>The hot path, by its verdict.\<close>

lemma handle_effect:
  "buffer (handle U pack cfg reg time payload ip g)
     = buffer g @ accepted (judge U pack cfg reg time payload ip)"
  "awaiting (handle U pack cfg reg time payload ip g) = awaiting g"
  "paused_until (handle U pack cfg reg time payload ip g) = paused_until g"
  by (auto simp: handle_def Let_def judge_def split: prod.splits option.splits)

lemma handle_tally:
  "tally (handle U pack cfg reg time payload ip g) name = tally g name
     + (if name = RECEIVED then 1 else 0)
     + (if name = BYTES_RECEIVED then int (length payload) else 0)
     + (case judge U pack cfg reg time payload ip of
          Unknown \<Rightarrow> if name = DROPPED_UNKNOWN_ROUTER then 1 else 0
        | Unparsed \<Rightarrow> if name = PARSER_ERRORS then 1 else 0
        | Accepted _ \<Rightarrow> if name = PARSED then 1 else 0)"
  by (auto simp: handle_def Let_def judge_def split: prod.splits option.splits)

text \<open>Records parsed and not yet accounted for by the queue or a drop counter.\<close>

definition in_hand :: "Ingest \<Rightarrow> pybytes list" where
  "in_hand g = concat (map fst (awaiting g)) @ buffer g"

definition dropped :: "Ingest \<Rightarrow> int" where
  "dropped g = tally g DROPPED_BACKPRESSURE + tally g DROPPED_REDIS_ERROR"

text \<open>A push of a batch, by the outcome of the network.\<close>

context redis_lists
begin

lemma push_many_outcome:
  assumes "batch \<noteq> []"
  shows "fst (push_many R q net batch s) = (if net = Reply then Inr (length batch) else Inl RedisError)"
    "V (snd (push_many R q net batch s)) (queue_key q)
       = V s (queue_key q) @ (if net = Refused then [] else batch)"
  using assms by (cases net; simp add: push_many_def rpush_law)+

lemma push_end_effect:
  assumes "i < length (awaiting g)" "fst (awaiting g ! i) \<noteq> []"
  shows "V (snd (push_end R q net i g s)) (queue_key q)
      = V s (queue_key q) @ (if net = Refused then [] else fst (awaiting g ! i))"
    "buffer (fst (push_end R q net i g s)) = buffer g"
    "awaiting (fst (push_end R q net i g s)) = take i (awaiting g) @ drop (i + 1) (awaiting g)"
    "tally (fst (push_end R q net i g s)) name = tally g name
      + (if net \<noteq> Reply \<and> name = DROPPED_REDIS_ERROR then int (length (fst (awaiting g ! i))) else 0)"
    "pushing (fst (push_end R q net i g s)) = False"
    "scheduled (fst (push_end R q net i g s)) = scheduled g"
    "paused_until (fst (push_end R q net i g s)) = paused_until g"
proof -
  obtain batch now where b: "awaiting g ! i = (batch, now)" by force
  obtain r t where rt: "push_many R q net batch s = (r, t)" by force
  show "V (snd (push_end R q net i g s)) (queue_key q)
      = V s (queue_key q) @ (if net = Refused then [] else fst (awaiting g ! i))"
    "buffer (fst (push_end R q net i g s)) = buffer g"
    "awaiting (fst (push_end R q net i g s)) = take i (awaiting g) @ drop (i + 1) (awaiting g)"
    "tally (fst (push_end R q net i g s)) name = tally g name
      + (if net \<noteq> Reply \<and> name = DROPPED_REDIS_ERROR then int (length (fst (awaiting g ! i))) else 0)"
    "pushing (fst (push_end R q net i g s)) = False"
    "scheduled (fst (push_end R q net i g s)) = scheduled g"
    "paused_until (fst (push_end R q net i g s)) = paused_until g"
    using push_many_outcome [of batch q net s] assms b rt
    by (cases r; auto simp: push_end_def Let_def split: if_splits)+
qed

end

section \<open>Balance and order\<close>

definition awaiting_ok :: "Ingest \<Rightarrow> bool" where
  "awaiting_ok g \<longleftrightarrow> (\<forall>p \<in> set (awaiting g). fst p \<noteq> [])"

fun no_lost_reply :: "ievent \<Rightarrow> bool" where
  "no_lost_reply (PushEnd i net) = (net \<noteq> ReplyLost)"
| "no_lost_reply ev = True"

fun not_drain :: "ievent \<Rightarrow> bool" where
  "not_drain (Drain now) = False"
| "not_drain ev = True"

text \<open>At most one push is outstanding, and the flag says whether one is.\<close>

definition slot_ok :: "Ingest \<Rightarrow> bool" where
  "slot_ok g \<longleftrightarrow> scheduled g + length (awaiting g) = (if pushing g then 1 else 0)"

lemma concat_remove_nth:
  "i < length xs \<Longrightarrow> length (concat (map f (take i xs @ drop (i + 1) xs))) + length (f (xs ! i))
     = length (concat (map f xs))"
proof -
  assume "i < length xs"
  then have "xs = take i xs @ xs ! i # drop (i + 1) xs" by (simp add: id_take_nth_drop)
  then have "length (concat (map f xs)) = length (concat (map f (take i xs @ xs ! i # drop (i + 1) xs)))"
    by metis
  then show ?thesis by simp
qed

lemma push_start_effect:
  "awaiting_ok g \<Longrightarrow> awaiting_ok (push_start now g)"
  "int (length (in_hand (push_start now g))) + dropped (push_start now g)
     = int (length (in_hand g)) + dropped g"
  "tally (push_start now g) PARSED = tally g PARSED"
  "subseq (in_hand (push_start now g)) (in_hand g)"
  by (auto simp: push_start_def Let_def awaiting_ok_def in_hand_def dropped_def counter_names
      split: if_splits)

lemma slot_ok_scheduled:
  "slot_ok g \<Longrightarrow> 0 < scheduled g \<Longrightarrow> scheduled g = 1 \<and> awaiting g = [] \<and> pushing g"
  by (cases "awaiting g") (auto simp: slot_ok_def split: if_splits)

lemma slot_ok_awaiting:
  "slot_ok g \<Longrightarrow> i < length (awaiting g) \<Longrightarrow> scheduled g = 0 \<and> i = 0 \<and> length (awaiting g) = 1"
  by (auto simp: slot_ok_def split: if_splits)

lemma push_start_slot_ok:
  "slot_ok g \<Longrightarrow> 0 < scheduled g \<Longrightarrow> slot_ok (push_start now (g\<lparr>scheduled := scheduled g - 1\<rparr>))"
proof -
  assume "slot_ok g" "0 < scheduled g"
  then have "scheduled g = 1 \<and> awaiting g = [] \<and> pushing g" by (rule slot_ok_scheduled)
  then show ?thesis by (auto simp: push_start_def Let_def slot_ok_def)
qed

lemma handle_slot_ok: "slot_ok g \<Longrightarrow> slot_ok (handle U pack cfg reg time payload ip g)"
  by (auto simp: slot_ok_def handle_def schedule_flush_def Let_def split: prod.splits option.splits)

lemma flusher_tick_slot_ok: "slot_ok g \<Longrightarrow> slot_ok (fst (flusher_tick k g))"
  by (auto simp: slot_ok_def flusher_tick_def schedule_flush_def Let_def split: if_splits)

lemma in_hand_cong:
  "in_hand (g\<lparr>scheduled := n\<rparr>) = in_hand g" "dropped (g\<lparr>scheduled := n\<rparr>) = dropped g"
  "awaiting_ok (g\<lparr>scheduled := n\<rparr>) = awaiting_ok g"
  by (simp_all add: in_hand_def dropped_def awaiting_ok_def)

context redis_lists
begin

text \<open>Everything parsed is queued, in hand or counted as dropped.\<close>

lemma push_end_balance:
  assumes "awaiting_ok g"
  shows "awaiting_ok (fst (push_end R q net i g s)) \<and>
    tally (fst (push_end R q net i g s)) PARSED = tally g PARSED \<and>
    int (length (in_hand g)) + dropped g + int (length (V s (queue_key q)))
      + (if net = ReplyLost \<and> i < length (awaiting g) then int (length (fst (awaiting g ! i))) else 0)
     = int (length (in_hand (fst (push_end R q net i g s)))) + dropped (fst (push_end R q net i g s))
      + int (length (V (snd (push_end R q net i g s)) (queue_key q)))"
proof (cases "i < length (awaiting g)")
  case True
  then have ne: "fst (awaiting g ! i) \<noteq> []" using assms by (simp add: awaiting_ok_def)
  note eff = push_end_effect [OF True ne]
  have "awaiting_ok (fst (push_end R q net i g s))"
    using assms by (auto simp: awaiting_ok_def eff dest: in_set_takeD in_set_dropD)
  then show ?thesis
    using concat_remove_nth [OF True, of fst] True
    by (cases net) (simp_all add: in_hand_def dropped_def eff counter_names)
next
  case False
  then show ?thesis using assms by (simp add: push_end_def)
qed

lemma push_end_order:
  assumes "awaiting_ok g" "slot_ok g"
  shows "slot_ok (fst (push_end R q net i g s)) \<and>
    subseq (V (snd (push_end R q net i g s)) (queue_key q) @ in_hand (fst (push_end R q net i g s)))
      (V s (queue_key q) @ in_hand g)"
proof (cases "i < length (awaiting g)")
  case True
  then obtain p where p: "awaiting g = [p]" "i = 0" "fst p \<noteq> []" "scheduled g = 0"
    using slot_ok_awaiting [OF assms(2) True] assms(1)
    by (metis One_nat_def awaiting_ok_def length_0_conv length_Suc_conv list.set_intros(1))
  have ne: "fst (awaiting g ! i) \<noteq> []" using p by simp
  note eff = push_end_effect [OF True ne, unfolded p(2)]
  show ?thesis using p by (cases net) (simp_all add: slot_ok_def in_hand_def eff subseq_append' list_emb_append2)
next
  case False
  then show ?thesis using assms by (simp add: push_end_def)
qed

text \<open>One event.\<close>

lemma step_balance:
  assumes "awaiting_ok g" and "ingest_step U pack R q cfg reg ev (g, s) = (g', s')"
  shows "awaiting_ok g' \<and>
    int (length (in_hand g)) + dropped g + int (length (V s (queue_key q))) - tally g PARSED
      \<le> int (length (in_hand g')) + dropped g' + int (length (V s' (queue_key q))) - tally g' PARSED \<and>
    (no_lost_reply ev \<longrightarrow>
      int (length (in_hand g)) + dropped g + int (length (V s (queue_key q))) - tally g PARSED
      = int (length (in_hand g')) + dropped g' + int (length (V s' (queue_key q))) - tally g' PARSED)"
proof (cases ev)
  case (Datagram payload ip time)
  then show ?thesis
    using assms
    by (auto simp: awaiting_ok_def in_hand_def dropped_def handle_effect handle_tally counter_names
        split: verdict.splits)
next
  case Tick
  then show ?thesis using assms by (auto simp: awaiting_ok_def in_hand_def dropped_def)
next
  case (Depth net now)
  then show ?thesis using assms by (auto simp: awaiting_ok_def in_hand_def dropped_def)
next
  case (PushStart now)
  then show ?thesis
    using assms push_start_effect(1-3) [where g = "g\<lparr>scheduled := scheduled g - 1\<rparr>" and now = now]
    by (auto simp: in_hand_cong split: if_splits)
next
  case (Drain now)
  then show ?thesis using assms push_start_effect(1-3) [where g = g and now = now] by auto
next
  case (PushEnd i net)
  then have "fst (push_end R q net i g s) = g'" "snd (push_end R q net i g s) = s'"
    using assms(2) by simp_all
  then show ?thesis
    using push_end_balance [OF assms(1), of q net i s] PushEnd by (auto split: if_splits)
qed

lemma step_order:
  assumes "awaiting_ok g" "slot_ok g" "not_drain ev"
    and "ingest_step U pack R q cfg reg ev (g, s) = (g', s')"
  shows "slot_ok g' \<and>
    subseq (V s' (queue_key q) @ in_hand g')
      (V s (queue_key q) @ in_hand g @ arrival U pack cfg reg ev)"
proof (cases ev)
  case (Datagram payload ip time)
  then show ?thesis
    using assms handle_slot_ok
    by (auto simp: in_hand_def arrival_def handle_effect)
next
  case Tick
  then show ?thesis using assms flusher_tick_slot_ok by (auto simp: in_hand_def arrival_def)
next
  case (Depth net now)
  then show ?thesis using assms by (auto simp: in_hand_def arrival_def slot_ok_def)
next
  case (PushStart now)
  then show ?thesis
    using assms push_start_effect(4) [of now "g\<lparr>scheduled := scheduled g - 1\<rparr>"] push_start_slot_ok
    by (auto simp: in_hand_cong arrival_def subseq_append' split: if_splits)
next
  case (PushEnd i net)
  then show ?thesis
    using push_end_order [OF assms(1,2), of q net i s] assms(4) by (auto simp: arrival_def)
qed (use assms in simp)

text \<open>Whole runs.\<close>

lemma run_balance:
  assumes "awaiting_ok g" and "ingest_run U pack R q cfg reg evs (g, s) = (g', s')"
  shows "awaiting_ok g' \<and>
    int (length (in_hand g)) + dropped g + int (length (V s (queue_key q))) - tally g PARSED
      \<le> int (length (in_hand g')) + dropped g' + int (length (V s' (queue_key q))) - tally g' PARSED \<and>
    ((\<forall>ev \<in> set evs. no_lost_reply ev) \<longrightarrow>
      int (length (in_hand g)) + dropped g + int (length (V s (queue_key q))) - tally g PARSED
      = int (length (in_hand g')) + dropped g' + int (length (V s' (queue_key q))) - tally g' PARSED)"
  using assms
proof (induction evs arbitrary: g s)
  case (Cons ev evs)
  obtain g1 s1 where st: "ingest_step U pack R q cfg reg ev (g, s) = (g1, s1)" by force
  have run: "ingest_run U pack R q cfg reg evs (g1, s1) = (g', s')"
    using Cons.prems(2) st by (simp add: ingest_run_def)
  show ?case
    using step_balance [OF Cons.prems(1) st] Cons.IH [OF _ run] by auto
qed (auto simp: ingest_run_def)

lemma run_order:
  assumes "awaiting_ok g" "slot_ok g" "\<forall>ev \<in> set evs. not_drain ev"
    and "ingest_run U pack R q cfg reg evs (g, s) = (g', s')"
  shows "slot_ok g' \<and>
    subseq (V s' (queue_key q) @ in_hand g')
      (V s (queue_key q) @ in_hand g @ concat (map (arrival U pack cfg reg) evs))"
  using assms
proof (induction evs arbitrary: g s)
  case (Cons ev evs)
  obtain g1 s1 where st: "ingest_step U pack R q cfg reg ev (g, s) = (g1, s1)" by force
  have run: "ingest_run U pack R q cfg reg evs (g1, s1) = (g', s')"
    using Cons.prems(4) st by (simp add: ingest_run_def)
  have ev: "not_drain ev" "\<forall>ev \<in> set evs. not_drain ev" using Cons.prems(3) by auto
  have g1: "awaiting_ok g1" using step_balance [OF Cons.prems(1) st] by blast
  note o1 = step_order [OF Cons.prems(1,2) ev(1) st]
  let ?rest = "concat (map (arrival U pack cfg reg) evs)"
  have "subseq (V s' (queue_key q) @ in_hand g') ((V s1 (queue_key q) @ in_hand g1) @ ?rest)"
    using Cons.IH [OF g1 _ ev(2) run] o1 by simp
  also have "subseq \<dots> ((V s (queue_key q) @ in_hand g @ arrival U pack cfg reg ev) @ ?rest)"
    using o1 by (simp only: subseq_append)
  finally show ?case using Cons.IH [OF g1 _ ev(2) run] o1 by simp
qed (auto simp: ingest_run_def)

end

text \<open>What the datagrams of a run come to: the registry and the parser alone decide.\<close>

fun arrives :: "ievent \<Rightarrow> bool" where
  "arrives (Datagram payload ip time) = True"
| "arrives ev = False"

fun foreign :: "pystr set \<Rightarrow> ievent \<Rightarrow> bool" where
  "foreign reg (Datagram payload ip time) = (ip \<notin> reg)"
| "foreign reg ev = False"

fun unparsed :: "ucd \<Rightarrow> ingest_cfg \<Rightarrow> pystr set \<Rightarrow> ievent \<Rightarrow> bool" where
  "unparsed U cfg reg (Datagram payload ip time) = (ip \<in> reg \<and> fst (parse_bytes U (parser_cfg cfg) payload) = None)"
| "unparsed U cfg reg ev = False"

fun parses :: "ucd \<Rightarrow> ingest_cfg \<Rightarrow> pystr set \<Rightarrow> ievent \<Rightarrow> bool" where
  "parses U cfg reg (Datagram payload ip time) = (ip \<in> reg \<and> fst (parse_bytes U (parser_cfg cfg) payload) \<noteq> None)"
| "parses U cfg reg ev = False"

fun bytes_of :: "ievent \<Rightarrow> nat" where
  "bytes_of (Datagram payload ip time) = length payload"
| "bytes_of ev = 0"

abbreviation count_of :: "('a \<Rightarrow> bool) \<Rightarrow> 'a list \<Rightarrow> int" where
  "count_of P xs \<equiv> int (length (filter P xs))"

lemma ingest_step_counts:
  assumes "ingest_step U pack R q cfg reg ev (g, s) = (g', s')"
  shows "tally g' RECEIVED = tally g RECEIVED + count_of arrives [ev]"
    "tally g' DROPPED_UNKNOWN_ROUTER = tally g DROPPED_UNKNOWN_ROUTER + count_of (foreign reg) [ev]"
    "tally g' PARSER_ERRORS = tally g PARSER_ERRORS + count_of (unparsed U cfg reg) [ev]"
    "tally g' PARSED = tally g PARSED + count_of (parses U cfg reg) [ev]"
    "tally g' BYTES_RECEIVED = tally g BYTES_RECEIVED + int (bytes_of ev)"
proof -
  have g': "g' = fst (ingest_step U pack R q cfg reg ev (g, s))" using assms by simp
  show "tally g' RECEIVED = tally g RECEIVED + count_of arrives [ev]"
    "tally g' DROPPED_UNKNOWN_ROUTER = tally g DROPPED_UNKNOWN_ROUTER + count_of (foreign reg) [ev]"
    "tally g' PARSER_ERRORS = tally g PARSER_ERRORS + count_of (unparsed U cfg reg) [ev]"
    "tally g' PARSED = tally g PARSED + count_of (parses U cfg reg) [ev]"
    "tally g' BYTES_RECEIVED = tally g BYTES_RECEIVED + int (bytes_of ev)"
    unfolding g'
    by (cases ev; auto simp: handle_def push_start_def push_end_def Let_def counter_names schedule_flush_def
         split: prod.splits option.splits sum.splits)+
qed

section \<open>Properties\<close>

text \<open>C15 (received_accounted): Over any run of the event loop every datagram adds exactly one to the received counter, its length to the bytes, and exactly one to one of three others: to unknown routers when its source is not in the allow list, to parser errors when it is and the parser refuses the line, to parsed when it accepts it. Nothing else moves these counters: no datagram leaves the hot path silently, and none is counted twice.\<close>

theorem received_accounted:
  assumes "ingest_run U pack R q cfg reg evs (g, s) = (g', s')"
  shows "tally g' RECEIVED = tally g RECEIVED + count_of arrives evs
    \<and> tally g' DROPPED_UNKNOWN_ROUTER = tally g DROPPED_UNKNOWN_ROUTER + count_of (foreign reg) evs
    \<and> tally g' PARSER_ERRORS = tally g PARSER_ERRORS + count_of (unparsed U cfg reg) evs
    \<and> tally g' PARSED = tally g PARSED + count_of (parses U cfg reg) evs
    \<and> tally g' BYTES_RECEIVED = tally g BYTES_RECEIVED + int (sum_list (map bytes_of evs))
    \<and> count_of arrives evs = count_of (foreign reg) evs + count_of (unparsed U cfg reg) evs + count_of (parses U cfg reg) evs"
  using assms
proof (induction evs arbitrary: g s)
  case Nil
  then show ?case by (simp add: ingest_run_def)
next
  case (Cons ev evs)
  obtain g1 s1 where st: "ingest_step U pack R q cfg reg ev (g, s) = (g1, s1)" by force
  have "ingest_run U pack R q cfg reg evs (g1, s1) = (g', s')" using Cons.prems st by (simp add: ingest_run_def)
  note IH = Cons.IH [OF this]
  show ?case using IH ingest_step_counts [OF st] by (cases ev) auto
qed

text \<open>A run the witnesses share: a foreign sender, a line that does not parse, a tick, a push.\<close>

definition demo_cfg :: ingest_cfg where
  "demo_cfg = \<lparr>parser_cfg = default_parser, push_batch = 2\<rparr>"

definition demo_events :: "ievent list" where
  "demo_events =
     [Datagram ''<134>x'' (lit ''198.51.100.9'') 0, Datagram ''<134>x'' (lit ''192.0.2.1'') 0,
      Tick, PushStart 1, PushEnd 0 Reply]"

lemma demo_events_ok:
  "\<forall>ev \<in> set demo_events. not_drain ev" "\<forall>ev \<in> set demo_events. no_lost_reply ev"
  by (simp_all add: demo_events_def)

lemma fresh_tally [simp]: "tally (new_ingest fresh_metrics) name = 0"
  by (simp add: tally_def new_ingest_def local_count_def fresh_metrics_def)

theorem received_accounted_witness:
  "\<exists>g s'. ingest_run ascii_only unary_pack ref_redis default_queue demo_cfg {lit ''192.0.2.1''}
       demo_events (new_ingest fresh_metrics, demo_store) = (g, s')
     \<and> tally g RECEIVED = 2 \<and> tally g DROPPED_UNKNOWN_ROUTER = 1 \<and> tally g PARSER_ERRORS + tally g PARSED = 1"
proof -
  obtain g s' where run: "ingest_run ascii_only unary_pack ref_redis default_queue demo_cfg
      {lit ''192.0.2.1''} demo_events (new_ingest fresh_metrics, demo_store) = (g, s')"
    by (metis prod.collapse)
  have "lit ''198.51.100.9'' \<noteq> lit ''192.0.2.1''" by (simp add: lit_def)
  then have "count_of arrives demo_events = 2" "count_of (foreign {lit ''192.0.2.1''}) demo_events = 1"
    by (simp_all add: demo_events_def)
  then show ?thesis using received_accounted [OF run] run by auto
qed

text \<open>Also (parsed_accounted): Every parsed record is in the Redis queue, in a batch under way, in the buffer, or counted as dropped by backpressure or by a Redis error, for every interleaving of datagrams, flushes, depth checks and failing pushes. When no reply of a push is lost the books balance exactly; a lost reply only makes the receiver count records as dropped that did reach the queue.\<close>

theorem parsed_accounted:
  assumes "redis_lists R V"
    and "ingest_run U pack R q cfg reg evs (new_ingest m, s) = (g, s')"
  shows "tally g PARSED - local_count m PARSED + int (length (V s (queue_key q)))
      \<le> int (length (V s' (queue_key q))) + int (length (in_hand g)) + dropped g
        - dropped (new_ingest m)
    \<and> ((\<forall>ev \<in> set evs. no_lost_reply ev) \<longrightarrow>
      tally g PARSED - local_count m PARSED + int (length (V s (queue_key q)))
      = int (length (V s' (queue_key q))) + int (length (in_hand g)) + dropped g
        - dropped (new_ingest m))"
proof -
  have "awaiting_ok (new_ingest m)" "in_hand (new_ingest m) = []"
    "tally (new_ingest m) PARSED = local_count m PARSED"
    by (simp_all add: awaiting_ok_def new_ingest_def in_hand_def tally_def)
  then show ?thesis
    using redis_lists.run_balance [OF assms(1) _ assms(2)] by auto
qed

theorem parsed_accounted_witness:
  "\<exists>g s'. ingest_run ascii_only unary_pack ref_redis default_queue demo_cfg {lit ''192.0.2.1''}
       demo_events (new_ingest fresh_metrics, demo_store) = (g, s')
     \<and> tally g PARSED + 2 = int (length (ref_list s' ''nls:queue'')) + int (length (in_hand g)) + dropped g"
proof -
  obtain g s' where run: "ingest_run ascii_only unary_pack ref_redis default_queue demo_cfg
      {lit ''192.0.2.1''} demo_events (new_ingest fresh_metrics, demo_store) = (g, s')"
    by (metis prod.collapse)
  have "local_count fresh_metrics PARSED = 0" "dropped (new_ingest fresh_metrics) = 0"
    using fresh_tally by (simp_all add: tally_def new_ingest_def dropped_def)
  then show ?thesis
    using parsed_accounted [OF ref_lists run] run demo_events_ok(2)
    by (auto simp: queue_key_default demo_lists)
qed

text \<open>Also (receiver_order): Until shutdown, what is in the queue followed by what is in hand is, in order, a subsequence of what was in the queue and what then arrived: the receiver never reorders or duplicates a record. At most one push is outstanding, and the flag that gates new ones is set exactly while there is one, so it cannot stay set with nobody left to clear it.\<close>

theorem receiver_order:
  assumes "redis_lists R V" and "\<forall>ev \<in> set evs. not_drain ev"
    and "ingest_run U pack R q cfg reg evs (new_ingest m, s) = (g, s')"
  shows "subseq (V s' (queue_key q) @ in_hand g)
      (V s (queue_key q) @ concat (map (arrival U pack cfg reg) evs))
    \<and> scheduled g + length (awaiting g) = (if pushing g then 1 else 0)"
proof -
  have "awaiting_ok (new_ingest m)" "slot_ok (new_ingest m)" "in_hand (new_ingest m) = []"
    by (simp_all add: awaiting_ok_def slot_ok_def new_ingest_def in_hand_def)
  then show ?thesis
    using redis_lists.run_order [OF assms(1) _ _ assms(2,3)] by (auto simp: slot_ok_def)
qed

theorem receiver_order_witness:
  "\<exists>g s'. ingest_run ascii_only unary_pack ref_redis default_queue demo_cfg {lit ''192.0.2.1''}
       demo_events (new_ingest fresh_metrics, demo_store) = (g, s')
     \<and> subseq (ref_list s' ''nls:queue'' @ in_hand g)
         ([''a'', ''b''] @ concat (map (arrival ascii_only unary_pack demo_cfg {lit ''192.0.2.1''}) demo_events))"
proof -
  obtain g s' where run: "ingest_run ascii_only unary_pack ref_redis default_queue demo_cfg
      {lit ''192.0.2.1''} demo_events (new_ingest fresh_metrics, demo_store) = (g, s')"
    by (metis prod.collapse)
  show ?thesis
    using receiver_order [OF ref_lists demo_events_ok(1) run] run
    by (auto simp: queue_key_default demo_lists)
qed

text \<open>Also (backpressure_sheds): A depth check that reads a queue over its limit at time t makes every push that starts before t + 5 drop its whole batch, count it, free the push slot and leave Redis alone; a check that cannot read the depth changes nothing.\<close>

theorem backpressure_sheds:
  assumes "redis_lists R V" and "int (length (V s (queue_key q))) > max_len q" and "0 \<le> max_len q"
    and "now < t + 5" and "buffer g \<noteq> []"
  shows "push_start now (check_backpressure R q Reply t g s)
      = (count_up DROPPED_BACKPRESSURE (int (length (buffer g)))
           (g\<lparr>paused_until := t + 5, buffer := []\<rparr>))\<lparr>pushing := False\<rparr>
    \<and> (net \<noteq> Reply \<longrightarrow> check_backpressure R q net t g s = g)"
  using assms(2-5) redis_lists.llen_law [OF assms(1)]
  by (cases net) (auto simp: check_backpressure_def queue_length_def push_start_def Let_def)

theorem backpressure_sheds_witness:
  "buffer (push_start 4 (check_backpressure ref_redis (default_queue\<lparr>max_len := 1\<rparr>) Reply 0
      ((new_ingest fresh_metrics)\<lparr>buffer := [''r'']\<rparr>) demo_store)) = []
   \<and> tally (push_start 4 (check_backpressure ref_redis (default_queue\<lparr>max_len := 1\<rparr>) Reply 0
      ((new_ingest fresh_metrics)\<lparr>buffer := [''r'']\<rparr>) demo_store)) DROPPED_BACKPRESSURE = 1"
  using backpressure_sheds [OF ref_lists, of "default_queue\<lparr>max_len := 1\<rparr>" demo_store 4 0
      "(new_ingest fresh_metrics)\<lparr>buffer := [''r'']\<rparr>"]
  by (simp add: queue_key_default demo_lists)

text \<open>Also (refresh_allow_list): The allow-list never goes empty because Redis does: when the cached set is empty or the read fails, and the metadata store answers, the list becomes the enabled routers of the store (published back to Redis when that call gets through); when both fail it stays as it was; a non-empty cached set is taken as it is.\<close>

theorem refresh_allow_list:
  assumes "redis_sets R S"
  shows "(rd \<noteq> Reply \<or> S s ROUTER_SET_KEY = {} \<longrightarrow>
      fst (refresh R rd (Some (Inr l)) wr cur s) = set l
      \<and> S (snd (refresh R rd (Some (Inr l)) wr cur s)) ROUTER_SET_KEY
        = (if wr = Refused then S s ROUTER_SET_KEY else set l))
    \<and> (rd \<noteq> Reply \<or> S s ROUTER_SET_KEY = {} \<longrightarrow> fst (refresh R rd (Some (Inl e)) wr cur s) = cur)
    \<and> (S s ROUTER_SET_KEY \<noteq> {} \<longrightarrow> refresh R Reply meta wr cur s = (S s ROUTER_SET_KEY, s))"
proof -
  note laws = redis_sets.smembers_law [OF assms] redis_sets.sadd_law [OF assms]
    redis_sets.sdel_law [OF assms]
  have pub: "S (publish R wr (remdups l) t) ROUTER_SET_KEY
      = (if wr = Refused then S t ROUTER_SET_KEY else set l)" for t
    by (cases wr; cases "l = []") (simp_all add: publish_def Let_def laws)
  show ?thesis
    by (cases rd) (auto simp: refresh_def laws pub)
qed

theorem refresh_allow_list_witness:
  "fst (refresh ref_redis Refused (Some (Inr [lit ''192.0.2.1''])) Reply {} empty_store)
     = {lit ''192.0.2.1''}"
  using refresh_allow_list [OF ref_sets.redis_sets_axioms, where rd = Refused
      and l = "[lit ''192.0.2.1'']" and wr = Reply and cur = "{}" and s = empty_store]
  by simp

end
