(* ===== verification/Routers_Api.thy ===== *)
theory Routers_Api
  imports Meta_Store Receiver
begin

text \<open>
  \<open>backend/app/api/routers_api.py\<close>: the handlers that change the routers table, each of which
  rewrites the allow-list in Redis, and what the receivers of \<open>Receiver\<close> then accept. The
  handlers run behind the session and origin checks of \<open>api/deps.py\<close>, which are not modelled.
\<close>

section \<open>Requests and answers\<close>

record RouterIn =
  in_name :: pystr
  in_ip :: pystr
  in_descr :: pystr
  in_enabled :: bool

definition router_in_ok :: "RouterIn \<Rightarrow> bool" where
  "router_in_ok b \<longleftrightarrow> 1 \<le> length (in_name b) \<and> length (in_name b) \<le> 64
     \<and> 7 \<le> length (in_ip b) \<and> length (in_ip b) \<le> 15 \<and> length (in_descr b) \<le> 256"

definition opt_all :: "('a \<Rightarrow> bool) \<Rightarrow> 'a option \<Rightarrow> bool" where
  "opt_all P x = (case x of None \<Rightarrow> True | Some v \<Rightarrow> P v)"

definition router_patch_ok :: "router_patch \<Rightarrow> bool" where
  "router_patch_ok p \<longleftrightarrow>
     opt_all (\<lambda>v. 1 \<le> length v \<and> length v \<le> 64) (p_name p)
     \<and> opt_all (\<lambda>v. 7 \<le> length v \<and> length v \<le> 15) (p_ip p)
     \<and> opt_all (\<lambda>v. length v \<le> 256) (p_descr p)"

text \<open>An answer: a status code, with the router of a successful one.\<close>

datatype answer = Http nat "router option"

section \<open>Handlers\<close>

text \<open>\<open>sync_allow_list\<close>: one transaction, and a failure is only logged.\<close>

definition sync_allow_list :: "'r redis \<Rightarrow> net \<Rightarrow> meta \<Rightarrow> 'r \<Rightarrow> 'r" where
  "sync_allow_list R net m s =
     (let ips = enabled_router_ips m
      in snd (remote RedisError net
               (\<lambda>s. let s1 = r_del R ROUTER_SET_KEY s
                    in (Inr (), if ips \<noteq> [] then r_sadd R ROUTER_SET_KEY ips s1 else s1)) s))"

definition sync_allow_list_startup :: "'r redis \<Rightarrow> net \<Rightarrow> meta \<Rightarrow> 'r \<Rightarrow> 'r" where
  "sync_allow_list_startup R net m s =
     (let ips = enabled_router_ips m
      in snd (remote RedisError net
               (\<lambda>s. let s1 = r_del R ROUTER_SET_KEY s
                    in (Inr (), if ips \<noteq> [] then r_sadd R ROUTER_SET_KEY ips s1 else s1)) s))"

definition api_add_router ::
    "ucd \<Rightarrow> 'r redis \<Rightarrow> pystr \<Rightarrow> net \<Rightarrow> RouterIn \<Rightarrow> meta \<times> 'r \<Rightarrow> answer \<times> meta \<times> 'r" where
  "api_add_router U R now net b x =
     (let (m, s) = x
      in if \<not> router_in_ok b then (Http 422 None, m, s)
         else
           (case add_router U now (in_name b) (in_ip b) (in_descr b) (in_enabled b) m of
              (Inl e, m') \<Rightarrow> (Http (if e = ValueError then 400 else 409) None, m', s)
            | (Inr r, m') \<Rightarrow> (Http 201 (Some r), m', sync_allow_list R net m' s)))"

definition api_update_router ::
    "ucd \<Rightarrow> 'r redis \<Rightarrow> pystr \<Rightarrow> net \<Rightarrow> int \<Rightarrow> router_patch \<Rightarrow> meta \<times> 'r \<Rightarrow> answer \<times> meta \<times> 'r" where
  "api_update_router U R now net i p x =
     (let (m, s) = x
      in if \<not> router_patch_ok p then (Http 422 None, m, s)
         else if get_router i m = None then (Http 404 None, m, s)
         else
           (case update_router U now i p m of
              (Inl e, m') \<Rightarrow> (Http (if e = ValueError then 400 else 409) None, m', s)
            | (Inr r, m') \<Rightarrow> (Http 200 r, m', sync_allow_list R net m' s)))"

definition api_delete_router ::
    "'r redis \<Rightarrow> net \<Rightarrow> int \<Rightarrow> meta \<times> 'r \<Rightarrow> answer \<times> meta \<times> 'r" where
  "api_delete_router R net i x =
     (let (m, s) = x
      in (case delete_router i m of
            (False, m') \<Rightarrow> (Http 404 None, m', s)
          | (True, m') \<Rightarrow> (Http 200 None, m', sync_allow_list R net m' s)))"

text \<open>The three requests as one step.\<close>

datatype router_request =
    Add pystr RouterIn
  | Update pystr int router_patch
  | Delete int

fun router_api ::
    "ucd \<Rightarrow> 'r redis \<Rightarrow> net \<Rightarrow> router_request \<Rightarrow> meta \<times> 'r \<Rightarrow> answer \<times> meta \<times> 'r" where
  "router_api U R net (Add now b) x = api_add_router U R now net b x"
| "router_api U R net (Update now i p) x = api_update_router U R now net i p x"
| "router_api U R net (Delete i) x = api_delete_router R net i x"

fun succeeded :: "answer \<Rightarrow> bool" where
  "succeeded (Http code r) = (code < 300)"

section \<open>Lemmas\<close>

context redis_sets
begin

lemma sync_view:
  "S (sync_allow_list R net m s) ROUTER_SET_KEY
     = (if net = Refused then S s ROUTER_SET_KEY else set (enabled_router_ips m))"
  by (cases net; cases "enabled_router_ips m = []")
     (simp_all add: sync_allow_list_def Let_def sadd_law sdel_law)

lemma refresh_view:
  "fst (refresh R Reply (Some (Inr (enabled_router_ips m))) net cur s)
     = (if S s ROUTER_SET_KEY = {} then set (enabled_router_ips m) else S s ROUTER_SET_KEY)"
  by (simp add: refresh_def smembers_law)

end

text \<open>A request changes the table by an operation of the store, and syncs when it succeeds.\<close>

lemma router_api_effect:
  assumes "router_api U R net req (m, s) = (a, m', s')"
  shows "s' = (if succeeded a then sync_allow_list R net m' s else s)"
    "\<not> succeeded a \<Longrightarrow> enabled_router_ips m' = enabled_router_ips m"
    "meta_ok m \<Longrightarrow> meta_ok m'"
proof -
  have del: "delete_router i m = (False, m1) \<Longrightarrow> m1 = m" for i m1
    by (auto simp: delete_router_def filter_id_conv)
  have upd: "update_router U now i p m = (Inl e, m1) \<Longrightarrow> m1 = m" for now i p e m1
    by (auto simp: update_router_def Let_def split: sum.splits if_splits)
  have add: "add_router U now n ip d en m = (Inl e, m1) \<Longrightarrow> m1 = m" for now n ip d en e m1
    by (auto simp: add_router_def Let_def split: sum.splits if_splits)
  show "s' = (if succeeded a then sync_allow_list R net m' s else s)"
    using assms
    by (cases req)
       (auto simp: api_add_router_def api_update_router_def api_delete_router_def
          split: if_splits prod.splits sum.splits bool.splits)
  show "\<not> succeeded a \<Longrightarrow> enabled_router_ips m' = enabled_router_ips m"
    using assms
    by (cases req)
       (auto simp: api_add_router_def api_update_router_def api_delete_router_def
          split: if_splits prod.splits sum.splits bool.splits dest: del upd add)
  have "m' = m \<or> (\<exists>op. m' = meta_step U op m)"
  proof (cases req)
    case (Add now b)
    then have "m' = m \<or> m' = meta_step U (AddRouter now (in_name b) (in_ip b) (in_descr b) (in_enabled b)) m"
      using assms by (auto simp: api_add_router_def split: if_splits prod.splits sum.splits)
    then show ?thesis by blast
  next
    case (Update now i p)
    then have "m' = m \<or> m' = meta_step U (UpdateRouter now i p) m"
      using assms by (auto simp: api_update_router_def split: if_splits prod.splits sum.splits)
    then show ?thesis by blast
  next
    case (Delete i)
    then have "m' = meta_step U (DeleteRouter i) m"
      using assms by (auto simp: api_delete_router_def split: prod.splits bool.splits)
    then show ?thesis by blast
  qed
  then show "meta_ok m \<Longrightarrow> meta_ok m'" using meta_step_ok by blast
qed

section \<open>Properties\<close>

text \<open>Also (allow_list_follows_store): When the API's write to Redis gets through, the next refresh of every receiver gives exactly the enabled routers of the table after the request, also when the last router was removed; the table stays well-formed.\<close>

theorem allow_list_follows_store:
  assumes "redis_sets R S" and "meta_ok m"
    and "router_api U R net req (m, s) = (a, m', s')" and "succeeded a" and "net \<noteq> Refused"
  shows "fst (refresh R Reply (Some (Inr (enabled_router_ips m'))) wr cur s') = set (enabled_router_ips m')
    \<and> meta_ok m'"
  using router_api_effect [OF assms(3)] assms(2,4,5) redis_sets.sync_view [OF assms(1)]
    redis_sets.refresh_view [OF assms(1)]
  by auto

text \<open>Also (stale_allow_list): When that write fails, the removal is not made up for later: the receivers trust a cached set that is not empty, so at every later refresh a deleted router is still accepted, for as long as nothing rewrites the set.\<close>

theorem stale_allow_list:
  assumes "redis_sets R S"
    and "api_delete_router R Refused i (m, s) = (Http 200 None, m', s')"
    and "ip \<in> S s ROUTER_SET_KEY"
  shows "ip \<in> fst (refresh R Reply (Some (Inr (enabled_router_ips m'))) wr cur s')
    \<and> snd (refresh R Reply (Some (Inr (enabled_router_ips m'))) wr cur s') = s'
    \<and> (\<forall>r \<in> set (routers m'). router_id r \<noteq> i)"
proof -
  have m': "m' = snd (delete_router i m)" and s': "s' = sync_allow_list R Refused m' s"
    using assms(2) by (auto simp: api_delete_router_def split: prod.splits bool.splits)
  have "S s' ROUTER_SET_KEY = S s ROUTER_SET_KEY"
    using redis_sets.sync_view [OF assms(1), of Refused m' s] s' by simp
  then show ?thesis
    using assms(3) m' redis_sets.smembers_law [OF assms(1), of ROUTER_SET_KEY s']
    by (auto simp: refresh_def delete_router_def)
qed

text \<open>A store with one router, cached in Redis.\<close>

definition demo_meta :: meta where
  "demo_meta = empty_meta\<lparr>routers := [demo_router 1], router_seq := 1\<rparr>"

definition demo_cached :: ref_store where
  "demo_cached = sync_allow_list ref_redis Reply demo_meta empty_store"

lemma demo_meta_ok: "meta_ok demo_meta"
  using add_router_ok [OF empty_meta_ok, of ascii_only "[]" "lit ''core''" "lit '' 10.0.0.1''" "[]" True]
  by (simp only: demo_add snd_conv demo_meta_def)

lemma demo_cached_set: "st_sets demo_cached ROUTER_SET_KEY = {lit ''10.0.0.1''}"
  using ref_sets.sync_view [of Reply demo_meta empty_store]
  by (simp add: demo_cached_def demo_meta_def enabled_router_ips_def demo_router_def empty_meta_def)

lemma demo_delete:
  "api_delete_router ref_redis net 1 (demo_meta, s)
     = (Http 200 None, demo_meta\<lparr>routers := []\<rparr>, sync_allow_list ref_redis net (demo_meta\<lparr>routers := []\<rparr>) s)"
  by (simp add: api_delete_router_def delete_router_def demo_meta_def demo_router_def)

theorem allow_list_follows_store_witness:
  "fst (refresh ref_redis Reply (Some (Inr [])) Reply {lit ''10.0.0.1''}
      (sync_allow_list ref_redis Reply (demo_meta\<lparr>routers := []\<rparr>) demo_cached)) = {}"
  using allow_list_follows_store [OF ref_sets.redis_sets_axioms demo_meta_ok,
      where net = Reply and req = "Delete 1" and s = demo_cached and wr = Reply
        and cur = "{lit ''10.0.0.1''}"]
  by (simp add: demo_delete enabled_router_ips_def)

theorem stale_allow_list_witness:
  "lit ''10.0.0.1'' \<in> fst (refresh ref_redis Reply (Some (Inr [])) Reply {}
      (sync_allow_list ref_redis Refused (demo_meta\<lparr>routers := []\<rparr>) demo_cached))"
  using stale_allow_list [OF ref_sets.redis_sets_axioms demo_delete,
      where ip = "lit ''10.0.0.1''" and wr = Reply and cur = "{}" and s = demo_cached]
  by (simp add: demo_cached_set enabled_router_ips_def)

end
