(* ===== verification/Cli.thy ===== *)
theory Cli
  imports Schema_Text Routers_Api
begin

text \<open>
  \<open>backend/app/cli.py\<close>, the operations of \<open>nls-admin\<close> that change state. Every command opens the store, which first creates what is
  missing (\<open>init_schema\<close>). An operation returns its exit code, or raises.
\<close>

section \<open>Commands\<close>

text \<open>The configuration that the commands use.\<close>

record cli_cfg =
  cf_database :: pystr
  cf_table :: pystr
  cf_hot_days :: int
  cf_months :: int

definition ch_table :: "cli_cfg \<Rightarrow> pystr" where
  "ch_table cfg = cf_database cfg @ lit ''.'' @ cf_table cfg"

text \<open>\<open>int(meta.get_setting(key, default))\<close>.\<close>

definition int_setting :: "ucd \<Rightarrow> pystr \<Rightarrow> pystr \<Rightarrow> meta \<Rightarrow> int result" where
  "int_setting U key d m = int_of_text U (get_setting key d m)"

fun run_statements :: "(pystr \<Rightarrow> bool) \<Rightarrow> pystr list \<Rightarrow> (pystr list, unit) eff" where
  "run_statements accepts [] sent = (Inr (), sent)"
| "run_statements accepts (stmt # stmts) sent =
     (case ch_command accepts Reply stmt sent of
        (Inl e, sent) \<Rightarrow> (Inl e, sent)
      | (Inr _, sent) \<Rightarrow> run_statements accepts stmts sent)"

text \<open>
  \<open>cmd_init_db\<close>: \<open>schema\<close> is the text of the schema file, if there is one; \<open>stats\<close> says whether
  the summary query at the end is answered.
\<close>

definition cmd_init_db ::
    "ucd \<Rightarrow> (pystr \<Rightarrow> bool) \<Rightarrow> bool \<Rightarrow> cli_cfg \<Rightarrow> pystr option \<Rightarrow> meta \<times> pystr list
      \<Rightarrow> int result \<times> meta \<times> pystr list" where
  "cmd_init_db U accepts stats cfg schema x =
     (let (m, sent) = x
      in case schema of
           None \<Rightarrow> (Inr 1, m, sent)
         | Some text \<Rightarrow>
             (let m = init_schema m
              in case int_setting U HOT (py_str_int (cf_hot_days cfg)) m of
                   Inl e \<Rightarrow> (Inl e, m, sent)
                 | Inr hot \<Rightarrow>
                     (case int_setting U MONTHS (py_str_int (cf_months cfg)) m of
                        Inl e \<Rightarrow> (Inl e, m, sent)
                      | Inr months \<Rightarrow>
                          (case run_statements accepts (render_schema U text (cf_database cfg) hot months) sent of
                             (Inl e, sent) \<Rightarrow> (Inl e, m, sent)
                           | (Inr _, sent) \<Rightarrow> (if stats then Inr 0 else Inl DbError, m, sent)))))"

record admin_args =
  a_username :: pystr
  a_password :: "pystr option"
  a_random :: bool
  a_force :: bool

text \<open>
  \<open>cmd_create_admin\<close>: \<open>typed\<close> are the two passwords typed at the prompts, \<open>choices\<close> the random
  choices of a generated one.
\<close>

definition cmd_create_admin ::
    "ucd \<Rightarrow> argon \<Rightarrow> pystr \<Rightarrow> pystr \<Rightarrow> pystr \<times> pystr \<Rightarrow> nat list \<Rightarrow> admin_args \<Rightarrow> meta \<Rightarrow> int \<times> meta" where
  "cmd_create_admin U A salt now typed choices args m =
     (let m = init_schema m
      in if get_user (a_username args) m \<noteq> None \<and> \<not> a_force args then (0, m)
         else
           (let given = (case a_password args of Some p \<Rightarrow> p | None \<Rightarrow> []);
                prompted = given = [] \<and> \<not> a_random args;
                password = (if given \<noteq> [] then given
                            else if a_random args then generate_password choices else fst typed)
            in if prompted \<and> fst typed \<noteq> snd typed then (1, m)
               else if password_problems U password \<noteq> [] \<and> \<not> a_random args then (1, m)
               else if get_user (a_username args) m \<noteq> None then
                 (0, set_password (a_username args) (hash_password A salt password) m)
               else
                 (0, snd (create_user now (a_username args) (hash_password A salt password) (a_random args) m))))"

definition cmd_add_router ::
    "ucd \<Rightarrow> pystr \<Rightarrow> pystr \<Rightarrow> pystr \<Rightarrow> pystr option \<Rightarrow> bool \<Rightarrow> meta \<Rightarrow> int \<times> meta" where
  "cmd_add_router U now name ip descr disabled m =
     (case add_router U now name ip (case descr of Some d \<Rightarrow> d | None \<Rightarrow> []) (\<not> disabled) (init_schema m) of
        (Inl _, m) \<Rightarrow> (1, m)
      | (Inr _, m) \<Rightarrow> (0, m))"

text \<open>\<open>args.hot_days or int(...)\<close>: a zero counts as not given.\<close>

definition arg_or :: "int option \<Rightarrow> int result \<Rightarrow> int result" where
  "arg_or arg other = (case arg of Some n \<Rightarrow> if n \<noteq> 0 then Inr n else other | None \<Rightarrow> other)"

definition cmd_apply_retention ::
    "ucd \<Rightarrow> (pystr \<Rightarrow> bool) \<Rightarrow> net \<Rightarrow> cli_cfg \<Rightarrow> int option \<Rightarrow> int option \<Rightarrow> meta \<times> pystr list
      \<Rightarrow> int result \<times> meta \<times> pystr list" where
  "cmd_apply_retention U accepts net cfg hot_arg months_arg x =
     (let (m, sent) = x; m = init_schema m
      in case arg_or hot_arg (int_setting U HOT (lit ''30'') m) of
           Inl e \<Rightarrow> (Inl e, m, sent)
         | Inr hot \<Rightarrow>
             (case arg_or months_arg (int_setting U MONTHS (lit ''12'') m) of
                Inl e \<Rightarrow> (Inl e, m, sent)
              | Inr months \<Rightarrow>
                  (case apply_retention accepts net (ch_table cfg) hot months sent of
                     (Inl e, sent) \<Rightarrow> (Inl e, m, sent)
                   | (Inr _, sent) \<Rightarrow>
                       (let m = set_setting HOT (py_str_int hot) m;
                            m = set_setting MONTHS (py_str_int months) m
                        in (Inr 0, m, sent)))))"

section \<open>Properties\<close>

lemma get_user_create:
  assumes "get_user name m = None"
  shows "\<exists>u. get_user name (snd (create_user now name h must m)) = Some u \<and> password_hash u = h
    \<and> (must_change u \<noteq> 0 \<longleftrightarrow> must)"
    and "n \<noteq> name \<Longrightarrow> get_user n (snd (create_user now name h must m)) = get_user n m"
proof -
  have new: "name \<notin> username ` set (users m)"
    using assms by (auto simp: get_user_def find_None_iff)
  have app: "find P (xs @ ys) = (case find P xs of None \<Rightarrow> find P ys | Some x \<Rightarrow> Some x)" for P and xs ys :: "user list"
    by (induction xs) auto
  show "\<exists>u. get_user name (snd (create_user now name h must m)) = Some u \<and> password_hash u = h
    \<and> (must_change u \<noteq> 0 \<longleftrightarrow> must)"
    using assms new by (simp add: create_user_def get_user_def app Let_def)
  show "n \<noteq> name \<Longrightarrow> get_user n (snd (create_user now name h must m)) = get_user n m"
    using new by (simp add: create_user_def get_user_def app Let_def split: option.splits)
qed

lemma get_user_init [simp]: "get_user n (init_schema m) = get_user n m"
  by (simp add: get_user_def init_schema_def)


definition admin_demo :: admin_args where
  "admin_demo = \<lparr>a_username = lit ''admin'', a_password = Some (lit ''Correct-Horse-1''), a_random = False, a_force = False\<rparr>"


text \<open>Also (cli_long_password): create-admin accepts a password that can never be used: one of more than 256 characters is stored with exit code 0, and every login with it is refused with 422.\<close>

theorem cli_long_password:
  assumes "256 < length p" "password_problems U p = []" "a_password args = Some p"
    and "get_user (a_username args) m = None" and "require_same_origin (au_host_ok E) rq = Inr ()"
  shows "fst (cmd_create_admin U A salt now typed choices args m) = 0
    \<and> fst (login E K n1 n2 n3 salt' t now_text rq (a_username args) p
        (snd (cmd_create_admin U A salt now typed choices args m), s)) = Refuse 422"
proof -
  have "p \<noteq> []" using assms(1) by auto
  then show ?thesis using assms by (simp add: cmd_create_admin_def login_def Let_def)
qed

theorem cli_long_password_witness:
  "fst (cmd_create_admin ascii_only plain_argon [] [] ([], []) []
     (admin_demo\<lparr>a_password := Some (lit ''aA1'' @ replicate 300 97)\<rparr>) empty_meta) = 0"
proof -
  have "password_problems ascii_only (lit ''aA1'' @ replicate 300 97) = []" by code_simp
  moreover have "get_user (lit ''admin'') empty_meta = None" by (simp add: get_user_def empty_meta_def)
  moreover have "require_same_origin (au_host_ok demo_auth) (plain_request ''GET'' None) = Inr ()"
    by (simp add: require_same_origin_def plain_request_def SAFE_METHODS_def)
  moreover have "256 < length (lit ''aA1'' @ replicate 300 97)" by simp
  ultimately show ?thesis
    using conjunct1 [OF cli_long_password [where p = "lit ''aA1'' @ replicate 300 97" and E = demo_auth
        and rq = "plain_request ''GET'' None" and m = empty_meta and U = ascii_only
        and args = "admin_demo\<lparr>a_password := Some (lit ''aA1'' @ replicate 300 97)\<rparr>"]]
    unfolding admin_demo_def admin_args.simps admin_args.update_convs by blast
qed

lemma init_schema_has:
  assumes "k \<in> fst ` set DEFAULT_SETTINGS"
  shows "get_setting k d (init_schema m) = get_setting k d' (init_schema m)"
proof -
  let ?ins = "\<lambda>(k, v) st. if k \<in> fst ` set st then st else st @ [(k, v)]"
  have sub: "fst ` set kvs \<union> fst ` set st \<subseteq> fst ` set (fold ?ins kvs st)" for kvs :: "(pystr \<times> pystr) list" and st
    by (induction kvs arbitrary: st) (force split: if_splits)+
  have "settings (init_schema m) = fold ?ins DEFAULT_SETTINGS (settings m)" by (simp add: init_schema_def)
  moreover have "k \<in> fst ` set (fold ?ins DEFAULT_SETTINGS (settings m))"
    by (rule subsetD [OF sub UnI1 [OF assms]])
  ultimately have "k \<in> fst ` set (settings (init_schema m))" by (simp only:)
  then have "map_of (settings (init_schema m)) k \<noteq> None" by (simp add: map_of_eq_None_iff)
  then show ?thesis by (auto simp: get_setting_def split: option.splits)
qed

text \<open>Also (cli_router_ignored): A router added with add-router is stored as enabled, and yet a receiver that refreshes keeps refusing it as long as the cached set in Redis holds other routers, because the command does not publish the new set.\<close>

theorem cli_router_ignored:
  assumes "redis_sets R S" and "S s ROUTER_SET_KEY \<noteq> {}" and "py_strip U ip \<notin> S s ROUTER_SET_KEY"
    and "cmd_add_router U now name ip descr False m = (0, m')"
  shows "py_strip U ip \<in> set (enabled_router_ips m')
    \<and> py_strip U ip \<notin> fst (refresh R Reply (Some (Inr (enabled_router_ips m'))) net cur s)"
proof -
  have "\<exists>rs r. routers m' = rs @ [r] \<and> ip_address r = py_strip U ip \<and> enabled r = 1"
    using assms(4)
    by (auto simp: cmd_add_router_def add_router_def normalise_ip_iff Let_def split: if_splits sum.splits prod.splits)
  then obtain rs r where "routers m' = rs @ [r]" "ip_address r = py_strip U ip" "enabled r = 1" by blast
  then have "enabled_router_ips m' = map ip_address (filter (\<lambda>r. enabled r = 1) rs) @ [py_strip U ip]"
    by (simp add: enabled_router_ips_def)
  then have "py_strip U ip \<in> set (enabled_router_ips m')" by simp
  then show ?thesis using redis_sets.refresh_view [OF assms(1)] assms(2,3) by simp
qed

theorem cli_router_ignored_witness:
  "lit ''10.0.0.2'' \<notin> fst (refresh ref_redis Reply (Some (Inr (enabled_router_ips
      (snd (cmd_add_router ascii_only [] (lit ''edge'') (lit ''10.0.0.2'') None False demo_meta))))) Reply {} demo_cached)"
proof -
  let ?m = "snd (cmd_add_router ascii_only [] (lit ''edge'') (lit ''10.0.0.2'') None False demo_meta)"
  have "fst (cmd_add_router ascii_only [] (lit ''edge'') (lit ''10.0.0.2'') None False demo_meta) = 0" by code_simp
  then have added: "cmd_add_router ascii_only [] (lit ''edge'') (lit ''10.0.0.2'') None False demo_meta = (0, ?m)"
    by (metis prod.collapse)
  have "py_strip ascii_only (lit ''10.0.0.2'') = lit ''10.0.0.2''" "lit ''10.0.0.2'' \<noteq> lit ''10.0.0.1''"
    by code_simp+
  then show ?thesis
    using cli_router_ignored [OF ref_sets.redis_sets_axioms _ _ added, of demo_cached Reply "{}"]
    unfolding demo_cached_set by simp
qed

text \<open>Also (init_db_ignores_config): The retention configured in the YAML file never reaches the schema: init-db sends the same statements and answers the same whatever hot_days and retention_months the configuration has, because opening the store first inserts the built-in numbers.\<close>

theorem init_db_ignores_config:
  "cmd_init_db U accepts stats (cfg\<lparr>cf_hot_days := h, cf_months := mo\<rparr>) schema x
     = cmd_init_db U accepts stats cfg schema x"
proof -
  have "HOT \<in> fst ` set DEFAULT_SETTINGS" "MONTHS \<in> fst ` set DEFAULT_SETTINGS"
    by (simp_all add: DEFAULT_SETTINGS_def HOT_def MONTHS_def)
  note same = this [THEN init_schema_has]
  have "int_setting U HOT d (init_schema m) = int_setting U HOT [] (init_schema m)"
    "int_setting U MONTHS d (init_schema m) = int_setting U MONTHS [] (init_schema m)" for d m
    unfolding int_setting_def by (metis same(1), metis same(2))
  note same_int = this
  obtain m sent where x: "x = (m, sent)" by fastforce
  show ?thesis
    by (cases schema)
       (simp_all add: x cmd_init_db_def Let_def same_int(1) [of "py_str_int h"] same_int(2) [of "py_str_int mo"]
          same_int(1) [of "py_str_int (cf_hot_days cfg)"] same_int(2) [of "py_str_int (cf_months cfg)"]
          split: sum.split)
qed

lemma run_statements_all:
  "list_all accepts stmts \<Longrightarrow> run_statements accepts stmts sent = (Inr (), sent @ stmts)"
  by (induction accepts stmts sent rule: run_statements.induct) (auto simp: ch_command_def)

text \<open>Also (init_db_sends): When ClickHouse takes every statement, init-db sends exactly the statements of the schema file, in order, filled in with the database name of the configuration and the retention numbers of the store, and exits with 0 when the summary is answered.\<close>

theorem init_db_sends:
  assumes "get_retention U (init_schema m) = Inr (hot, months)"
    and "list_all accepts (render_schema U text (cf_database cfg) hot months)"
  shows "cmd_init_db U accepts stats cfg (Some text) (m, sent)
    = (if stats then Inr 0 else Inl DbError, init_schema m,
       sent @ render_schema U text (cf_database cfg) hot months)"
proof -
  have "HOT \<in> fst ` set DEFAULT_SETTINGS" "MONTHS \<in> fst ` set DEFAULT_SETTINGS"
    by (simp_all add: DEFAULT_SETTINGS_def HOT_def MONTHS_def)
  note same = this [THEN init_schema_has]
  have "int_setting U HOT (py_str_int (cf_hot_days cfg)) (init_schema m) = Inr hot"
    "int_setting U MONTHS (py_str_int (cf_months cfg)) (init_schema m) = Inr months"
    using assms(1) same(1) [of "py_str_int (cf_hot_days cfg)" m "lit ''30''"]
      same(2) [of "py_str_int (cf_months cfg)" m "lit ''12''"]
    unfolding get_retention_def int_setting_def by (simp_all split: sum.splits)
  then show ?thesis by (simp add: cmd_init_db_def run_statements_all [OF assms(2)])
qed

theorem init_db_sends_witness:
  "cmd_init_db ascii_only (\<lambda>_. True) True \<lparr>cf_database = lit ''db'', cf_table = lit ''t'', cf_hot_days = 7, cf_months = 3\<rparr>
      (Some (lit ''USE {{DATABASE}}; A {{HOT_DAYS}}'')) (empty_meta, [])
    = (Inr 0, init_schema empty_meta, [lit ''USE db'', lit ''A 30''])"
proof -
  have "get_retention ascii_only (init_schema empty_meta) = Inr (30, 12)" by code_simp
  moreover have "render_schema ascii_only (lit ''USE {{DATABASE}}; A {{HOT_DAYS}}'') (lit ''db'') 30 12
      = [lit ''USE db'', lit ''A 30'']" by code_simp
  ultimately show ?thesis
    using init_db_sends [of ascii_only empty_meta 30 12 "\<lambda>_. True" "lit ''USE {{DATABASE}}; A {{HOT_DAYS}}''"
        "\<lparr>cf_database = lit ''db'', cf_table = lit ''t'', cf_hot_days = 7, cf_months = 3\<rparr>" True "[]"]
    by (simp add: list_all_iff)
qed

text \<open>Also (cli_retention_unchecked): apply-retention stores and sends numbers that the API and the configuration refuse: with any pair outside their bounds and without a zero, the settings route answers 422, and the command exits with 0 when ClickHouse takes the text and the settings read back as the pair.\<close>

theorem cli_retention_unchecked:
  assumes "\<not> retention_ok hot months" "hot \<noteq> 0" "months \<noteq> 0"
    and "accepts (retention_text (ch_table cfg) hot months)"
    and "cmd_apply_retention U accepts Reply cfg (Some hot) (Some months) (m, sent) = (c, m', sent')"
  shows "set_retention accepts Reply (ch_table cfg) hot months (m, sent) = (422, m, sent)
    \<and> c = Inr 0 \<and> sent' = sent @ [retention_text (ch_table cfg) hot months]
    \<and> get_retention U m' = Inr (hot, months)"
  using assms retention_keys
  by (auto simp: set_retention_def cmd_apply_retention_def arg_or_def apply_retention_def ch_command_def
      get_retention_def get_set_setting int_of_text_str Let_def)

theorem cli_retention_unchecked_witness:
  "get_retention ascii_only (fst (snd (cmd_apply_retention ascii_only (\<lambda>_. True) Reply
      \<lparr>cf_database = lit ''db'', cf_table = lit ''t'', cf_hot_days = 7, cf_months = 3\<rparr> (Some 30) (Some (- 1))
      (empty_meta, [])))) = Inr (30, - 1)"
proof -
  obtain c m' sent' where r: "cmd_apply_retention ascii_only (\<lambda>_. True) Reply
      \<lparr>cf_database = lit ''db'', cf_table = lit ''t'', cf_hot_days = 7, cf_months = 3\<rparr> (Some 30) (Some (- 1))
      (empty_meta, []) = (c, m', sent')" by (metis prod_cases3)
  show ?thesis using cli_retention_unchecked [OF _ _ _ _ r] r by (simp add: retention_ok_def)
qed

end
