(* ===== verification/Maintenance.thy ===== *)
theory Maintenance
  imports Meta_Store Redis_Queue
begin

text \<open>
  \<open>backend/app/services/maintenance.py\<close>: which months are closed, the archiving of one with
  each of its calls able to fail, the pruning of old archive files, the recovery of dead
  workers' claims, and the run that puts them together. The archive directory is a list of file
  names with their sizes; ClickHouse appears as the outcomes of the queries sent to it and the
  list of partitions it was told to drop.
\<close>

section \<open>Months\<close>

record date =
  d_year :: nat
  d_month :: nat

definition str_nat :: "nat \<Rightarrow> string" where
  "str_nat n = map char_of (py_str_nat n)"

text \<open>\<open>f"{year}{month:02d}"\<close>.\<close>

definition month_text :: "nat \<Rightarrow> nat \<Rightarrow> string" where
  "month_text y m = str_nat y @ (if m < 10 then ''0'' @ str_nat m else str_nat m)"

definition closed_partitions :: "date \<Rightarrow> string list \<Rightarrow> meta \<Rightarrow> string list" where
  "closed_partitions today parts m =
     (let current = month_text (d_year today) (d_month today);
          done = set (archived_partitions m)
      in filter (\<lambda>p. p < current \<and> p \<notin> done) parts)"

section \<open>Archiving one month\<close>

record archive_cfg =
  c_table :: string
  c_drop_after :: bool
  c_retention_months :: nat
  c_archive_enabled :: bool

text \<open>How the calls of one archive run end.\<close>

record archive_calls =
  a_mkdir :: bool
  a_count :: "nat result"
  a_export :: "exn option"          \<comment> \<open>an exception while streaming, if any\<close>
  a_bytes :: nat                    \<comment> \<open>what was written to the temporary file by then\<close>
  a_rename :: bool
  a_chmod :: bool
  a_drop :: net

record archive_sys =
  ar_meta :: meta
  ar_files :: "(string \<times> nat) list"
  ar_dropped :: "string list"

definition target_name :: "archive_cfg \<Rightarrow> string \<Rightarrow> string" where
  "target_name cfg part = c_table cfg @ ''-'' @ part @ ''.native.gz''"

definition tmp_name :: "archive_cfg \<Rightarrow> string \<Rightarrow> string" where
  "tmp_name cfg part = c_table cfg @ ''-'' @ part @ ''.native.tmp''"

text \<open>
  The \<open>try\<close> block: it returns the message of a finished run, or raises with the state it left.
  A \<open>DROP PARTITION\<close> whose reply is lost has been carried out.
\<close>

definition archive_body ::
    "archive_cfg \<Rightarrow> archive_calls \<Rightarrow> pystr \<Rightarrow> string \<Rightarrow> int \<Rightarrow> (archive_sys, string) eff" where
  "archive_body cfg calls now part run st =
     (case a_count calls of
        Inl e \<Rightarrow> (Inl e, st)
      | Inr expected \<Rightarrow>
          (if expected = 0 then
             (Inr ''empty'',
              st\<lparr>ar_meta := finish_archive now run ''skipped'' 0 0 '''' (lit ''Partition is empty'') (ar_meta st)\<rparr>)
           else
             (let st = st\<lparr>ar_files := AList.update (tmp_name cfg part) (a_bytes calls) (ar_files st)\<rparr>
              in case a_export calls of
                   Some e \<Rightarrow> (Inl e, st)
                 | None \<Rightarrow>
                     (if \<not> a_rename calls then (Inl OSError, st)
                      else
                        (let size = a_bytes calls;
                             st = st\<lparr>ar_files := AList.update (target_name cfg part) size
                                       (AList.delete (tmp_name cfg part) (ar_files st))\<rparr>
                         in if \<not> a_chmod calls then (Inl OSError, st)
                            else if size < 64 then (Inl RuntimeError, st)
                            else
                              (let st = st\<lparr>ar_meta := finish_archive now run ''success'' (int expected)
                                          (int size) (target_name cfg part) [] (ar_meta st)\<rparr>
                               in if c_drop_after cfg then
                                    (if a_drop calls = Refused then (Inl DbError, st)
                                     else
                                       (let st = st\<lparr>ar_dropped := ar_dropped st @ [part]\<rparr>
                                        in if a_drop calls = Reply then (Inr ''archived'', st)
                                           else (Inl DbError, st)))
                                  else (Inr ''archived'', st)))))))"

definition archive_partition ::
    "archive_cfg \<Rightarrow> archive_calls \<Rightarrow> (exn \<Rightarrow> pystr) \<Rightarrow> pystr \<Rightarrow> string
      \<Rightarrow> (archive_sys, bool) eff" where
  "archive_partition cfg calls str_exc now part st =
     (if \<not> a_mkdir calls then (Inl OSError, st)
      else
        (let (run, m) = start_archive now part (ar_meta st);
             st = st\<lparr>ar_meta := m\<rparr>
         in case archive_body cfg calls now part run st of
              (Inr _, st) \<Rightarrow> (Inr True, st)
            | (Inl e, st) \<Rightarrow>
                (Inr False,
                 st\<lparr>ar_meta := finish_archive now run ''failed'' 0 0 '''' (str_exc e) (ar_meta st),
                    ar_files := AList.delete (tmp_name cfg part) (ar_files st)\<rparr>)))"

section \<open>Pruning archive files\<close>

text \<open>\<open>name.split("-")[-1].split(".")[0]\<close>.\<close>

definition archive_stem :: "string \<Rightarrow> string" where
  "archive_stem name =
     takeWhile (\<lambda>c. c \<noteq> CHR ''.'') (rev (takeWhile (\<lambda>c. c \<noteq> CHR ''-'') (rev name)))"

text \<open>The glob pattern \<open>table-*.native.gz\<close>.\<close>

definition archive_glob :: "string \<Rightarrow> string \<Rightarrow> bool" where
  "archive_glob table name \<longleftrightarrow>
     (let p = table @ ''-''; x = ''.native.gz''
      in length p + length x \<le> length name \<and> take (length p) name = p
         \<and> drop (length name - length x) name = x)"

definition prune_cutoff :: "date \<Rightarrow> nat \<Rightarrow> string" where
  "prune_cutoff today retention_months =
     (let months = int (d_year today * 12 + d_month today) - int retention_months
      in month_text (nat (months div 12)) (nat (months mod 12 + 1)))"

definition pruned :: "archive_cfg \<Rightarrow> date \<Rightarrow> string \<Rightarrow> bool" where
  "pruned cfg today name \<longleftrightarrow>
     archive_glob (c_table cfg) name
     \<and> bytes_isdigit (archive_stem name)
     \<and> archive_stem name < prune_cutoff today (c_retention_months cfg)"

text \<open>With the directory present; the number of files removed and the files left.\<close>

definition prune_archives ::
    "archive_cfg \<Rightarrow> date \<Rightarrow> (string \<times> nat) list \<Rightarrow> nat \<times> (string \<times> nat) list" where
  "prune_archives cfg today files =
     (length (filter (pruned cfg today \<circ> fst) files), filter (\<lambda>f. \<not> pruned cfg today (fst f)) files)"

section \<open>Claims of dead workers\<close>

text \<open>\<open>_live_worker_ids\<close>: \<open>host-pid\<close> for each process directory.\<close>

definition live_worker_ids :: "string \<Rightarrow> string list \<Rightarrow> string set" where
  "live_worker_ids host entries = (\<lambda>e. host @ ''-'' @ e) ` set (filter bytes_isdigit entries)"

definition recover_orphaned_claims ::
    "'r redis \<Rightarrow> nat \<Rightarrow> LogQueue \<Rightarrow> (nat \<Rightarrow> net) \<Rightarrow> string set \<Rightarrow> ('r, nat) eff" where
  "recover_orphaned_claims R lim q net live s =
     recover_loop R lim q net 0
       (filter (\<lambda>name. drop (length INFLIGHT_PREFIX) name \<notin> live) (r_scan R INFLIGHT_PREFIX s)) 0 s"

section \<open>A run\<close>

text \<open>The archive loop: an exception of \<open>archive_partition\<close> ends the run.\<close>

fun archive_loop ::
    "archive_cfg \<Rightarrow> (string \<Rightarrow> archive_calls) \<Rightarrow> (exn \<Rightarrow> pystr) \<Rightarrow> pystr \<Rightarrow> string list \<Rightarrow> nat
      \<Rightarrow> (archive_sys, nat) eff" where
  "archive_loop cfg calls str_exc now [] failures st = (Inr failures, st)"
| "archive_loop cfg calls str_exc now (part # parts) failures st =
     (case archive_partition cfg (calls part) str_exc now part st of
        (Inl e, st) \<Rightarrow> (Inl e, st)
      | (Inr okay, st) \<Rightarrow>
          archive_loop cfg calls str_exc now parts (failures + (if okay then 0 else 1)) st)"

text \<open>
  \<open>run\<close> without the claims, which only touch Redis and whose failure is swallowed. \<open>prune_fails\<close>
  stands for an exception of \<open>prune_archives\<close> before it removed anything.
\<close>

definition maintenance_run ::
    "archive_cfg \<Rightarrow> bool \<Rightarrow> string list result \<Rightarrow> (string \<Rightarrow> archive_calls) \<Rightarrow> (exn \<Rightarrow> pystr)
      \<Rightarrow> bool \<Rightarrow> pystr \<Rightarrow> date \<Rightarrow> (archive_sys, int) eff" where
  "maintenance_run cfg ping parts calls str_exc prune_fails now today st =
     (if \<not> ping then (Inr 1, st)
      else if \<not> c_archive_enabled cfg then (Inr 0, st)
      else
        (case parts of
           Inl e \<Rightarrow> (Inl e, st)
         | Inr ps \<Rightarrow>
             (case archive_loop cfg calls str_exc now (closed_partitions today ps (ar_meta st)) 0 st of
                (Inl e, st) \<Rightarrow> (Inl e, st)
              | (Inr failures, st) \<Rightarrow>
                  (let st = (if prune_fails then st
                             else st\<lparr>ar_files := snd (prune_archives cfg today (ar_files st))\<rparr>)
                   in (Inr (if failures = 0 then 0 else 1), st)))))"

section \<open>Months as text\<close>

text \<open>The number a text of ASCII digits stands for.\<close>

definition digit_val :: "char \<Rightarrow> nat" where
  "digit_val c = byte c - 48"

definition text_val :: "string \<Rightarrow> nat" where
  "text_val t = fold (\<lambda>c n. n * 10 + digit_val c) t 0"

definition digits :: "string \<Rightarrow> bool" where
  "digits t \<longleftrightarrow> list_all (\<lambda>c. is_ascii_digit (byte c)) t"

lemma fold_digits: "fold (\<lambda>c n. n * 10 + digit_val c) t k = k * 10 ^ length t + text_val t"
proof (induction t arbitrary: k)
  case (Cons c t)
  show ?case
    using Cons [of "k * 10 + digit_val c"] Cons [of "digit_val c"]
    by (simp add: text_val_def algebra_simps)
qed (simp add: text_val_def)

lemma text_val_Cons: "text_val (c # t) = digit_val c * 10 ^ length t + text_val t"
  using fold_digits [of t "digit_val c"] by (simp add: text_val_def)

lemma text_val_append: "text_val (a @ b) = text_val a * 10 ^ length b + text_val b"
  using fold_digits [of b "text_val a"] by (simp add: text_val_def)

lemma text_val_bound: "digits t \<Longrightarrow> text_val t < 10 ^ length t"
proof (induction t)
  case (Cons c t)
  then have "digit_val c \<le> 9" "text_val t < 10 ^ length t"
    by (auto simp: digits_def digit_val_def is_ascii_digit_def)
  moreover from this have "digit_val c * 10 ^ length t \<le> 9 * 10 ^ length t"
    by (intro mult_right_mono) simp_all
  ultimately have "digit_val c * 10 ^ length t + text_val t < 10 * 10 ^ length t" by linarith
  then show ?case by (simp add: text_val_Cons)
qed (simp add: text_val_def)

lemma digit_less:
  "is_ascii_digit (byte c) \<Longrightarrow> is_ascii_digit (byte d) \<Longrightarrow> c < d \<longleftrightarrow> digit_val c < digit_val d"
  by (auto simp: digit_val_def byte_def less_char_def is_ascii_digit_def)

lemma digit_eq:
  "is_ascii_digit (byte c) \<Longrightarrow> is_ascii_digit (byte d) \<Longrightarrow> c = d \<longleftrightarrow> digit_val c = digit_val d"
  by (metis digit_less less_irrefl linorder_less_linear)

text \<open>Texts of digits of one length compare as their numbers do.\<close>

lemma digits_less:
  "digits a \<Longrightarrow> digits b \<Longrightarrow> length a = length b \<Longrightarrow> a < b \<longleftrightarrow> text_val a < text_val b"
proof (induction a b rule: list_induct2')
  case (4 x xs y ys)
  then have x: "is_ascii_digit (byte x)" "is_ascii_digit (byte y)" and len: "length xs = length ys"
    and IH: "xs < ys \<longleftrightarrow> text_val xs < text_val ys"
    and bx: "text_val xs < 10 ^ length ys" "text_val ys < 10 ^ length ys"
    using text_val_bound [of xs] text_val_bound [of ys] by (auto simp: digits_def)
  have gap: "a < b \<Longrightarrow> a * 10 ^ length ys + text_val xs < b * 10 ^ length ys + text_val ys" for a b :: nat
  proof -
    assume "a < b"
    then have "Suc a * 10 ^ length ys \<le> b * 10 ^ length ys" by (intro mult_right_mono) simp_all
    then show ?thesis using bx(1) by simp
  qed
  have gap': "b < a \<Longrightarrow> b * 10 ^ length ys + text_val ys < a * 10 ^ length ys + text_val xs" for a b :: nat
  proof -
    assume "b < a"
    then have "Suc b * 10 ^ length ys \<le> a * 10 ^ length ys" by (intro mult_right_mono) simp_all
    then show ?thesis using bx(2) by simp
  qed
  consider "digit_val x < digit_val y" | "digit_val x = digit_val y" | "digit_val y < digit_val x"
    by linarith
  then show ?case
  proof cases
    case 1
    then show ?thesis
      using gap digit_less [OF x] len by (simp add: text_val_Cons)
  next
    case 2
    then show ?thesis using digit_eq [OF x] IH len by (simp add: text_val_Cons)
  next
    case 3
    then show ?thesis
      using gap' [OF 3] digit_less [OF x] digit_eq [OF x] len by (simp add: text_val_Cons)
  qed
qed simp_all

lemma str_nat_simps:
  "n < 10 \<Longrightarrow> str_nat n = [char_of (48 + n)]"
  "10 \<le> n \<Longrightarrow> str_nat n = str_nat (n div 10) @ [char_of (48 + n mod 10)]"
  using py_str_nat.simps [of n] by (simp_all add: str_nat_def)

lemma byte_char_of: "n < 256 \<Longrightarrow> byte (char_of n) = n"
  by (simp add: byte_def)

lemma str_nat_digits: "digits (str_nat n)"
proof (induction n rule: less_induct)
  case (less n)
  show ?case
  proof (cases "n < 10")
    case True
    then show ?thesis by (simp add: str_nat_simps digits_def byte_char_of is_ascii_digit_def)
  next
    case False
    then show ?thesis
      using less [of "n div 10"] by (simp add: str_nat_simps digits_def byte_char_of is_ascii_digit_def)
  qed
qed

lemma str_nat_val: "text_val (str_nat n) = n"
proof (induction n rule: less_induct)
  case (less n)
  show ?case
  proof (cases "n < 10")
    case True
    then show ?thesis by (simp add: str_nat_simps text_val_def digit_val_def byte_char_of)
  next
    case False
    then have "text_val (str_nat n) = n div 10 * 10 + n mod 10"
      using less [of "n div 10"]
      by (simp add: str_nat_simps text_val_append) (simp add: text_val_def digit_val_def byte_char_of)
    then show ?thesis by simp
  qed
qed

lemma str_nat_length: "1000 \<le> n \<Longrightarrow> n < 10000 \<Longrightarrow> length (str_nat n) = 4"
proof -
  assume n: "1000 \<le> n" "n < 10000"
  have "length (str_nat n) = Suc (length (str_nat (n div 10)))" using n by (simp add: str_nat_simps)
  also have "length (str_nat (n div 10)) = Suc (length (str_nat (n div 10 div 10)))"
    using n by (simp add: str_nat_simps)
  also have "length (str_nat (n div 10 div 10)) = Suc (length (str_nat (n div 10 div 10 div 10)))"
    using n by (subst str_nat_simps) (simp_all add: div_mult2_eq [symmetric])
  also have "length (str_nat (n div 10 div 10 div 10)) = 1"
    using n by (subst str_nat_simps) (simp_all add: div_mult2_eq [symmetric])
  finally show ?thesis by simp
qed

text \<open>The month's number, and what its text is.\<close>

definition month_index :: "nat \<Rightarrow> nat \<Rightarrow> nat" where
  "month_index y m = y * 12 + m - 1"

definition real_month :: "nat \<Rightarrow> nat \<Rightarrow> bool" where
  "real_month y m \<longleftrightarrow> 1000 \<le> y \<and> y < 10000 \<and> 1 \<le> m \<and> m \<le> 12"

lemma month_text_ok:
  assumes "real_month y m"
  shows "digits (month_text y m)" "length (month_text y m) = 6" "text_val (month_text y m) = y * 100 + m"
proof -
  have two: "length (if m < 10 then ''0'' @ str_nat m else str_nat m) = 2"
    "text_val (if m < 10 then ''0'' @ str_nat m else str_nat m) = m"
    "digits (if m < 10 then ''0'' @ str_nat m else str_nat m)"
    using assms str_nat_val [of m] str_nat_digits [of m]
    by (auto simp: real_month_def str_nat_simps text_val_append digits_def is_ascii_digit_def byte_def
        text_val_def digit_val_def)
  have four: "length (str_nat y) = 4" using assms str_nat_length by (simp add: real_month_def)
  show "digits (month_text y m)" using two(3) str_nat_digits [of y] by (simp add: month_text_def digits_def)
  show "length (month_text y m) = 6" using two(1) four by (simp add: month_text_def)
  show "text_val (month_text y m) = y * 100 + m"
    using two(1,2) str_nat_val [of y] by (simp add: month_text_def text_val_append)
qed

lemma month_text_less:
  assumes "real_month y m" "real_month y' m'"
  shows "month_text y m < month_text y' m' \<longleftrightarrow> month_index y m < month_index y' m'"
proof -
  have "month_text y m < month_text y' m' \<longleftrightarrow> y * 100 + m < y' * 100 + m'"
    using digits_less month_text_ok [OF assms(1)] month_text_ok [OF assms(2)] by simp
  also have "\<dots> \<longleftrightarrow> month_index y m < month_index y' m'"
  proof -
    have r: "1 \<le> m" "m \<le> 12" "1 \<le> m'" "m' \<le> 12" using assms by (simp_all add: real_month_def)
    consider "Suc y \<le> y'" | "y = y'" | "Suc y' \<le> y" by linarith
    then show ?thesis
    proof cases
      case 1
      then have "y * 100 + m < y' * 100 + m'" "y * 12 + m - 1 < y' * 12 + m' - 1" using r by linarith+
      then show ?thesis by (simp add: month_index_def)
    next
      case 2
      then show ?thesis using r by (auto simp: month_index_def)
    next
      case 3
      then have "\<not> y * 100 + m < y' * 100 + m'" "\<not> y * 12 + m - 1 < y' * 12 + m' - 1" using r by linarith+
      then show ?thesis by (simp add: month_index_def)
    qed
  qed
  finally show ?thesis .
qed

lemma digits_plain: "digits t \<Longrightarrow> c \<in> set t \<Longrightarrow> c \<noteq> CHR ''-'' \<and> c \<noteq> CHR ''.''"
  by (auto simp: digits_def list_all_iff is_ascii_digit_def byte_def)

lemma archive_stem_target:
  assumes "real_month y m"
  shows "archive_stem (target_name cfg (month_text y m)) = month_text y m"
proof -
  let ?t = "month_text y m"
  have d: "\<And>c. c \<in> set ?t \<Longrightarrow> c \<noteq> CHR ''-'' \<and> c \<noteq> CHR ''.''"
    using digits_plain [OF month_text_ok(1) [OF assms]] .
  have "takeWhile (\<lambda>c. c \<noteq> CHR ''-'') (rev (?t @ ''.native.gz'') @ CHR ''-'' # rev (c_table cfg))
      = rev (?t @ ''.native.gz'')"
    using d by (intro takeWhile_append_stop) auto
  moreover have "takeWhile (\<lambda>c. c \<noteq> CHR ''.'') (?t @ ''.native.gz'') = ?t"
    using d by (intro takeWhile_append_stop) auto
  ultimately show ?thesis by (simp add: archive_stem_def target_name_def)
qed

lemma archive_glob_target: "archive_glob (c_table cfg) (target_name cfg part)"
  by (simp add: archive_glob_def target_name_def Let_def)

lemma month_text_isdigit: "real_month y m \<Longrightarrow> bytes_isdigit (month_text y m)"
  using month_text_ok(1,2) by (fastforce simp: bytes_isdigit_def digits_def)

lemma prune_cutoff_index:
  assumes "d_year today * 12 + d_month today = n + c"
  shows "prune_cutoff today c = month_text (n div 12) (n mod 12 + 1)"
proof -
  have "int (d_year today * 12 + d_month today) - int c = int n" using assms by simp
  moreover have "nat (int n div 12) = n div 12" by (simp add: nat_div_distrib)
  moreover have "nat (int n mod 12 + 1) = n mod 12 + 1" by (simp add: nat_add_distrib nat_mod_distrib)
  ultimately show ?thesis unfolding prune_cutoff_def Let_def by metis
qed

lemma pruned_month:
  assumes "real_month (d_year today) (d_month today)" "real_month y m" "1 \<le> c_retention_months cfg"
    and "12000 + c_retention_months cfg \<le> month_index (d_year today) (d_month today)"
  shows "pruned cfg today (target_name cfg (month_text y m))
    \<longleftrightarrow> month_index y m + c_retention_months cfg \<le> month_index (d_year today) (d_month today)"
proof -
  let ?i = "month_index (d_year today) (d_month today)" and ?r = "c_retention_months cfg"
  let ?n = "?i + 1 - ?r"
  have i: "d_year today * 12 + d_month today = ?i + 1" "?i < 120000"
    using assms(1) unfolding real_month_def month_index_def by linarith+
  have n: "?i + 1 = ?n + ?r" "12000 \<le> ?n" "?n < 120000" using i(2) assms(3,4) by linarith+
  have "12000 div 12 \<le> ?n div 12" using n(2) by (rule div_le_mono)
  moreover have "?n div 12 < 10000" using n(3) by (simp add: less_mult_imp_div_less)
  moreover have "?n mod 12 < 12" by simp
  ultimately have rn: "real_month (?n div 12) (?n mod 12 + 1)" by (simp add: real_month_def)
  have idx: "month_index (?n div 12) (?n mod 12 + 1) = ?n" by (simp add: month_index_def)
  have cut: "prune_cutoff today ?r = month_text (?n div 12) (?n mod 12 + 1)"
    using i(1) n(1) by (intro prune_cutoff_index) simp
  have "month_text y m < prune_cutoff today ?r \<longleftrightarrow> month_index y m < ?n"
    using month_text_less [OF assms(2) rn] unfolding cut idx .
  moreover have "month_index y m < ?n \<longleftrightarrow> month_index y m + ?r \<le> ?i" using n(1) by linarith
  ultimately show ?thesis
    using archive_stem_target [OF assms(2)] archive_glob_target [of cfg] month_text_isdigit [OF assms(2)]
    unfolding pruned_def by metis
qed

lemma closed_month:
  assumes "real_month (d_year today) (d_month today)" "real_month y m"
  shows "month_text y m \<in> set (closed_partitions today parts meta)
    \<longleftrightarrow> month_text y m \<in> set parts
      \<and> month_index y m < month_index (d_year today) (d_month today)
      \<and> \<not> (\<exists>r \<in> set (runs meta). run_partition r = month_text y m \<and> run_status r = ''success'')"
  using month_text_less [OF assms(2,1)]
  by (auto simp: closed_partitions_def archived_partitions_def Let_def image_iff)

section \<open>Archive runs\<close>

lemma names_differ [simp]: "target_name cfg p \<noteq> tmp_name cfg q" "tmp_name cfg q \<noteq> target_name cfg p"
proof -
  have "last (target_name cfg p) \<noteq> last (tmp_name cfg q)" by (simp add: target_name_def tmp_name_def)
  then show "target_name cfg p \<noteq> tmp_name cfg q" "tmp_name cfg q \<noteq> target_name cfg p" by metis+
qed

lemma map_of_files [simp]:
  "map_of (AList.update k v d) = (map_of d)(k \<mapsto> v)"
  "map_of (AList.delete k d) = (map_of d)(k := None)"
  by (rule update_conv') (rule delete_conv')

text \<open>What the history says of a run.\<close>

definition run_state :: "int \<Rightarrow> meta \<Rightarrow> string option" where
  "run_state i m = map_of (map (\<lambda>r. (run_id r, run_status r)) (runs m)) i"

lemma run_state_finish [simp]:
  "run_state i (finish_archive now i status n b path msg m) = map_option (\<lambda>_. status) (run_state i m)"
proof -
  have "map_of (map (\<lambda>r. (run_id r, run_status r)) (map (\<lambda>r. if run_id r = i then
      r\<lparr>run_status := status, run_rows := n, run_bytes := b, run_path := path,
        run_message := take 2000 msg, finished_at := Some now\<rparr> else r) rs)) i
    = map_option (\<lambda>_. status) (map_of (map (\<lambda>r. (run_id r, run_status r)) rs) i)" for rs
    by (induction rs) auto
  then show ?thesis by (simp add: run_state_def finish_archive_def)
qed

lemma run_state_start:
  assumes "runs_ok m" "start_archive now part m = (i, m')"
  shows "run_state i m' = Some ''running''"
proof -
  have "run_seq m + 1 \<notin> run_id ` set (runs m)"
    using assms(1) by (intro above_not_in) (simp add: runs_ok_def)
  then have "map_of (map (\<lambda>r. (run_id r, run_status r)) (runs m)) (run_seq m + 1) = None"
    by (auto simp: map_of_eq_None_iff image_iff)
  then show ?thesis
    using assms(2) by (auto simp: start_archive_def Let_def run_state_def map_add_Some_iff)
qed

text \<open>The \<open>try\<close> block, by its effect on the drop list, the target file and the history.\<close>

lemma archive_body_effect:
  assumes "archive_body cfg calls now part i st = (x, st')"
  shows "ar_dropped st' \<noteq> ar_dropped st \<Longrightarrow>
      c_drop_after cfg \<and> ar_dropped st' = ar_dropped st @ [part]
      \<and> a_export calls = None \<and> 64 \<le> a_bytes calls
      \<and> map_of (ar_files st') (target_name cfg part) = Some (a_bytes calls)"
    "x = Inr v \<Longrightarrow> run_state i (ar_meta st')
      = map_option (\<lambda>_. if a_count calls = Inr 0 then ''skipped'' else ''success'') (run_state i (ar_meta st))"
    "run_state i (ar_meta st) \<noteq> None \<Longrightarrow> run_state i (ar_meta st') \<noteq> None"
  using assms
  by (auto simp: archive_body_def Let_def split: sum.splits option.splits if_splits)

text \<open>A run all of whose calls succeed.\<close>

definition smooth_calls :: "nat \<Rightarrow> nat \<Rightarrow> archive_calls" where
  "smooth_calls n bytes = \<lparr>a_mkdir = True, a_count = Inr n, a_export = None, a_bytes = bytes,
     a_rename = True, a_chmod = True, a_drop = Reply\<rparr>"

lemma archive_smooth:
  assumes "0 < n" "64 \<le> bytes" "runs_ok (ar_meta st)"
  shows "\<exists>st'. archive_partition cfg (smooth_calls n bytes) str_exc now part st = (Inr True, st')
    \<and> map_of (ar_files st') (target_name cfg part) = Some bytes
    \<and> run_state (run_seq (ar_meta st) + 1) (ar_meta st') = Some ''success''
    \<and> ar_dropped st' = ar_dropped st @ (if c_drop_after cfg then [part] else [])"
proof -
  obtain m where m: "start_archive now part (ar_meta st) = (run_seq (ar_meta st) + 1, m)"
    by (simp add: start_archive_def Let_def)
  show ?thesis
    using run_state_start [OF assms(3) m] m assms(1,2)
    by (auto simp: archive_partition_def archive_body_def smooth_calls_def Let_def)
qed

lemma closed_single: "p \<in> set (closed_partitions today [p] m) \<Longrightarrow> closed_partitions today [p] m = [p]"
  by (auto simp: closed_partitions_def Let_def split: if_splits)

lemma prune_target:
  assumes "pruned cfg today name"
  shows "map_of (snd (prune_archives cfg today files)) name = None"
  using assms by (induction files) (auto simp: prune_archives_def)

section \<open>Properties\<close>

text \<open>Also (closed_partitions_sound): The months selected for archiving are exactly those of the table that lie strictly before the current month and have no successful archive run: the text comparison of the partition names agrees with the calendar, so the current month is never archived.\<close>

theorem closed_partitions_sound:
  assumes "real_month (d_year today) (d_month today)" and "real_month y m"
  shows "month_text y m \<in> set (closed_partitions today parts meta)
    \<longleftrightarrow> month_text y m \<in> set parts
      \<and> month_index y m < month_index (d_year today) (d_month today)
      \<and> \<not> (\<exists>r \<in> set (runs meta). run_partition r = month_text y m \<and> run_status r = ''success'')"
  using assms by (rule closed_month)

theorem closed_partitions_sound_witness:
  "month_text 2025 9 \<in> set (closed_partitions \<lparr>d_year = 2025, d_month = 10\<rparr>
      [month_text 2025 10, month_text 2025 9] empty_meta)"
  using closed_partitions_sound [of "\<lparr>d_year = 2025, d_month = 10\<rparr>" 2025 9
      "[month_text 2025 10, month_text 2025 9]" empty_meta]
  by (simp add: real_month_def month_index_def empty_meta_def)

text \<open>Also (archive_safe): A partition is dropped from ClickHouse only when that is configured, the export ran to its end, and its file of at least 64 bytes is in place; and the history row of the run says success or skipped exactly when the run reports success, failed otherwise, with no temporary file left behind by a failed one.\<close>

theorem archive_safe:
  assumes "runs_ok (ar_meta st)" and "archive_partition cfg calls str_exc now part st = (Inr okay, st')"
  shows "(ar_dropped st' \<noteq> ar_dropped st \<longrightarrow>
      c_drop_after cfg \<and> ar_dropped st' = ar_dropped st @ [part]
      \<and> a_export calls = None \<and> 64 \<le> a_bytes calls
      \<and> map_of (ar_files st') (target_name cfg part) = Some (a_bytes calls))
    \<and> run_state (run_seq (ar_meta st) + 1) (ar_meta st')
      = Some (if okay then (if a_count calls = Inr 0 then ''skipped'' else ''success'') else ''failed'')
    \<and> (\<not> okay \<longrightarrow> map_of (ar_files st') (tmp_name cfg part) = None)"
proof -
  obtain m where m: "start_archive now part (ar_meta st) = (run_seq (ar_meta st) + 1, m)"
    by (simp add: start_archive_def Let_def)
  let ?i = "run_seq (ar_meta st) + 1"
  obtain x st1 where body: "archive_body cfg calls now part ?i (st\<lparr>ar_meta := m\<rparr>) = (x, st1)" by force
  have run: "run_state ?i m = Some ''running''" using run_state_start [OF assms(1) m] .
  note eff = archive_body_effect [OF body, simplified run]
  show ?thesis
  proof (cases x)
    case (Inl e)
    then have "okay = False" "st' = st1\<lparr>ar_meta := finish_archive now ?i ''failed'' 0 0 '''' (str_exc e) (ar_meta st1),
        ar_files := AList.delete (tmp_name cfg part) (ar_files st1)\<rparr>"
      using assms(2) body m by (auto simp: archive_partition_def split: if_splits)
    then show ?thesis using eff(1,3) run by auto
  next
    case (Inr v)
    then have "okay = True" "st' = st1"
      using assms(2) body m by (auto simp: archive_partition_def split: if_splits)
    then show ?thesis using eff(1) eff(2) [OF Inr] run by auto
  qed
qed

definition demo_archive_cfg :: archive_cfg where
  "demo_archive_cfg = \<lparr>c_table = ''nat_logs'', c_drop_after = True, c_retention_months = 1,
     c_archive_enabled = True\<rparr>"

definition demo_archive :: archive_sys where
  "demo_archive = \<lparr>ar_meta = empty_meta, ar_files = [], ar_dropped = []\<rparr>"

lemma demo_archive_runs: "runs_ok (ar_meta demo_archive)"
  using empty_meta_ok by (simp add: demo_archive_def meta_ok_def)

theorem archive_safe_witness:
  "\<exists>st'. archive_partition demo_archive_cfg ((smooth_calls 5 20)\<lparr>a_export := Some DbError\<rparr>)
        (\<lambda>_. []) [] ''202509'' demo_archive = (Inr False, st')
      \<and> ar_dropped st' = []"
proof -
  obtain st' where st': "archive_partition demo_archive_cfg ((smooth_calls 5 20)\<lparr>a_export := Some DbError\<rparr>)
        (\<lambda>_. []) [] ''202509'' demo_archive = (Inr False, st')"
    by (simp add: archive_partition_def archive_body_def smooth_calls_def start_archive_def Let_def)
  have "ar_dropped st' = ar_dropped demo_archive"
    using archive_safe [OF demo_archive_runs st'] by (auto simp: smooth_calls_def)
  then show ?thesis using st' by (simp add: demo_archive_def)
qed

text \<open>Also (prune_window): An archive file of a month is removed exactly when that month plus the retention is at most the current month, counted in months. Its last rows are then between retention - 1 and retention months old: the window kept is one month shorter than configured.\<close>

theorem prune_window:
  assumes "real_month (d_year today) (d_month today)" and "real_month y m"
    and "1 \<le> c_retention_months cfg"
    and "12000 + c_retention_months cfg \<le> month_index (d_year today) (d_month today)"
  shows "target_name cfg (month_text y m) \<notin> fst ` set (snd (prune_archives cfg today
        [(target_name cfg (month_text y m), n)]))
    \<longleftrightarrow> month_index y m + c_retention_months cfg \<le> month_index (d_year today) (d_month today)"
  using pruned_month [OF assms] by (simp add: prune_archives_def)

theorem prune_window_witness:
  "target_name demo_archive_cfg (month_text 2025 9) \<notin> fst ` set (snd (prune_archives demo_archive_cfg
        \<lparr>d_year = 2025, d_month = 10\<rparr> [(target_name demo_archive_cfg (month_text 2025 9), 4096)]))"
  using prune_window [of "\<lparr>d_year = 2025, d_month = 10\<rparr>" 2025 9 demo_archive_cfg 4096]
  by (simp add: real_month_def month_index_def demo_archive_cfg_def)

text \<open>Also (fresh_archive_pruned): So a maintenance run can delete what it has just archived: when a closed month lies exactly the retention before the current one, the run exports it, records success, drops the partition if so configured, and then prunes the file it has just written.\<close>

theorem fresh_archive_pruned:
  assumes "real_month (d_year today) (d_month today)" and "real_month y m"
    and "1 \<le> c_retention_months cfg"
    and "12000 + c_retention_months cfg \<le> month_index (d_year today) (d_month today)"
    and "month_index y m + c_retention_months cfg = month_index (d_year today) (d_month today)"
    and "c_archive_enabled cfg" and "0 < n" and "64 \<le> bytes"
    and "runs_ok (ar_meta st)" and "runs (ar_meta st) = []"
  shows "\<exists>st'. maintenance_run cfg True (Inr [month_text y m]) (\<lambda>_. smooth_calls n bytes) str_exc False
        now today st = (Inr 0, st')
    \<and> map_of (ar_files st') (target_name cfg (month_text y m)) = None
    \<and> run_state (run_seq (ar_meta st) + 1) (ar_meta st') = Some ''success''
    \<and> (c_drop_after cfg \<longrightarrow> month_text y m \<in> set (ar_dropped st'))"
proof -
  let ?p = "month_text y m"
  have "?p \<in> set (closed_partitions today [?p] (ar_meta st))"
    using closed_month [OF assms(1,2)] assms(3,5,10) by simp
  then have closed: "closed_partitions today [?p] (ar_meta st) = [?p]" by (rule closed_single)
  obtain st1 where st1: "archive_partition cfg (smooth_calls n bytes) str_exc now ?p st = (Inr True, st1)"
    "run_state (run_seq (ar_meta st) + 1) (ar_meta st1) = Some ''success''"
    "ar_dropped st1 = ar_dropped st @ (if c_drop_after cfg then [?p] else [])"
    using archive_smooth [OF assms(7-9)] by blast
  have "pruned cfg today (target_name cfg ?p)" using pruned_month [OF assms(1-4)] assms(5) by simp
  then show ?thesis
    using st1 assms(6) prune_target by (simp add: maintenance_run_def closed Let_def)
qed

theorem fresh_archive_pruned_witness:
  "\<exists>st'. maintenance_run demo_archive_cfg True (Inr [month_text 2025 9]) (\<lambda>_. smooth_calls 1000 4096)
        (\<lambda>_. []) False [] \<lparr>d_year = 2025, d_month = 10\<rparr> demo_archive = (Inr 0, st')
    \<and> map_of (ar_files st') (target_name demo_archive_cfg (month_text 2025 9)) = None
    \<and> month_text 2025 9 \<in> set (ar_dropped st')"
  using fresh_archive_pruned [of "\<lparr>d_year = 2025, d_month = 10\<rparr>" 2025 9 demo_archive_cfg 1000 4096
      demo_archive "\<lambda>_. []" "[]"] demo_archive_runs
  by (auto simp: real_month_def month_index_def demo_archive_cfg_def demo_archive_def empty_meta_def)

text \<open>C30 (recover_dead_only): The recovery of orphaned claims never touches the in-flight list of a worker whose process it sees, whatever Redis does; every other list keeps its records or is emptied as a whole, and with Redis answering all of them are emptied; and whatever Redis does, no record is lost or doubled.\<close>

theorem recover_dead_only:
  assumes "redis_scan R V" and "1000 \<le> lim" and "plain_queue q"
  shows "(\<exists>n t. recover_orphaned_claims R lim q (\<lambda>_. Reply) live s = (Inr n, t)
      \<and> (\<forall>w. V t (inflight_key w) = (if w \<in> live then V s (inflight_key w) else [])))
    \<and> (\<forall>w. V (snd (recover_orphaned_claims R lim q net live s)) (inflight_key w) = V s (inflight_key w)
        \<or> w \<notin> live \<and> V (snd (recover_orphaned_claims R lim q net live s)) (inflight_key w) = [])
    \<and> mset (V (snd (recover_orphaned_claims R lim q net live s)) (queue_key q))
        + (\<Sum>k\<in>set (r_scan R INFLIGHT_PREFIX s).
             mset (V (snd (recover_orphaned_claims R lim q net live s)) k))
      = mset (V s (queue_key q)) + (\<Sum>k\<in>set (r_scan R INFLIGHT_PREFIX s). mset (V s k))"
proof (intro conjI)
  have L: "redis_log_queue R V lim q"
    using redis_scan.axioms(1) [OF assms(1)] assms(2,3) by (rule redis_log_queueI)
  let ?S = "r_scan R INFLIGHT_PREFIX s"
  let ?K = "filter (\<lambda>name. drop (length INFLIGHT_PREFIX) name \<notin> live) ?S"
  have q: "queue_key q \<notin> set ?S"
    using redis_scan.scan_prefix [OF assms(1)] assms(3) by (auto simp: plain_queue_def)
  then have qK: "queue_key q \<notin> set ?K" by simp
  obtain n t where t: "recover_orphaned_claims R lim q (\<lambda>_. Reply) live s = (Inr n, t)"
    "\<forall>k \<in> set ?K. V t k = []"
    "\<forall>k. k \<notin> set ?K \<longrightarrow> k \<noteq> queue_key q \<longrightarrow> V t k = V s k"
    using redis_log_queue.recover_loop_reply [OF L qK, of 0 0 s]
    by (auto simp: recover_orphaned_claims_def)
  have rest: "V s (inflight_key w) = []" if "inflight_key w \<notin> set ?S" for w
    using redis_scan.scan_law [OF assms(1), of s "inflight_key w" INFLIGHT_PREFIX] that
    by (auto simp: inflight_key_def)
  have mem: "inflight_key w \<in> set ?K \<longleftrightarrow> inflight_key w \<in> set ?S \<and> w \<notin> live" for w
    by (simp add: inflight_key_def)
  have "V t (inflight_key w) = (if w \<in> live then V s (inflight_key w) else [])" for w
  proof (cases "inflight_key w \<in> set ?K")
    case True
    then show ?thesis using t(2) mem [of w] by metis
  next
    case False
    then have "V t (inflight_key w) = V s (inflight_key w)"
      using t(3) plain_queue_neq(1) [OF assms(3)] by metis
    then show ?thesis using False mem [of w] rest [of w] by metis
  qed
  then show "\<exists>n t. recover_orphaned_claims R lim q (\<lambda>_. Reply) live s = (Inr n, t)
      \<and> (\<forall>w. V t (inflight_key w) = (if w \<in> live then V s (inflight_key w) else []))"
    using t(1) by blast
  have mem_live: "inflight_key w \<in> set ?K \<Longrightarrow> w \<notin> live" for w using mem by blast
  show "\<forall>w. V (snd (recover_orphaned_claims R lim q net live s)) (inflight_key w) = V s (inflight_key w)
      \<or> w \<notin> live \<and> V (snd (recover_orphaned_claims R lim q net live s)) (inflight_key w) = []"
    unfolding recover_orphaned_claims_def
    using redis_log_queue.recover_loop_lists [OF L qK plain_queue_neq(1) [OF assms(3)]] mem_live by blast
  show "mset (V (snd (recover_orphaned_claims R lim q net live s)) (queue_key q))
        + (\<Sum>k\<in>set ?S. mset (V (snd (recover_orphaned_claims R lim q net live s)) k))
      = mset (V s (queue_key q)) + (\<Sum>k\<in>set ?S. mset (V s k))"
    unfolding recover_orphaned_claims_def
    by (rule redis_log_queue.recover_loop_conserves [OF L finite_set _ q]) auto
qed

theorem recover_dead_only_witness:
  "\<exists>n t. recover_orphaned_claims ref_redis 7900 default_queue (\<lambda>_. Reply)
        (live_worker_ids ''host'' [''17'']) demo_store = (Inr n, t)
      \<and> (\<forall>w. ref_list t (inflight_key w)
           = (if w \<in> live_worker_ids ''host'' [''17''] then ref_list demo_store (inflight_key w) else []))"
  using recover_dead_only [of ref_redis ref_list 7900 default_queue
      "live_worker_ids ''host'' [''17'']" demo_store] ref_scan.redis_scan_axioms
  by simp

end
