(* ===== verification/Log_Search.thy ===== *)
theory Log_Search
  imports Meta_Store
begin

text \<open>
  Searching the log: \<open>backend/app/database/clickhouse.py\<close> (the query text, its bound parameters,
  paging and counting) and \<open>backend/app/api/search_api.py\<close> (validation, the mandatory time window,
  the endpoints). ClickHouse and its driver are parameters: a server answers a query text with
  its parameters. What the code relies on, the meaning of the clauses it writes and of
  \<open>ORDER BY ... LIMIT ... OFFSET\<close>, is the predicate \<open>answers_select\<close>.
\<close>

section \<open>Date and time values\<close>

text \<open>
  A \<open>datetime\<close> counts microseconds from 0001-01-01 on the wall clock; an aware one carries its
  offset from UTC, in microseconds. Comparing or subtracting a naive and an aware one raises.
\<close>

datatype pydt = Naive int | Aware int int

fun dt_pair :: "pydt \<Rightarrow> pydt \<Rightarrow> (int \<times> int) result" where
  "dt_pair (Naive a) (Naive b) = Inr (a, b)"
| "dt_pair (Aware a o1) (Aware b o2) = Inr (a - o1, b - o2)"
| "dt_pair _ _ = Inl TypeError"

definition dt_gt :: "pydt \<Rightarrow> pydt \<Rightarrow> bool result" where
  "dt_gt a b = map_sum id (\<lambda>(x, y). x > y) (dt_pair a b)"

definition dt_diff :: "pydt \<Rightarrow> pydt \<Rightarrow> int result" where
  "dt_diff a b = map_sum id (\<lambda>(x, y). x - y) (dt_pair a b)"

fun dt_minus :: "pydt \<Rightarrow> int \<Rightarrow> pydt result" where
  "dt_minus (Naive a) d = (if a - d < 0 then Inl OverflowError else Inr (Naive (a - d)))"
| "dt_minus (Aware a off) d = (if a - d < 0 then Inl OverflowError else Inr (Aware (a - d) off))"

definition hours :: "int \<Rightarrow> int" where "hours n = n * 3600 * 1000000"
definition days :: "int \<Rightarrow> int" where "days n = hours (24 * n)"

section \<open>Columns and filters\<close>

definition COLUMNS :: "string list" where
  "COLUMNS =
     [''timestamp'', ''router_ip'', ''subscriber_id'',
      ''private_ip'', ''private_port'', ''public_ip'', ''public_port'',
      ''dest_ip'', ''dest_port'', ''protocol'', ''session_end_time'']"

definition SELECT_COLUMNS :: "string list" where
  "SELECT_COLUMNS = COLUMNS @ [''session_start_time'']"

definition SORTABLE :: "string list" where
  "SORTABLE =
     [''timestamp'', ''router_ip'', ''subscriber_id'', ''private_ip'', ''private_port'',
      ''public_ip'', ''public_port'', ''dest_ip'', ''dest_port'', ''protocol'']"

definition sortable :: "pystr \<Rightarrow> bool" where
  "sortable t = (t \<in> set (map lit SORTABLE))"

definition EXACT_FILTERS :: "(string, string \<times> string) pydict" where
  "EXACT_FILTERS =
     [(''router_ip'', (''router_ip'', ''IPv4'')),
      (''private_ip'', (''private_ip'', ''IPv4'')),
      (''public_ip'', (''public_ip'', ''IPv4'')),
      (''dest_ip'', (''dest_ip'', ''IPv4'')),
      (''private_port'', (''private_port'', ''UInt16'')),
      (''public_port'', (''public_port'', ''UInt16'')),
      (''dest_port'', (''dest_port'', ''UInt16'')),
      (''protocol'', (''protocol'', ''String''))]"

text \<open>The values that go to and come from the driver. \<open>PIp\<close> is an \<open>IPv4Address\<close>, by its text.\<close>

datatype pval = PNone | PStr pystr | PInt int | PTime pydt | PIp pystr

text \<open>\<open>value in (None, "")\<close>.\<close>

definition blank :: "pval \<Rightarrow> bool" where
  "blank v = (v = PNone \<or> v = PStr [])"

type_synonym params = "(string, pval) pydict"

section \<open>\<open>ClickHouseService\<close>\<close>

record SearchQuery =
  time_from :: pydt
  time_to :: pydt
  exact :: params
  q_subscriber :: "pystr option"
  subscriber_partial :: bool
  q_limit :: int
  q_offset :: int
  order_by :: pystr
  descending :: bool

record SearchResult =
  res_rows :: "params list"
  has_more :: bool
  elapsed_ms :: int
  rows_read :: int

text \<open>
  The service: its settings, and whether it holds a client. The server: whether a client can be
  built and closed, and its answer to a query text, bound parameters and settings. The two
  figures of the reply's summary come already as integers.
\<close>

record ClickHouseService =
  sv_table :: pystr
  sv_max_rows :: int
  sv_max_time :: int
  sv_client :: bool

record reply =
  column_names :: "string list"
  result_rows :: "pval list list"
  summary_ms :: int
  summary_rows :: int

record server =
  can_connect :: bool
  can_close :: bool
  run_query :: "pystr \<Rightarrow> params \<Rightarrow> params \<Rightarrow> reply result"

definition get_client :: "server \<Rightarrow> (ClickHouseService, unit) eff" where
  "get_client srv sv =
     (if sv_client sv then (Inr (), sv)
      else if can_connect srv then (Inr (), sv\<lparr>sv_client := True\<rparr>)
      else (Inl DbError, sv))"

definition close_client :: "server \<Rightarrow> (ClickHouseService, unit) eff" where
  "close_client srv sv =
     (if sv_client sv then (if can_close srv then Inr () else Inl DbError, sv\<lparr>sv_client := False\<rparr>)
      else (Inr (), sv))"

text \<open>\<open>_where\<close>: the clauses and the parameters they name.\<close>

definition exact_clause :: "string \<Rightarrow> string \<Rightarrow> string \<Rightarrow> pystr" where
  "exact_clause column name ch_type =
     lit column @ lit '' = {'' @ lit name @ lit '':'' @ lit ch_type @ lit ''}''"

fun where_loop :: "params \<Rightarrow> pystr list \<Rightarrow> params \<Rightarrow> (pystr list \<times> params) result" where
  "where_loop [] clauses ps = Inr (clauses, ps)"
| "where_loop ((name, value) # rest) clauses ps =
     (if blank value then where_loop rest clauses ps
      else
        (case map_of EXACT_FILTERS name of
           None \<Rightarrow> Inl KeyError
         | Some (column, ch_type) \<Rightarrow>
             where_loop rest (clauses @ [exact_clause column name ch_type]) (dict_set ps name value)))"

definition where_clauses :: "SearchQuery \<Rightarrow> (pystr list \<times> params) result" where
  "where_clauses q =
     (case where_loop (exact q)
         [lit ''timestamp >= {time_from:DateTime}'', lit ''timestamp <= {time_to:DateTime}'']
         [(''time_from'', PTime (time_from q)), (''time_to'', PTime (time_to q))] of
        Inl e \<Rightarrow> Inl e
      | Inr (clauses, ps) \<Rightarrow>
          (case q_subscriber q of
             Some sub \<Rightarrow>
               if sub = [] then Inr (clauses, ps)
               else if subscriber_partial q then
                 Inr (clauses @ [lit ''positionCaseInsensitive(subscriber_id, {subscriber_id:String}) > 0''],
                      dict_set ps ''subscriber_id'' (PStr sub))
               else
                 Inr (clauses @ [lit ''subscriber_id = {subscriber_id:String}''],
                      dict_set ps ''subscriber_id'' (PStr sub))
           | None \<Rightarrow> Inr (clauses, ps)))"

text \<open>The text and the parameters of \<open>search\<close>.\<close>

definition select_text :: "pystr \<Rightarrow> pystr list \<Rightarrow> pystr \<Rightarrow> bool \<Rightarrow> pystr" where
  "select_text table clauses order_column desc =
     lit ''SELECT '' @ py_join (lit '', '') (map lit SELECT_COLUMNS) @ lit '' FROM '' @ table
     @ lit '' WHERE '' @ py_join (lit '' AND '') clauses
     @ lit '' ORDER BY '' @ order_column @ lit '' '' @ (if desc then lit ''DESC'' else lit ''ASC'')
     @ lit '' LIMIT {limit:UInt32} OFFSET {offset:UInt32}''"

definition search_sql :: "ClickHouseService \<Rightarrow> SearchQuery \<Rightarrow> (pystr \<times> params) result" where
  "search_sql sv q =
     (let order_column = (if sortable (order_by q) then order_by q else lit ''timestamp'')
      in case where_clauses q of
           Inl e \<Rightarrow> Inl e
         | Inr (clauses, ps) \<Rightarrow>
             (let ps = dict_set ps ''limit'' (PInt (min (q_limit q) (sv_max_rows sv) + 1));
                  ps = dict_set ps ''offset'' (PInt (q_offset q))
              in Inr (select_text (sv_table sv) clauses order_column (descending q), ps)))"

definition search_settings :: "ClickHouseService \<Rightarrow> params" where
  "search_settings sv =
     [(''max_execution_time'', PInt (sv_max_time sv)), (''timeout_overflow_mode'', PStr (lit ''throw'')),
      (''readonly'', PInt 1)]"

text \<open>\<open>dict(zip(names, row))\<close>, and \<open>xs[:n]\<close>.\<close>

definition row_dict :: "string list \<Rightarrow> pval list \<Rightarrow> params" where
  "row_dict names row = fold (\<lambda>(k, v) d. dict_set d k v) (zip names row) []"

definition py_upto :: "'a list \<Rightarrow> int \<Rightarrow> 'a list" where
  "py_upto xs n = (if n < 0 then take (length xs - nat (- n)) xs else take (nat n) xs)"

definition ch_search :: "server \<Rightarrow> SearchQuery \<Rightarrow> (ClickHouseService, SearchResult) eff" where
  "ch_search srv q sv =
     (case search_sql sv q of
        Inl e \<Rightarrow> (Inl e, sv)
      | Inr (sql, ps) \<Rightarrow>
          (case get_client srv sv of
             (Inl e, sv) \<Rightarrow> (Inl e, sv)
           | (Inr _, sv) \<Rightarrow>
               (case run_query srv sql ps (search_settings sv) of
                  Inl e \<Rightarrow> (Inl e, sv)
                | Inr result \<Rightarrow>
                    (let rows = map (row_dict (column_names result)) (result_rows result);
                         more = (int (length rows) > q_limit q);
                         rows = (if more then py_upto rows (q_limit q) else rows)
                     in (Inr \<lparr>res_rows = rows, has_more = more, elapsed_ms = summary_ms result,
                              rows_read = summary_rows result\<rparr>, sv)))))"

definition count_text :: "pystr \<Rightarrow> pystr list \<Rightarrow> pystr" where
  "count_text table clauses =
     lit ''SELECT count() FROM '' @ table @ lit '' WHERE '' @ py_join (lit '' AND '') clauses"

definition ch_count :: "server \<Rightarrow> SearchQuery \<Rightarrow> (ClickHouseService, int) eff" where
  "ch_count srv q sv =
     (case where_clauses q of
        Inl e \<Rightarrow> (Inl e, sv)
      | Inr (clauses, ps) \<Rightarrow>
          (case get_client srv sv of
             (Inl e, sv) \<Rightarrow> (Inl e, sv)
           | (Inr _, sv) \<Rightarrow>
               (case run_query srv (count_text (sv_table sv) clauses) ps
                   [(''max_execution_time'', PInt (sv_max_time sv)), (''readonly'', PInt 1)] of
                  Inl e \<Rightarrow> (Inl e, sv)
                | Inr result \<Rightarrow>
                    ((case result_rows result of
                        (PInt n # _) # _ \<Rightarrow> Inr n
                      | [] \<Rightarrow> Inl IndexError
                      | [] # _ \<Rightarrow> Inl IndexError
                      | _ \<Rightarrow> Inl TypeError), sv))))"

section \<open>\<open>SearchRequest\<close>\<close>

definition MAX_WINDOW_DAYS :: int where "MAX_WINDOW_DAYS = 400"

record SearchRequest =
  req_from :: "pydt option"
  req_to :: "pydt option"
  req_router_ip :: "pystr option"
  req_private_ip :: "pystr option"
  req_public_ip :: "pystr option"
  req_dest_ip :: "pystr option"
  req_private_port :: "int option"
  req_public_port :: "int option"
  req_dest_port :: "int option"
  req_protocol :: "pystr option"
  req_subscriber :: "pystr option"
  req_partial :: bool
  req_limit :: int
  req_offset :: int
  req_order_by :: pystr
  req_descending :: bool

definition within :: "('a::ord) \<Rightarrow> 'a \<Rightarrow> 'a option \<Rightarrow> bool" where
  "within lo hi x = (case x of None \<Rightarrow> True | Some v \<Rightarrow> lo \<le> v \<and> v \<le> hi)"

definition valid_ip :: "ucd \<Rightarrow> pystr option \<Rightarrow> pystr option result" where
  "valid_ip U v =
     (case v of
        None \<Rightarrow> Inr None
      | Some t \<Rightarrow> if t = [] then Inr None else map_sum id Some (normalise_ip U t))"

definition blank_to_none :: "ucd \<Rightarrow> pystr option \<Rightarrow> pystr option" where
  "blank_to_none U v =
     (let t = py_strip U (case v of None \<Rightarrow> [] | Some t \<Rightarrow> t)
      in if t = [] then None else Some t)"

text \<open>The model as validated: \<open>None\<close> is the 422 answer of the framework.\<close>

definition validate :: "ucd \<Rightarrow> SearchRequest \<Rightarrow> SearchRequest option" where
  "validate U r =
     (if within 0 65535 (req_private_port r) \<and> within 0 65535 (req_public_port r)
         \<and> within 0 65535 (req_dest_port r)
         \<and> within 0 16 (map_option length (req_protocol r))
         \<and> within 0 128 (map_option length (req_subscriber r))
         \<and> 1 \<le> req_limit r \<and> req_limit r \<le> 10000
         \<and> 0 \<le> req_offset r \<and> req_offset r \<le> 1000000
         \<and> sortable (req_order_by r)
      then
        (case (valid_ip U (req_router_ip r), valid_ip U (req_private_ip r),
               valid_ip U (req_public_ip r), valid_ip U (req_dest_ip r)) of
           (Inr a, Inr b, Inr c, Inr d) \<Rightarrow>
             Some (r\<lparr>req_router_ip := a, req_private_ip := b, req_public_ip := c, req_dest_ip := d,
                     req_protocol := blank_to_none U (req_protocol r),
                     req_subscriber := blank_to_none U (req_subscriber r)\<rparr>)
         | _ \<Rightarrow> None)
      else None)"

text \<open>\<open>getattr(self, name, None)\<close> for the filter names.\<close>

definition opt_val :: "('a \<Rightarrow> pval) \<Rightarrow> 'a option \<Rightarrow> pval" where
  "opt_val f x = (case x of None \<Rightarrow> PNone | Some v \<Rightarrow> f v)"

definition field_value :: "SearchRequest \<Rightarrow> string \<Rightarrow> pval" where
  "field_value r name =
     (if name = ''router_ip'' then opt_val PStr (req_router_ip r)
      else if name = ''private_ip'' then opt_val PStr (req_private_ip r)
      else if name = ''public_ip'' then opt_val PStr (req_public_ip r)
      else if name = ''dest_ip'' then opt_val PStr (req_dest_ip r)
      else if name = ''private_port'' then opt_val PInt (req_private_port r)
      else if name = ''public_port'' then opt_val PInt (req_public_port r)
      else if name = ''dest_port'' then opt_val PInt (req_dest_port r)
      else if name = ''protocol'' then opt_val PStr (req_protocol r)
      else PNone)"

fun upper_value :: "ucd \<Rightarrow> pval \<Rightarrow> pval" where
  "upper_value U (PStr t) = PStr (py_upper U t)"
| "upper_value U v = v"

fun exact_loop :: "ucd \<Rightarrow> SearchRequest \<Rightarrow> string list \<Rightarrow> params \<Rightarrow> params" where
  "exact_loop U r [] d = d"
| "exact_loop U r (name # names) d =
     (let value = field_value r name
      in exact_loop U r names
           (if blank value then d
            else dict_set d name (if name = ''protocol'' then upper_value U value else value)))"

definition to_query :: "ucd \<Rightarrow> pydt \<Rightarrow> SearchRequest \<Rightarrow> SearchQuery result" where
  "to_query U now r =
     (let t_to = (case req_to r of None \<Rightarrow> now | Some t \<Rightarrow> t)
      in case (case req_from r of None \<Rightarrow> dt_minus t_to (hours 24) | Some t \<Rightarrow> Inr t) of
           Inl e \<Rightarrow> Inl e
         | Inr t_from \<Rightarrow>
             (case dt_gt t_from t_to of
                Inl e \<Rightarrow> Inl e
              | Inr True \<Rightarrow> Inl ValueError
              | Inr False \<Rightarrow>
                  (case dt_diff t_to t_from of
                     Inl e \<Rightarrow> Inl e
                   | Inr d \<Rightarrow>
                       if d > days MAX_WINDOW_DAYS then Inl ValueError
                       else Inr \<lparr>time_from = t_from, time_to = t_to,
                         exact = exact_loop U r (map fst EXACT_FILTERS) [],
                         q_subscriber = req_subscriber r, subscriber_partial = req_partial r,
                         q_limit = req_limit r, q_offset = req_offset r,
                         order_by = req_order_by r, descending = req_descending r\<rparr>)))"

section \<open>The endpoints\<close>

text \<open>
  An answer: a body with status 200, or another status. An exception that a handler does not
  turn into an \<open>HTTPException\<close> is the framework's 500.
\<close>

datatype 'a response = Body 'a | Status nat

text \<open>\<open>_serialise\<close>, given \<open>isoformat\<close>.\<close>

definition serialise :: "(pydt \<Rightarrow> pystr) \<Rightarrow> params \<Rightarrow> params" where
  "serialise fmt row =
     fold (\<lambda>(key, value) out. dict_set out key
        (case value of
           PTime t \<Rightarrow> PStr (fmt t)
         | PNone \<Rightarrow> PNone
         | PIp t \<Rightarrow> if py_find key ''_ip'' \<noteq> None then PStr t else PIp t
         | PStr t \<Rightarrow> PStr t
         | PInt n \<Rightarrow>
             if py_find key ''_ip'' \<noteq> None
             then PStr (py_str_int n)
             else PInt n)) row []"

record page =
  pg_rows :: "params list"
  pg_more :: bool
  pg_ms :: int
  pg_scanned :: int
  pg_limit :: int
  pg_offset :: int

definition db_failed :: "server \<Rightarrow> ClickHouseService \<Rightarrow> 'a response \<times> ClickHouseService" where
  "db_failed srv sv =
     (case close_client srv sv of
        (Inl _, sv) \<Rightarrow> (Status 500, sv)
      | (Inr _, sv) \<Rightarrow> (Status 503, sv))"

definition api_search ::
    "ucd \<Rightarrow> (pydt \<Rightarrow> pystr) \<Rightarrow> server \<Rightarrow> pydt \<Rightarrow> SearchRequest \<Rightarrow> ClickHouseService
      \<Rightarrow> page response \<times> ClickHouseService" where
  "api_search U fmt srv now payload sv =
     (case validate U payload of
        None \<Rightarrow> (Status 422, sv)
      | Some r \<Rightarrow>
          (case to_query U now r of
             Inl e \<Rightarrow> (Status (if e = ValueError then 400 else 500), sv)
           | Inr q \<Rightarrow>
               (case ch_search srv q sv of
                  (Inl _, sv) \<Rightarrow> db_failed srv sv
                | (Inr result, sv) \<Rightarrow>
                    (Body \<lparr>pg_rows = map (serialise fmt) (res_rows result), pg_more = has_more result,
                           pg_ms = elapsed_ms result, pg_scanned = rows_read result,
                           pg_limit = q_limit q, pg_offset = q_offset q\<rparr>, sv))))"

definition api_count ::
    "ucd \<Rightarrow> server \<Rightarrow> pydt \<Rightarrow> SearchRequest \<Rightarrow> ClickHouseService \<Rightarrow> int response \<times> ClickHouseService" where
  "api_count U srv now payload sv =
     (case validate U payload of
        None \<Rightarrow> (Status 422, sv)
      | Some r \<Rightarrow>
          (case to_query U now r of
             Inl e \<Rightarrow> (Status (if e = ValueError then 400 else 500), sv)
           | Inr q \<Rightarrow>
               (case ch_count srv q sv of
                  (Inl _, sv) \<Rightarrow> db_failed srv sv
                | (Inr n, sv) \<Rightarrow> (Body n, sv))))"

section \<open>What a query asks for\<close>

text \<open>
  The clauses as data, their text, and the list a query stands for. Then the rows they select:
  a stored row maps columns to values, and \<open>instant\<close> is the point in time, in seconds, that the
  driver and the server make of a bound \<open>datetime\<close>.
\<close>

datatype clause = From | To | Equal string string string | SubIs | SubHas

primrec render :: "clause \<Rightarrow> pystr" where
  "render From = lit ''timestamp >= {time_from:DateTime}''"
| "render To = lit ''timestamp <= {time_to:DateTime}''"
| "render (Equal column name ch_type) = exact_clause column name ch_type"
| "render SubIs = lit ''subscriber_id = {subscriber_id:String}''"
| "render SubHas = lit ''positionCaseInsensitive(subscriber_id, {subscriber_id:String}) > 0''"

definition given :: "SearchQuery \<Rightarrow> params" where
  "given q = filter (\<lambda>(name, v). \<not> blank v) (exact q)"

definition filter_clause :: "string \<Rightarrow> clause" where
  "filter_clause name = (case map_of EXACT_FILTERS name of Some (c, t) \<Rightarrow> Equal c name t | None \<Rightarrow> From)"

definition sub_clauses :: "SearchQuery \<Rightarrow> clause list" where
  "sub_clauses q =
     (if q_subscriber q \<in> {None, Some []} then [] else [if subscriber_partial q then SubHas else SubIs])"

definition query_clauses :: "SearchQuery \<Rightarrow> clause list" where
  "query_clauses q = [From, To] @ map (\<lambda>(name, v). filter_clause name) (given q) @ sub_clauses q"

definition set_all :: "params \<Rightarrow> params \<Rightarrow> params" where
  "set_all xs d = fold (\<lambda>(name, v) d. dict_set d name v) xs d"

definition query_params :: "SearchQuery \<Rightarrow> params" where
  "query_params q =
     (let ps = set_all (given q) [(''time_from'', PTime (time_from q)), (''time_to'', PTime (time_to q))]
      in case q_subscriber q of
           Some sub \<Rightarrow> if sub = [] then ps else dict_set ps ''subscriber_id'' (PStr sub)
         | None \<Rightarrow> ps)"

definition page_params :: "ClickHouseService \<Rightarrow> SearchQuery \<Rightarrow> params" where
  "page_params sv q =
     dict_set (dict_set (query_params q) ''limit'' (PInt (min (q_limit q) (sv_max_rows sv) + 1)))
       ''offset'' (PInt (q_offset q))"

text \<open>The filters name fields of \<open>EXACT_FILTERS\<close>, each at most once.\<close>

definition names_ok :: "SearchQuery \<Rightarrow> bool" where
  "names_ok q \<longleftrightarrow> distinct (map fst (given q)) \<and> set (map fst (given q)) \<subseteq> set (map fst EXACT_FILTERS)"

lemma where_loop_known:
  assumes "fst ` set (filter (\<lambda>(n, v). \<not> blank v) xs) \<subseteq> fst ` set EXACT_FILTERS"
  shows "where_loop xs cl ps =
    Inr (cl @ map (\<lambda>(n, v). render (filter_clause n)) (filter (\<lambda>(n, v). \<not> blank v) xs),
         set_all (filter (\<lambda>(n, v). \<not> blank v) xs) ps)"
  using assms
proof (induction xs cl ps rule: where_loop.induct)
  case (2 name w rest cl ps)
  show ?case
  proof (cases "blank w")
    case False
    then have "name \<in> fst ` set EXACT_FILTERS" using 2(3) by auto
    then obtain c t where ct: "map_of EXACT_FILTERS name = Some (c, t)"
      by (metis map_of_eq_None_iff not_Some_eq surj_pair)
    moreover have "fst ` set (filter (\<lambda>(n, v). \<not> blank v) rest) \<subseteq> fst ` set EXACT_FILTERS"
      using 2(3) False by simp
    ultimately show ?thesis
      using 2(2) [OF False ct refl] False by (simp add: set_all_def filter_clause_def)
  qed (use 2 in simp)
qed (simp add: set_all_def)

lemma where_clauses_known:
  "set (map fst (given q)) \<subseteq> set (map fst EXACT_FILTERS) \<Longrightarrow>
     where_clauses q = Inr (map render (query_clauses q), query_params q)"
  by (auto simp: where_clauses_def where_loop_known given_def query_clauses_def
      query_params_def sub_clauses_def Let_def comp_def case_prod_beta split: option.splits)

lemma where_clauses_ok:
  "names_ok q \<Longrightarrow> where_clauses q = Inr (map render (query_clauses q), query_params q)"
  by (simp add: where_clauses_known names_ok_def)

lemma where_clauses_unknown:
  "\<not> set (map fst (given q)) \<subseteq> set (map fst EXACT_FILTERS) \<Longrightarrow> where_clauses q = Inl KeyError"
proof -
  have "where_loop xs cl ps = Inl KeyError"
    if "\<not> fst ` set (filter (\<lambda>(n, v). \<not> blank v) xs) \<subseteq> fst ` set EXACT_FILTERS" for xs cl ps
    using that
  proof (induction xs cl ps rule: where_loop.induct)
    case (2 name w rest cl ps)
    show ?case
    proof (cases "map_of EXACT_FILTERS name")
      case (Some ct)
      then have "name \<in> fst ` set EXACT_FILTERS" by (metis map_of_SomeD fst_conv image_eqI)
      then have *: "\<not> fst ` set (filter (\<lambda>(n, v). \<not> blank v) rest) \<subseteq> fst ` set EXACT_FILTERS"
        using 2(3) by (auto split: if_splits)
      then show ?thesis using 2(1,2) Some by (cases ct) auto
    qed (use 2(1,3) in \<open>cases "blank w"; simp\<close>)
  qed simp
  then show "\<not> set (map fst (given q)) \<subseteq> set (map fst EXACT_FILTERS) \<Longrightarrow> where_clauses q = Inl KeyError"
    by (simp add: where_clauses_def given_def)
qed

lemma search_sql_ok:
  assumes "names_ok q" "order_by q = lit col" "col \<in> set SORTABLE"
  shows "search_sql sv q =
    Inr (select_text (sv_table sv) (map render (query_clauses q)) (lit col) (descending q), page_params sv q)"
  using assms by (simp add: search_sql_def where_clauses_ok sortable_def page_params_def)

section \<open>Parameters\<close>

lemma map_of_set_all:
  assumes "distinct (map fst xs)"
  shows "map_of (set_all xs d) k = (case map_of xs k of None \<Rightarrow> map_of d k | Some v \<Rightarrow> Some v)"
  using assms
proof (induction xs arbitrary: d)
  case (Cons x xs)
  then show ?case
    by (cases x) (auto simp: set_all_def map_of_eq_None_iff [symmetric] split: option.splits)
qed (simp add: set_all_def)

text \<open>The names of the fixed parameters are not names of filters: nothing is overwritten.\<close>

lemma filter_names:
  "{''time_from'', ''time_to'', ''subscriber_id'', ''limit'', ''offset''} \<inter> set (map fst EXACT_FILTERS) = {}"
  by (simp add: EXACT_FILTERS_def)

lemma map_of_page_params:
  assumes "names_ok q"
  shows "map_of (page_params sv q) ''time_from'' = Some (PTime (time_from q))"
    "map_of (page_params sv q) ''time_to'' = Some (PTime (time_to q))"
    "map_of (page_params sv q) ''limit'' = Some (PInt (min (q_limit q) (sv_max_rows sv) + 1))"
    "map_of (page_params sv q) ''offset'' = Some (PInt (q_offset q))"
    "q_subscriber q = Some sub \<Longrightarrow> sub \<noteq> [] \<Longrightarrow>
       map_of (page_params sv q) ''subscriber_id'' = Some (PStr sub)"
    "(n, v) \<in> set (given q) \<Longrightarrow> map_of (page_params sv q) n = Some v"
proof -
  have no: "map_of (given q) k = None"
    if "k \<in> {''time_from'', ''time_to'', ''subscriber_id'', ''limit'', ''offset''}" for k
  proof -
    have "k \<notin> set (map fst EXACT_FILTERS)" using that filter_names by blast
    then have "k \<notin> set (map fst (given q))" using assms unfolding names_ok_def by blast
    then show ?thesis by (simp only: map_of_eq_None_iff set_map not_False_eq_True)
  qed
  have d: "distinct (map fst (given q))" using assms by (simp add: names_ok_def)
  note simps = page_params_def query_params_def Let_def map_of_set_all [OF d]
  show "map_of (page_params sv q) ''time_from'' = Some (PTime (time_from q))"
    "map_of (page_params sv q) ''time_to'' = Some (PTime (time_to q))"
    "map_of (page_params sv q) ''limit'' = Some (PInt (min (q_limit q) (sv_max_rows sv) + 1))"
    "map_of (page_params sv q) ''offset'' = Some (PInt (q_offset q))"
    by (auto simp: simps no split: option.splits)
  show "q_subscriber q = Some sub \<Longrightarrow> sub \<noteq> [] \<Longrightarrow>
       map_of (page_params sv q) ''subscriber_id'' = Some (PStr sub)"
    by (simp add: simps)
  assume nv: "(n, v) \<in> set (given q)"
  then have "n \<in> set (map fst (given q))" by force
  then have "n \<in> set (map fst EXACT_FILTERS)" using assms unfolding names_ok_def by blast
  then have "n \<notin> {''time_from'', ''time_to'', ''subscriber_id'', ''limit'', ''offset''}"
    using filter_names by blast
  moreover have "map_of (given q) n = Some v" using nv d by (simp add: map_of_eq_Some_iff)
  ultimately show "map_of (page_params sv q) n = Some v"
    by (auto simp: simps split: option.splits)
qed

section \<open>What ClickHouse is relied on for\<close>

type_synonym stored = "string \<Rightarrow> pval"

definition low :: "nat \<Rightarrow> nat" where
  "low c = (if 65 \<le> c \<and> c \<le> 90 then c + 32 else c)"

definition contains_ci :: "pystr \<Rightarrow> pystr \<Rightarrow> bool" where
  "contains_ci hay needle = (py_find (map low hay) (map low needle) \<noteq> None)"

text \<open>A bound value as the column of the given type compares with it.\<close>

definition as_column :: "string \<Rightarrow> pval \<Rightarrow> pval" where
  "as_column ch_type v = (case v of PStr t \<Rightarrow> (if ch_type = ''IPv4'' then PIp t else PStr t) | _ \<Rightarrow> v)"

fun moment :: "(pydt \<Rightarrow> int) \<Rightarrow> pval option \<Rightarrow> int" where
  "moment instant (Some (PTime t)) = instant t"
| "moment instant _ = 0"

fun text_of :: "pval option \<Rightarrow> pystr" where
  "text_of (Some (PStr t)) = t"
| "text_of _ = []"

fun sat :: "(pydt \<Rightarrow> int) \<Rightarrow> params \<Rightarrow> stored \<Rightarrow> clause \<Rightarrow> bool" where
  "sat instant ps r From =
     (moment instant (map_of ps ''time_from'') \<le> moment instant (Some (r ''timestamp'')))"
| "sat instant ps r To =
     (moment instant (Some (r ''timestamp'')) \<le> moment instant (map_of ps ''time_to''))"
| "sat instant ps r (Equal column name ch_type) =
     (map_option (as_column ch_type) (map_of ps name) = Some (r column))"
| "sat instant ps r SubIs = (map_of ps ''subscriber_id'' = Some (r ''subscriber_id''))"
| "sat instant ps r SubHas =
     contains_ci (text_of (Some (r ''subscriber_id''))) (text_of (map_of ps ''subscriber_id''))"

fun number_of :: "pval option \<Rightarrow> nat" where
  "number_of (Some (PInt n)) = nat n"
| "number_of _ = 0"

definition in_order :: "(pval \<Rightarrow> pval \<Rightarrow> bool) \<Rightarrow> string \<Rightarrow> bool \<Rightarrow> stored \<Rightarrow> stored \<Rightarrow> bool" where
  "in_order le col desc a b = (if desc then le (b col) (a col) else le (a col) (b col))"

text \<open>
  The documented answer to the \<open>SELECT\<close> with these clauses over a table with these rows: the rows
  that satisfy every clause, in some order that sorts them by the column (ties in any order),
  cut by \<open>OFFSET\<close> and \<open>LIMIT\<close>, with the selected columns.
\<close>

definition answers_select ::
    "(pydt \<Rightarrow> int) \<Rightarrow> (pval \<Rightarrow> pval \<Rightarrow> bool) \<Rightarrow> stored list \<Rightarrow> ClickHouseService \<Rightarrow> server
      \<Rightarrow> clause list \<Rightarrow> string \<Rightarrow> bool \<Rightarrow> params \<Rightarrow> bool" where
  "answers_select instant le table sv srv cls col desc ps \<longleftrightarrow>
     (\<exists>rep ys. run_query srv (select_text (sv_table sv) (map render cls) (lit col) desc) ps
           (search_settings sv) = Inr rep
       \<and> mset ys = mset (filter (\<lambda>r. list_all (sat instant ps r) cls) table)
       \<and> sorted_wrt (in_order le col desc) ys
       \<and> column_names rep = SELECT_COLUMNS
       \<and> result_rows rep = map (\<lambda>r. map r SELECT_COLUMNS)
           (take (number_of (map_of ps ''limit'')) (drop (number_of (map_of ps ''offset'')) ys)))"

text \<open>What the user asked for, without a mention of clauses or parameters.\<close>

definition matches :: "(pydt \<Rightarrow> int) \<Rightarrow> SearchQuery \<Rightarrow> stored \<Rightarrow> bool" where
  "matches instant q r \<longleftrightarrow>
     instant (time_from q) \<le> moment instant (Some (r ''timestamp''))
     \<and> moment instant (Some (r ''timestamp'')) \<le> instant (time_to q)
     \<and> (\<forall>(name, v) \<in> set (exact q). \<not> blank v \<longrightarrow>
          (case map_of EXACT_FILTERS name of
             None \<Rightarrow> False
           | Some (column, ch_type) \<Rightarrow> r column = as_column ch_type v))
     \<and> (case q_subscriber q of
          None \<Rightarrow> True
        | Some sub \<Rightarrow> sub = []
            \<or> (if subscriber_partial q then contains_ci (text_of (Some (r ''subscriber_id''))) sub
               else r ''subscriber_id'' = PStr sub))"

lemma clauses_select_matches:
  assumes "names_ok q"
  shows "list_all (sat instant (page_params sv q) r) (query_clauses q) = matches instant q r"
proof -
  note par = map_of_page_params [OF assms, where sv = sv]
  have "list_all (sat instant (page_params sv q) r) (map (\<lambda>(n, v). filter_clause n) (given q))
    \<longleftrightarrow> (\<forall>(name, v) \<in> set (given q). case map_of EXACT_FILTERS name of
          None \<Rightarrow> False | Some (column, ch_type) \<Rightarrow> r column = as_column ch_type v)"
  proof -
    have "sat instant (page_params sv q) r (filter_clause n)
      = (case map_of EXACT_FILTERS n of
          None \<Rightarrow> False | Some (column, ch_type) \<Rightarrow> r column = as_column ch_type v)"
      if nv: "(n, v) \<in> set (given q)" for n v
    proof -
      have "n \<in> set (map fst (given q))" using nv by force
      then have "n \<in> set (map fst EXACT_FILTERS)" using assms unfolding names_ok_def by blast
      then obtain c t where "map_of EXACT_FILTERS n = Some (c, t)"
        by (metis map_of_eq_None_iff not_Some_eq surj_pair set_map)
      then show ?thesis using par(6) [OF nv] by (auto simp: filter_clause_def)
    qed
    then show ?thesis by (fastforce simp: list_all_iff)
  qed
  moreover have "(\<forall>(name, v) \<in> set (given q). P name v)
      \<longleftrightarrow> (\<forall>(name, v) \<in> set (exact q). \<not> blank v \<longrightarrow> P name v)" for P
    by (auto simp: given_def)
  moreover have "list_all (sat instant (page_params sv q) r) (sub_clauses q)
    \<longleftrightarrow> (case q_subscriber q of
          None \<Rightarrow> True
        | Some sub \<Rightarrow> sub = []
            \<or> (if subscriber_partial q then contains_ci (text_of (Some (r ''subscriber_id''))) sub
               else r ''subscriber_id'' = PStr sub))"
    using par(5) by (auto simp: sub_clauses_def split: option.splits)
  ultimately show ?thesis
    by (simp add: query_clauses_def matches_def par(1,2))
qed

lemma row_dict_select: "row_dict SELECT_COLUMNS (map r SELECT_COLUMNS) = map (\<lambda>c. (c, r c)) SELECT_COLUMNS"
  by (simp add: row_dict_def SELECT_COLUMNS_def COLUMNS_def dict_set_def)

text \<open>Fetching one row more than the page and cutting it off again.\<close>

lemma cut_page:
  assumes "0 \<le> lim" "0 \<le> mx" and rows: "rows = map f (take (nat (min lim mx + 1)) d)"
  shows "lim < int (length rows) \<longleftrightarrow> lim \<le> mx \<and> lim < int (length d)"
    "(if lim < int (length rows) then py_upto rows lim else rows) = map f (take (min (nat lim) (nat mx + 1)) d)"
proof -
  obtain n m where nm: "lim = int n" "mx = int m" using assms(1,2) by (metis nonneg_int_cases)
  have "nat (min lim mx + 1) = Suc (min n m)" by (simp add: nm min_def nat_add_distrib)
  then have rows: "rows = map f (take (Suc (min n m)) d)" using rows by simp
  show more: "lim < int (length rows) \<longleftrightarrow> lim \<le> mx \<and> lim < int (length d)"
    by (auto simp: nm rows)
  show "(if lim < int (length rows) then py_upto rows lim else rows) = map f (take (min (nat lim) (nat mx + 1)) d)"
  proof (cases "n \<le> m \<and> n < length d")
    case True
    then show ?thesis using more by (simp add: nm rows py_upto_def take_map min_absorb1)
  next
    case False
    then have "take (Suc (min n m)) d = take (min n (Suc m)) d" by (cases "n \<le> m") auto
    then show ?thesis using more False by (auto simp: nm rows)
  qed
qed

text \<open>One page, whatever the limits: the core of the paging properties.\<close>

lemma search_rows:
  assumes "names_ok q" "order_by q = lit col" "col \<in> set SORTABLE"
    and "sv_client sv \<or> can_connect srv" and "0 \<le> q_offset q" and "0 \<le> q_limit q" and "0 \<le> sv_max_rows sv"
    and "answers_select instant le table sv srv (query_clauses q) col (descending q) (page_params sv q)"
  shows "\<exists>res ys. ch_search srv q sv = (Inr res, sv\<lparr>sv_client := True\<rparr>)
    \<and> mset ys = mset (filter (matches instant q) table)
    \<and> sorted_wrt (in_order le col (descending q)) ys
    \<and> res_rows res = map (\<lambda>r. map (\<lambda>c. (c, r c)) SELECT_COLUMNS)
        (take (min (nat (q_limit q)) (nat (sv_max_rows sv) + 1)) (drop (nat (q_offset q)) ys))
    \<and> (has_more res \<longleftrightarrow> q_limit q \<le> sv_max_rows sv \<and> q_offset q + q_limit q < int (length ys))"
proof -
  note par = map_of_page_params [OF assms(1), where sv = sv]
  obtain rep ys where rep: "run_query srv (select_text (sv_table sv) (map render (query_clauses q)) (lit col)
      (descending q)) (page_params sv q) (search_settings sv) = Inr rep"
    and ys: "mset ys = mset (filter (matches instant q) table)" "sorted_wrt (in_order le col (descending q)) ys"
    and out: "column_names rep = SELECT_COLUMNS"
      "result_rows rep = map (\<lambda>r. map r SELECT_COLUMNS)
        (take (nat (min (q_limit q) (sv_max_rows sv) + 1)) (drop (nat (q_offset q)) ys))"
    using assms(8) unfolding answers_select_def clauses_select_matches [OF assms(1)] par number_of.simps
    by auto
  have client: "get_client srv sv = (Inr (), sv\<lparr>sv_client := True\<rparr>)"
    using assms(4) by (auto simp: get_client_def)
  let ?rows = "map (\<lambda>r. map (\<lambda>c. (c, r c)) SELECT_COLUMNS)
    (take (nat (min (q_limit q) (sv_max_rows sv) + 1)) (drop (nat (q_offset q)) ys))"
  have rows: "map (row_dict (column_names rep)) (result_rows rep) = ?rows"
    by (simp add: out row_dict_select)
  have settings: "search_settings (sv\<lparr>sv_client := True\<rparr>) = search_settings sv"
    by (simp add: search_settings_def)
  let ?more = "int (length ?rows) > q_limit q"
  let ?res = "\<lparr>res_rows = if ?more then py_upto ?rows (q_limit q) else ?rows, has_more = ?more,
    elapsed_ms = summary_ms rep, rows_read = summary_rows rep\<rparr>"
  have search: "ch_search srv q sv = (Inr ?res, sv\<lparr>sv_client := True\<rparr>)"
    by (simp add: ch_search_def search_sql_ok [OF assms(1-3)] client settings rep rows Let_def)
  note cut = cut_page [OF assms(6,7) refl, of "\<lambda>r. map (\<lambda>c. (c, r c)) SELECT_COLUMNS" "drop (nat (q_offset q)) ys"]
  have "q_limit q < int (length (drop (nat (q_offset q)) ys)) \<longleftrightarrow> q_offset q + q_limit q < int (length ys)"
    using assms(5,6) by auto
  then have "has_more ?res \<longleftrightarrow> q_limit q \<le> sv_max_rows sv \<and> q_offset q + q_limit q < int (length ys)"
    unfolding SearchResult.simps cut(1) by simp
  moreover have "res_rows ?res = map (\<lambda>r. map (\<lambda>c. (c, r c)) SELECT_COLUMNS)
        (take (min (nat (q_limit q)) (nat (sv_max_rows sv) + 1)) (drop (nat (q_offset q)) ys))"
    unfolding SearchResult.simps by (rule cut(2))
  ultimately show ?thesis using search ys by (intro exI [of _ ?res] exI [of _ ys] conjI)
qed

section \<open>Requests\<close>

lemma dict_set_new: "k \<notin> fst ` set d \<Longrightarrow> dict_set d k v = d @ [(k, v)]"
  by (induction d) (auto simp: dict_set_def)

text \<open>What the loop of \<open>to_query\<close> collects.\<close>

definition filled :: "ucd \<Rightarrow> SearchRequest \<Rightarrow> string \<Rightarrow> params" where
  "filled U r name =
     (let v = field_value r name
      in if blank v then [] else [(name, if name = ''protocol'' then upper_value U v else v)])"

lemma exact_loop_filled:
  "distinct names \<Longrightarrow> fst ` set d \<inter> set names = {} \<Longrightarrow>
     exact_loop U r names d = d @ concat (map (filled U r) names)"
proof (induction U r names d rule: exact_loop.induct)
  case (2 U r name names d)
  show ?case
  proof (cases "blank (field_value r name)")
    case True
    then show ?thesis using 2 by (simp add: filled_def Let_def)
  next
    case False
    have "name \<notin> fst ` set d" using 2(3) by auto
    then show ?thesis using 2 False by (auto simp: filled_def Let_def dict_set_new)
  qed
qed simp

lemma filled_names: "map fst (concat (map (filled U r) names)) = filter (\<lambda>n. \<not> blank (field_value r n)) names"
  by (induction names) (auto simp: filled_def Let_def)

lemma to_query_Inr:
  assumes "to_query U now r = Inr q"
  shows "q = \<lparr>time_from = time_from q, time_to = time_to q,
      exact = concat (map (filled U r) (map fst EXACT_FILTERS)),
      q_subscriber = req_subscriber r, subscriber_partial = req_partial r,
      q_limit = req_limit r, q_offset = req_offset r,
      order_by = req_order_by r, descending = req_descending r\<rparr>"
    "dt_gt (time_from q) (time_to q) = Inr False"
    "\<exists>d. dt_diff (time_to q) (time_from q) = Inr d \<and> d \<le> days MAX_WINDOW_DAYS"
    "req_from r = Some t \<Longrightarrow> time_from q = t" "req_to r = Some t \<Longrightarrow> time_to q = t"
proof -
  have "distinct (map fst EXACT_FILTERS)" by (simp add: EXACT_FILTERS_def)
  then have loop: "exact_loop U r (map fst EXACT_FILTERS) [] = concat (map (filled U r) (map fst EXACT_FILTERS))"
    by (simp add: exact_loop_filled)
  show "q = \<lparr>time_from = time_from q, time_to = time_to q,
      exact = concat (map (filled U r) (map fst EXACT_FILTERS)),
      q_subscriber = req_subscriber r, subscriber_partial = req_partial r,
      q_limit = req_limit r, q_offset = req_offset r,
      order_by = req_order_by r, descending = req_descending r\<rparr>"
    "dt_gt (time_from q) (time_to q) = Inr False"
    "\<exists>d. dt_diff (time_to q) (time_from q) = Inr d \<and> d \<le> days MAX_WINDOW_DAYS"
    "req_from r = Some t \<Longrightarrow> time_from q = t" "req_to r = Some t \<Longrightarrow> time_to q = t"
    using assms unfolding to_query_def loop Let_def
    by (auto split: sum.splits bool.splits option.splits if_splits)
qed

lemma to_query_names_ok:
  assumes "to_query U now r = Inr q"
  shows "names_ok q"
proof -
  let ?names = "map fst EXACT_FILTERS"
  have e: "map fst (exact q) = filter (\<lambda>n. \<not> blank (field_value r n)) ?names"
    by (subst to_query_Inr(1) [OF assms]) (simp only: SearchQuery.simps filled_names)
  have "distinct ?names" by (simp add: EXACT_FILTERS_def)
  then have "distinct (map fst (exact q))" unfolding e by (rule distinct_filter)
  moreover have "set (map fst (exact q)) \<subseteq> set ?names" unfolding e by (rule filter_is_subset)
  ultimately show ?thesis
    by (auto simp: names_ok_def given_def intro: distinct_map_filter)
qed

lemma validate_Some:
  assumes "validate U p = Some r"
  shows "within 0 65535 (req_private_port r)" "within 0 65535 (req_public_port r)"
    "within 0 65535 (req_dest_port r)" "1 \<le> req_limit r" "req_limit r \<le> 10000"
    "0 \<le> req_offset r" "req_offset r \<le> 1000000" "sortable (req_order_by r)"
    "req_subscriber r \<noteq> Some []" "req_protocol r \<noteq> Some []"
    "req_router_ip r = Some t \<or> req_private_ip r = Some t \<or> req_public_ip r = Some t \<or> req_dest_ip r = Some t
      \<Longrightarrow> canonical_ipv4 t"
proof -
  have ip: "canonical_ipv4 t" if "valid_ip U v = Inr (Some t)" for v t
    using that by (auto simp: valid_ip_def map_sum_Inr_iff normalise_ip_iff split: option.splits if_splits)
  show "within 0 65535 (req_private_port r)" "within 0 65535 (req_public_port r)"
    "within 0 65535 (req_dest_port r)" "1 \<le> req_limit r" "req_limit r \<le> 10000"
    "0 \<le> req_offset r" "req_offset r \<le> 1000000" "sortable (req_order_by r)"
    "req_subscriber r \<noteq> Some []" "req_protocol r \<noteq> Some []"
    "req_router_ip r = Some t \<or> req_private_ip r = Some t \<or> req_public_ip r = Some t \<or> req_dest_ip r = Some t
      \<Longrightarrow> canonical_ipv4 t"
    using assms
    by (auto simp: validate_def blank_to_none_def Let_def split: if_splits sum.splits dest: ip)
qed

lemma sortable_col: "sortable t \<Longrightarrow> \<exists>col \<in> set SORTABLE. t = lit col"
  by (auto simp: sortable_def)

lemma map_of_query_params:
  "k \<noteq> ''limit'' \<Longrightarrow> k \<noteq> ''offset'' \<Longrightarrow> map_of (page_params sv q) k = map_of (query_params q) k"
  by (simp add: page_params_def)

lemma clauses_count_matches:
  assumes "names_ok q"
  shows "list_all (sat instant (query_params q) r) (query_clauses q) = matches instant q r"
proof -
  have "sat instant (query_params q) r c = sat instant (page_params undefined q) r c"
    if c: "c \<in> set (query_clauses q)" for c
  proof (cases c)
    case (Equal column name ch_type)
    have "name \<notin> {''limit'', ''offset''}"
    proof -
      have "c \<in> (\<lambda>(n, v). filter_clause n) ` set (given q)"
        using c Equal by (auto simp: query_clauses_def sub_clauses_def split: if_splits)
      then obtain n v where nv: "(n, v) \<in> set (given q)" "c = filter_clause n" by auto
      then have "n \<in> set (map fst (given q))" by force
      then have n: "n \<in> set (map fst EXACT_FILTERS)" using assms unfolding names_ok_def by blast
      then obtain a b where "map_of EXACT_FILTERS n = Some (a, b)"
        by (metis map_of_eq_None_iff not_Some_eq surj_pair set_map)
      then have "name = n" using nv(2) Equal by (simp add: filter_clause_def)
      then show ?thesis using n filter_names by blast
    qed
    then show ?thesis using Equal by (simp add: map_of_query_params)
  qed (simp_all add: map_of_query_params)
  then have "list_all (sat instant (query_params q) r) (query_clauses q)
      = list_all (sat instant (page_params undefined q) r) (query_clauses q)"
    by (simp add: list_all_iff)
  then show ?thesis by (simp add: clauses_select_matches [OF assms])
qed

text \<open>The documented answer to the \<open>count()\<close> query.\<close>

definition answers_count ::
    "(pydt \<Rightarrow> int) \<Rightarrow> stored list \<Rightarrow> ClickHouseService \<Rightarrow> server \<Rightarrow> clause list \<Rightarrow> params \<Rightarrow> bool" where
  "answers_count instant table sv srv cls ps \<longleftrightarrow>
     map_sum id result_rows (run_query srv (count_text (sv_table sv) (map render cls)) ps
        [(''max_execution_time'', PInt (sv_max_time sv)), (''readonly'', PInt 1)])
      = Inr [[PInt (int (length (filter (\<lambda>r. list_all (sat instant ps r) cls) table)))]]"

text \<open>A bound value of the type that the column of its filter has.\<close>

definition param_typed :: "string \<Rightarrow> pval \<Rightarrow> bool" where
  "param_typed name v =
     (case map_of EXACT_FILTERS name of
        None \<Rightarrow> False
      | Some (column, ch_type) \<Rightarrow>
          if ch_type = ''IPv4'' then (\<exists>t. v = PStr t \<and> canonical_ipv4 t)
          else if ch_type = ''UInt16'' then (\<exists>n. v = PInt n \<and> 0 \<le> n \<and> n \<le> 65535)
          else (\<exists>t. v = PStr t))"

lemma filled_mem:
  assumes "(n, v) \<in> set (filled U r name)"
  shows "n = name" "\<not> blank (field_value r name)"
    "v = (if name = ''protocol'' then upper_value U (field_value r name) else field_value r name)"
  using assms by (simp_all add: filled_def Let_def split: if_split_asm)

lemma filled_typed:
  assumes "validate U p = Some r" and "name \<in> set (map fst EXACT_FILTERS)" and "(n, v) \<in> set (filled U r name)"
  shows "param_typed n v"
proof -
  note ok = validate_Some [OF assms(1)]
  have ip: "param_typed n v" if "name = k" "field_value r k = opt_val PStr t"
    "\<And>x. t = Some x \<Longrightarrow> canonical_ipv4 x" "map_of EXACT_FILTERS k = Some (c, ''IPv4'')" "k \<noteq> ''protocol''" for k t c
    using that assms(3)
    by (cases t) (auto simp: filled_def Let_def opt_val_def param_typed_def blank_def split: if_splits)
  have port: "param_typed n v" if "name = k" "field_value r k = opt_val PInt t"
    "within 0 65535 t" "map_of EXACT_FILTERS k = Some (c, ''UInt16'')" "k \<noteq> ''protocol''" for k t c
    using that assms(3)
    by (cases t) (auto simp: filled_def Let_def opt_val_def param_typed_def blank_def within_def split: if_splits)
  have proto: "param_typed n v" if "name = ''protocol''"
  proof -
    note mem = filled_mem [OF assms(3), unfolded that]
    have f: "field_value r ''protocol'' = opt_val PStr (req_protocol r)" by (simp add: field_value_def)
    have m: "map_of EXACT_FILTERS ''protocol'' = Some (''protocol'', ''String'')" by (simp add: EXACT_FILTERS_def)
    obtain t where "field_value r ''protocol'' = PStr t"
      using mem unfolding f by (cases "req_protocol r") (simp_all add: opt_val_def blank_def)
    then show ?thesis using mem m by (simp add: param_typed_def)
  qed
  have "name = ''router_ip'' \<or> name = ''private_ip'' \<or> name = ''public_ip'' \<or> name = ''dest_ip''
    \<or> name = ''private_port'' \<or> name = ''public_port'' \<or> name = ''dest_port'' \<or> name = ''protocol''"
    using assms(2) unfolding EXACT_FILTERS_def list.map fst_conv set_simps insert_iff empty_iff by argo
  then show ?thesis
  proof (elim disjE)
    assume n: "name = ''router_ip''"
    show ?thesis by (rule ip [OF n, of "req_router_ip r"]) (use ok(11) in \<open>auto simp: field_value_def EXACT_FILTERS_def\<close>)
  next
    assume n: "name = ''private_ip''"
    show ?thesis by (rule ip [OF n, of "req_private_ip r"]) (use ok(11) in \<open>auto simp: field_value_def EXACT_FILTERS_def\<close>)
  next
    assume n: "name = ''public_ip''"
    show ?thesis by (rule ip [OF n, of "req_public_ip r"]) (use ok(11) in \<open>auto simp: field_value_def EXACT_FILTERS_def\<close>)
  next
    assume n: "name = ''dest_ip''"
    show ?thesis by (rule ip [OF n, of "req_dest_ip r"]) (use ok(11) in \<open>auto simp: field_value_def EXACT_FILTERS_def\<close>)
  next
    assume n: "name = ''private_port''"
    show ?thesis by (rule port [OF n, of "req_private_port r"]) (use ok(1) in \<open>auto simp: field_value_def EXACT_FILTERS_def\<close>)
  next
    assume n: "name = ''public_port''"
    show ?thesis by (rule port [OF n, of "req_public_port r"]) (use ok(2) in \<open>auto simp: field_value_def EXACT_FILTERS_def\<close>)
  next
    assume n: "name = ''dest_port''"
    show ?thesis by (rule port [OF n, of "req_dest_port r"]) (use ok(3) in \<open>auto simp: field_value_def EXACT_FILTERS_def\<close>)
  qed (rule proto)
qed

section \<open>Properties\<close>

text \<open>C8 (search_means_matches): For a query over known filters, the clauses and bound parameters that _where writes are the rendering of a clause list that selects, whatever the row, exactly the rows the query asks for: within the window, equal in every given filter, and with the subscriber equal or contained; the fixed parameters (window, subscriber, limit, offset) never collide with a filter's.\<close>

theorem search_means_matches:
  assumes "names_ok q"
  shows "where_clauses q = Inr (map render (query_clauses q), query_params q)
    \<and> list_all (sat instant (query_params q) r) (query_clauses q) = matches instant q r
    \<and> list_all (sat instant (page_params sv q) r) (query_clauses q) = matches instant q r"
  using assms by (simp add: where_clauses_ok clauses_count_matches clauses_select_matches)

definition demo_query :: SearchQuery where
  "demo_query = \<lparr>time_from = Naive 0, time_to = Naive 9000000, exact = [(''dest_port'', PInt 53)],
     q_subscriber = Some (lit ''ALI''), subscriber_partial = True, q_limit = 1, q_offset = 0,
     order_by = lit ''timestamp'', descending = True\<rparr>"

definition demo_stored :: "int \<Rightarrow> stored" where
  "demo_stored t column =
     (if column = ''timestamp'' then PTime (Naive t)
      else if column = ''dest_port'' then PInt 53
      else if column = ''subscriber_id'' then PStr (lit ''khalid'') else PNone)"

fun utc :: "pydt \<Rightarrow> int" where
  "utc (Naive a) = a" | "utc (Aware a off) = a - off"

lemma demo_query_names: "names_ok demo_query"
  by code_simp

lemma demo_matches: "matches utc demo_query (demo_stored 5000000)"
  by code_simp

theorem search_means_matches_witness:
  "list_all (sat utc (query_params demo_query) (demo_stored 5000000)) (query_clauses demo_query)"
  using search_means_matches [OF demo_query_names, of utc "demo_stored 5000000"] demo_matches by simp

text \<open>C27 (search_text_fixed): No value of a search reaches the SQL text: two queries that give the same filters, the same kind of subscriber match and the same order send the same text, whatever their values, window, limit and offset; an order column that is not in the allow-list is replaced by timestamp.\<close>

theorem search_text_fixed:
  assumes "map fst (given q) = map fst (given q')" and "sub_clauses q = sub_clauses q'"
    and "descending q = descending q'"
    and "(if sortable (order_by q) then order_by q else lit ''timestamp'')
       = (if sortable (order_by q') then order_by q' else lit ''timestamp'')"
  shows "map_sum id fst (search_sql sv q) = map_sum id fst (search_sql sv q')"
proof (cases "set (map fst (given q)) \<subseteq> set (map fst EXACT_FILTERS)")
  case True
  have "map (\<lambda>(n, v). filter_clause n) xs = map filter_clause (map fst xs)" for xs :: params
    by (simp add: case_prod_beta)
  then have "query_clauses q = query_clauses q'" using assms(1,2) by (simp only: query_clauses_def)
  moreover have "set (map fst (given q')) \<subseteq> set (map fst EXACT_FILTERS)" using True assms(1) by simp
  ultimately show ?thesis
    using True assms(3,4) by (simp only: search_sql_def where_clauses_known Let_def sum.case prod.case map_sum.simps fst_conv)
next
  case False
  then have "\<not> set (map fst (given q')) \<subseteq> set (map fst EXACT_FILTERS)" using assms(1) by simp
  then show ?thesis using False by (simp add: search_sql_def where_clauses_unknown Let_def del: set_map)
qed

theorem search_text_fixed_witness:
  "\<forall>sv. map_sum id fst (search_sql sv (demo_query\<lparr>q_subscriber := Some (lit ''x; DROP TABLE nat_logs'')\<rparr>))
     = map_sum id fst (search_sql sv demo_query)"
  by (rule allI, rule search_text_fixed) (simp_all add: demo_query_def given_def sub_clauses_def lit_def)

text \<open>C26 (search_request_sound): Every request that passes validation and the window check gives a query within the guard rails: its window is in order and at most 400 days long, its limit is 1 to 10000, its offset at most a million, its order column sortable, and every bound filter value has its column's type, addresses being canonical dotted quads and ports 0 to 65535.\<close>

theorem search_request_sound:
  assumes "validate U p = Some r" and "to_query U now r = Inr q"
  shows "names_ok q \<and> dt_gt (time_from q) (time_to q) = Inr False
    \<and> (\<exists>d. dt_diff (time_to q) (time_from q) = Inr d \<and> d \<le> days 400)
    \<and> 1 \<le> q_limit q \<and> q_limit q \<le> 10000 \<and> 0 \<le> q_offset q \<and> q_offset q \<le> 1000000
    \<and> sortable (order_by q) \<and> q_subscriber q \<noteq> Some []
    \<and> list_all (\<lambda>(n, v). param_typed n v) (exact q)"
proof -
  note q = to_query_Inr [OF assms(2)]
  have "list_all (\<lambda>(n, v). param_typed n v) (exact q)"
    by (subst q(1)) (auto simp: list_all_iff intro!: filled_typed [OF assms(1)] rev_image_eqI)
  moreover have "q_limit q = req_limit r" "q_offset q = req_offset r" "order_by q = req_order_by r"
    "q_subscriber q = req_subscriber r"
    by (subst q(1), simp)+
  ultimately show ?thesis
    using validate_Some [OF assms(1)] q(2,3) to_query_names_ok [OF assms(2)] by (simp add: MAX_WINDOW_DAYS_def)
qed

definition demo_request :: SearchRequest where
  "demo_request = \<lparr>req_from = Some (Naive 0), req_to = Some (Naive 9000000), req_router_ip = None,
     req_private_ip = Some (lit '' 10.0.0.1 ''), req_public_ip = Some [], req_dest_ip = None,
     req_private_port = None, req_public_port = None, req_dest_port = Some 53,
     req_protocol = Some (lit ''tcp''), req_subscriber = Some (lit ''ali''), req_partial = True,
     req_limit = 1, req_offset = 0, req_order_by = lit ''timestamp'', req_descending = True\<rparr>"

definition demo_valid :: SearchRequest where
  "demo_valid = demo_request\<lparr>req_private_ip := Some (lit ''10.0.0.1''), req_public_ip := None\<rparr>"

definition demo_asked :: SearchQuery where
  "demo_asked = \<lparr>time_from = Naive 0, time_to = Naive 9000000,
     exact = [(''private_ip'', PStr (lit ''10.0.0.1'')), (''dest_port'', PInt 53), (''protocol'', PStr (lit ''TCP''))],
     q_subscriber = Some (lit ''ali''), subscriber_partial = True, q_limit = 1, q_offset = 0,
     order_by = lit ''timestamp'', descending = True\<rparr>"

lemma demo_validate: "validate ascii_only demo_request = Some demo_valid"
  by code_simp

lemma demo_to_query: "to_query ascii_only (Naive 0) demo_valid = Inr demo_asked"
  by code_simp

theorem search_request_sound_witness:
  "names_ok demo_asked \<and> list_all (\<lambda>(n, v). param_typed n v) (exact demo_asked)"
  using search_request_sound [OF demo_validate demo_to_query] by simp

text \<open>Also (search_page): A valid search whose limit is within max_result_rows answers with exactly one page: of some sequence that holds the matching rows, each as often as the table, sorted by the chosen column, it shows the limit rows from the offset on, with the selected columns, and has_more says whether rows follow.\<close>

theorem search_page:
  assumes "validate U p = Some r" and "to_query U now r = Inr q"
    and "order_by q = lit col" and "col \<in> set SORTABLE"
    and "sv_client sv \<or> can_connect srv" and "q_limit q \<le> sv_max_rows sv"
    and "answers_select instant le table sv srv (query_clauses q) col (descending q) (page_params sv q)"
  shows "\<exists>pg ys. api_search U fmt srv now p sv = (Body pg, sv\<lparr>sv_client := True\<rparr>)
    \<and> mset ys = mset (filter (matches instant q) table)
    \<and> sorted_wrt (in_order le col (descending q)) ys
    \<and> pg_rows pg = map (\<lambda>r. serialise fmt (map (\<lambda>c. (c, r c)) SELECT_COLUMNS))
        (take (nat (q_limit q)) (drop (nat (q_offset q)) ys))
    \<and> (pg_more pg \<longleftrightarrow> q_offset q + q_limit q < int (length ys))"
proof -
  note q = to_query_Inr [OF assms(2)]
  have lim: "q_limit q = req_limit r" "q_offset q = req_offset r" by (subst q(1), simp)+
  note v = validate_Some [OF assms(1)]
  have bounds: "0 \<le> q_offset q" "0 \<le> q_limit q" "0 \<le> sv_max_rows sv" using v(4,6) lim assms(6) by simp_all
  obtain res ys where res: "ch_search srv q sv = (Inr res, sv\<lparr>sv_client := True\<rparr>)"
    "mset ys = mset (filter (matches instant q) table)" "sorted_wrt (in_order le col (descending q)) ys"
    "res_rows res = map (\<lambda>r. map (\<lambda>c. (c, r c)) SELECT_COLUMNS)
        (take (min (nat (q_limit q)) (nat (sv_max_rows sv) + 1)) (drop (nat (q_offset q)) ys))"
    "has_more res \<longleftrightarrow> q_limit q \<le> sv_max_rows sv \<and> q_offset q + q_limit q < int (length ys)"
    using search_rows [OF to_query_names_ok [OF assms(2)] assms(3-5) bounds assms(7)] by blast
  have "min (nat (q_limit q)) (nat (sv_max_rows sv) + 1) = nat (q_limit q)" using assms(6) by (simp add: min_def)
  then show ?thesis
    using res assms(1,2,6) by (intro exI [of _ "\<lparr>pg_rows = map (serialise fmt) (res_rows res), pg_more = has_more res,
        pg_ms = elapsed_ms res, pg_scanned = rows_read res, pg_limit = q_limit q, pg_offset = q_offset q\<rparr>"]
        exI [of _ ys]) (simp add: api_search_def)
qed

text \<open>A server that holds two matching rows and shows the first.\<close>

definition demo_row :: "int \<Rightarrow> stored" where
  "demo_row t column =
     (if column = ''private_ip'' then PIp (lit ''10.0.0.1'')
      else if column = ''protocol'' then PStr (lit ''TCP'') else demo_stored t column)"

definition demo_rows :: "stored list" where
  "demo_rows = [demo_row 7000000, demo_row 5000000]"

definition demo_reply :: reply where
  "demo_reply = \<lparr>column_names = SELECT_COLUMNS, result_rows = map (\<lambda>r. map r SELECT_COLUMNS) demo_rows,
     summary_ms = 3, summary_rows = 2\<rparr>"

definition demo_server :: server where
  "demo_server = \<lparr>can_connect = True, can_close = True, run_query = (\<lambda>sql ps st. Inr demo_reply)\<rparr>"

definition demo_service :: ClickHouseService where
  "demo_service = \<lparr>sv_table = lit ''network_logs.nat_logs'', sv_max_rows = 10000, sv_max_time = 30,
     sv_client = False\<rparr>"

fun time_le :: "pval \<Rightarrow> pval \<Rightarrow> bool" where
  "time_le (PTime a) (PTime b) = (utc a \<le> utc b)"
| "time_le a b = True"

lemma demo_answers:
  "answers_select utc time_le demo_rows demo_service demo_server (query_clauses demo_asked) ''timestamp''
     (descending demo_asked) (page_params demo_service demo_asked)"
proof -
  have "names_ok demo_asked" by code_simp
  note sel = clauses_select_matches [OF this]
  have m: "matches utc demo_asked (demo_row 7000000)" "matches utc demo_asked (demo_row 5000000)" by code_simp+
  have s: "sorted_wrt (in_order time_le ''timestamp'' (descending demo_asked)) demo_rows" by code_simp
  have n: "number_of (map_of (page_params demo_service demo_asked) ''limit'') = 2"
    "number_of (map_of (page_params demo_service demo_asked) ''offset'') = 0" by code_simp+
  show ?thesis
    unfolding answers_select_def sel n
    by (rule exI [of _ demo_reply], rule exI [of _ demo_rows])
       (use s m in \<open>simp add: demo_server_def demo_reply_def demo_rows_def\<close>)
qed

theorem search_page_witness:
  "\<exists>pg. api_search ascii_only (\<lambda>_. []) demo_server (Naive 0) demo_request demo_service
      = (Body pg, demo_service\<lparr>sv_client := True\<rparr>) \<and> pg_more pg"
proof -
  have m: "matches utc demo_asked (demo_row 7000000)" "matches utc demo_asked (demo_row 5000000)" by code_simp+
  have "order_by demo_asked = lit ''timestamp''" "''timestamp'' \<in> set SORTABLE"
    "sv_client demo_service \<or> can_connect demo_server" "q_limit demo_asked \<le> sv_max_rows demo_service"
    by (simp_all add: demo_asked_def SORTABLE_def demo_server_def demo_service_def)
  from search_page [OF demo_validate demo_to_query this demo_answers, of "\<lambda>_. []"]
  obtain pg ys where "api_search ascii_only (\<lambda>_. []) demo_server (Naive 0) demo_request demo_service
      = (Body pg, demo_service\<lparr>sv_client := True\<rparr>)"
    "mset ys = mset (filter (matches utc demo_asked) demo_rows)"
    "pg_more pg \<longleftrightarrow> q_offset demo_asked + q_limit demo_asked < int (length ys)" by blast
  moreover have "length (filter (matches utc demo_asked) demo_rows) = 2" using m by (simp add: demo_rows_def)
  ultimately have "length ys = 2" by (metis mset_eq_length)
  then have "pg_more pg"
    using \<open>pg_more pg \<longleftrightarrow> _\<close> by (simp add: demo_asked_def)
  then show ?thesis using \<open>api_search _ _ _ _ _ _ = _\<close> by blast
qed

text \<open>Also (search_count): The count endpoint answers with the number of rows that match the search, the same rows that its pages are cut from.\<close>

theorem search_count:
  assumes "validate U p = Some r" and "to_query U now r = Inr q" and "sv_client sv \<or> can_connect srv"
    and "answers_count instant table sv srv (query_clauses q) (query_params q)"
  shows "api_count U srv now p sv
    = (Body (int (length (filter (matches instant q) table))), sv\<lparr>sv_client := True\<rparr>)"
proof -
  note ok = to_query_names_ok [OF assms(2)]
  have client: "get_client srv sv = (Inr (), sv\<lparr>sv_client := True\<rparr>)"
    using assms(3) by (auto simp: get_client_def)
  obtain rep where rep: "run_query srv (count_text (sv_table sv) (map render (query_clauses q))) (query_params q)
      [(''max_execution_time'', PInt (sv_max_time sv)), (''readonly'', PInt 1)] = Inr rep"
    "result_rows rep = [[PInt (int (length (filter (matches instant q) table)))]]"
    using assms(4) unfolding answers_count_def clauses_count_matches [OF ok] by (auto simp: map_sum_Inr_iff)
  then show ?thesis
    by (simp add: api_count_def assms(1,2) ch_count_def where_clauses_ok [OF ok] client)
qed

definition demo_counter :: server where
  "demo_counter = \<lparr>can_connect = True, can_close = True, run_query = (\<lambda>sql ps st.
     Inr \<lparr>column_names = [''count()''], result_rows = [[PInt 2]], summary_ms = 1, summary_rows = 2\<rparr>)\<rparr>"

theorem search_count_witness:
  "api_count ascii_only demo_counter (Naive 0) demo_request demo_service = (Body 2, demo_service\<lparr>sv_client := True\<rparr>)"
proof -
  have "matches utc demo_asked (demo_row 7000000)" "matches utc demo_asked (demo_row 5000000)" by code_simp+
  then have m: "length (filter (matches utc demo_asked) demo_rows) = 2" by (simp add: demo_rows_def)
  have "names_ok demo_asked" by code_simp
  then have "answers_count utc demo_rows demo_service demo_counter (query_clauses demo_asked) (query_params demo_asked)"
    unfolding answers_count_def clauses_count_matches [OF \<open>names_ok demo_asked\<close>] m by (simp add: demo_counter_def)
  moreover have "sv_client demo_service \<or> can_connect demo_counter" by (simp add: demo_counter_def)
  ultimately show ?thesis
    using search_count [OF demo_validate demo_to_query, of demo_service demo_counter utc demo_rows] m by simp
qed

text \<open>Also (search_status): Every search is answered: 422 exactly for an invalid request, 400 for a window out of order or too long, 500 when the two times cannot be compared or the default start is out of range, 503 when ClickHouse fails, in which case the client is dropped so that the next request connects anew (500 if even closing fails); otherwise a page with the request's limit and offset, and a client kept.\<close>

theorem search_status:
  "case api_search U fmt srv now p sv of
     (Body pg, sv') \<Rightarrow>
       (\<exists>r. validate U p = Some r \<and> pg_limit pg = req_limit r \<and> pg_offset pg = req_offset r)
       \<and> sv' = sv\<lparr>sv_client := True\<rparr>
   | (Status c, sv') \<Rightarrow>
       (case validate U p of
          None \<Rightarrow> c = 422 \<and> sv' = sv
        | Some r \<Rightarrow>
            (case to_query U now r of
               Inl ValueError \<Rightarrow> c = 400 \<and> sv' = sv
             | Inl e \<Rightarrow> c = 500 \<and> sv' = sv \<and> e \<in> {TypeError, OverflowError}
             | Inr q \<Rightarrow> c = (if can_close srv \<or> \<not> (sv_client sv \<or> can_connect srv) then 503 else 500)
                 \<and> sv' = sv\<lparr>sv_client := False\<rparr>))"
proof (cases "validate U p")
  case (Some r)
  have pair: "dt_pair a b = Inl e \<Longrightarrow> e = TypeError" for a b e
    by (cases "(a, b)" rule: dt_pair.cases) auto
  have minus: "dt_minus a d = Inl e \<Longrightarrow> e = OverflowError" for a d e
    by (cases a) (auto split: if_splits)
  show ?thesis
  proof (cases "to_query U now r")
    case (Inl e)
    then have "e \<in> {ValueError, TypeError, OverflowError}"
      by (auto simp: to_query_def dt_gt_def dt_diff_def map_sum_Inl_iff Let_def
          split: sum.splits bool.splits option.splits if_splits dest: pair minus)
    then show ?thesis using Some Inl by (auto simp: api_search_def)
  next
    case (Inr q)
    have lim: "q_limit q = req_limit r" "q_offset q = req_offset r"
      by (subst to_query_Inr(1) [OF Inr], simp)+
    obtain col where col: "order_by q = lit col" "col \<in> set SORTABLE"
      using sortable_col [OF validate_Some(8) [OF Some]] by (subst (asm) to_query_Inr(1) [OF Inr]) auto
    note sql = search_sql_ok [OF to_query_names_ok [OF Inr] col, of sv]
    show ?thesis
      using Some Inr lim
      by (auto simp: api_search_def ch_search_def sql get_client_def db_failed_def close_client_def Let_def
          split: sum.splits)
  qed
qed (simp add: api_search_def)

text \<open>Also (search_cap_hides): When max_result_rows is configured below the limit of a request, rows go missing from sight: the page shows max_result_rows + 1 rows and has_more is false although further rows match, because has_more compares with the limit asked for and not with the one applied.\<close>

theorem search_cap_hides:
  assumes "names_ok q" "order_by q = lit col" "col \<in> set SORTABLE"
    and "sv_client sv \<or> can_connect srv" and "0 \<le> q_offset q" and "0 \<le> sv_max_rows sv"
    and "sv_max_rows sv < q_limit q"
    and "answers_select instant le table sv srv (query_clauses q) col (descending q) (page_params sv q)"
    and "q_offset q + sv_max_rows sv + 1 < int (length (filter (matches instant q) table))"
  shows "\<exists>res. fst (ch_search srv q sv) = Inr res \<and> has_more res = False
    \<and> int (length (res_rows res)) = sv_max_rows sv + 1"
proof -
  have "0 \<le> q_limit q" using assms(6,7) by simp
  from search_rows [OF assms(1-5) this assms(6,8)]
  obtain res ys where res: "ch_search srv q sv = (Inr res, sv\<lparr>sv_client := True\<rparr>)"
    "mset ys = mset (filter (matches instant q) table)"
    "res_rows res = map (\<lambda>r. map (\<lambda>c. (c, r c)) SELECT_COLUMNS)
        (take (min (nat (q_limit q)) (nat (sv_max_rows sv) + 1)) (drop (nat (q_offset q)) ys))"
    "has_more res \<longleftrightarrow> q_limit q \<le> sv_max_rows sv \<and> q_offset q + q_limit q < int (length ys)" by blast
  have n: "length ys = length (filter (matches instant q) table)" using res(2) by (rule mset_eq_length)
  have m: "min (nat (q_limit q)) (nat (sv_max_rows sv) + 1) = nat (sv_max_rows sv) + 1" using assms(6,7) by simp
  have l: "int (length (res_rows res)) = sv_max_rows sv + 1"
    using assms(5,6,9) unfolding res(3) length_map length_take length_drop m n by simp
  have "has_more res = False" using assms(7) res(4) by simp
  then show ?thesis using res(1) l by simp
qed

definition demo_short :: server where
  "demo_short = \<lparr>can_connect = True, can_close = True, run_query = (\<lambda>sql ps st.
     Inr \<lparr>column_names = SELECT_COLUMNS, result_rows = [map (demo_row 7000000) SELECT_COLUMNS],
          summary_ms = 3, summary_rows = 2\<rparr>)\<rparr>"

theorem search_cap_hides_witness:
  "\<exists>res. fst (ch_search demo_short (demo_asked\<lparr>q_limit := 5\<rparr>) (demo_service\<lparr>sv_max_rows := 0\<rparr>)) = Inr res
    \<and> has_more res = False \<and> length (res_rows res) = 1"
proof -
  let ?q = "demo_asked\<lparr>q_limit := 5\<rparr>" and ?sv = "demo_service\<lparr>sv_max_rows := 0\<rparr>"
  have ok: "names_ok ?q" by code_simp
  have m: "matches utc ?q (demo_row 7000000)" "matches utc ?q (demo_row 5000000)" by code_simp+
  then have two: "length (filter (matches utc ?q) demo_rows) = 2" by (simp add: demo_rows_def)
  have s: "sorted_wrt (in_order time_le ''timestamp'' (descending ?q)) demo_rows" by code_simp
  have n: "number_of (map_of (page_params ?sv ?q) ''limit'') = 1"
    "number_of (map_of (page_params ?sv ?q) ''offset'') = 0" by code_simp+
  have "answers_select utc time_le demo_rows ?sv demo_short (query_clauses ?q) ''timestamp'' (descending ?q)
      (page_params ?sv ?q)"
    unfolding answers_select_def clauses_select_matches [OF ok] n demo_short_def server.simps
    by (intro exI [of _ demo_rows] exI conjI, rule refl) (use s m in \<open>simp_all add: demo_rows_def\<close>)
  from search_cap_hides [OF ok _ _ _ _ _ _ this] two show ?thesis
    by (simp add: demo_asked_def SORTABLE_def demo_short_def demo_service_def)
qed

text \<open>Also (search_mixed_zone): A search that gives its start with a time zone and leaves out its end gets an internal error instead of a page or a 400: the default end is a naive time, and comparing the two raises a TypeError that the handler does not catch.\<close>

theorem search_mixed_zone:
  assumes "validate U p = Some r" and "req_from p = Some (Aware a off)" and "req_to p = None"
  shows "api_search U fmt srv (Naive n) p sv = (Status 500, sv)"
proof -
  have "req_from r = Some (Aware a off)" "req_to r = None"
    using assms by (auto simp: validate_def split: if_splits sum.splits)
  then have "to_query U (Naive n) r = Inl TypeError" by (simp add: to_query_def dt_gt_def)
  then show ?thesis using assms(1) by (simp add: api_search_def)
qed

theorem search_mixed_zone_witness:
  "api_search ascii_only (\<lambda>_. []) demo_server (Naive 9) (demo_request\<lparr>req_from := Some (Aware 5 0), req_to := None\<rparr>)
     demo_service = (Status 500, demo_service)"
proof -
  have "validate ascii_only (demo_request\<lparr>req_from := Some (Aware 5 0), req_to := None\<rparr>)
    = Some (demo_valid\<lparr>req_from := Some (Aware 5 0), req_to := None\<rparr>)" by code_simp
  then show ?thesis by (rule search_mixed_zone) (simp_all add: demo_request_def)
qed

end
