(* ===== verification/System_Api.thy ===== *)
theory System_Api
  imports Log_Search Metrics Auth Receiver
begin

text \<open>
  \<open>backend/app/api/system_api.py\<close> with the parts of the ClickHouse service and of \<open>metrics.py\<close> that it alone uses: health, the
  status page, the partitions with their archive flags, and the reset of the counters. Numbers that
  Python holds as floats are rationals here.
\<close>

section \<open>ClickHouse housekeeping\<close>

text \<open>\<open>round(x, d)\<close>, halves to even.\<close>

definition py_round :: "nat \<Rightarrow> rat \<Rightarrow> rat" where
  "py_round d x =
     (let y = x * 10 ^ d; n = \<lfloor>y\<rfloor>; f = y - of_int n
      in of_int (if f < 1 / 2 \<or> (f = 1 / 2 \<and> even n) then n else n + 1) / 10 ^ d)"

definition ch_ping :: "server \<Rightarrow> ClickHouseService \<Rightarrow> bool \<times> ClickHouseService" where
  "ch_ping srv sv =
     (case get_client srv sv of
        (Inl _, sv) \<Rightarrow> (False, sv)
      | (Inr _, sv) \<Rightarrow>
          (case run_query srv (lit ''SELECT 1'') [] [] of
             Inl _ \<Rightarrow> (False, sv)
           | Inr result \<Rightarrow> (case result_rows result of (v # _) # _ \<Rightarrow> (v = PInt 1, sv) | _ \<Rightarrow> (False, sv))))"

definition STORAGE_SQL :: pystr where
  "STORAGE_SQL = py_join [10] (map lit
     ['''',
      ''            SELECT'',
      ''                sum(rows)                                    AS rows,'',
      ''                sum(data_compressed_bytes)                   AS compressed,'',
      ''                sum(data_uncompressed_bytes)                 AS uncompressed,'',
      ''                count()                                      AS parts,'',
      ''                min(min_time)                                AS oldest,'',
      ''                max(max_time)                                AS newest'',
      ''            FROM system.parts'',
      ''            WHERE database = {db:String} AND table = {tbl:String} AND active'',
      ''        ''])"

definition PARTITIONS_SQL :: pystr where
  "PARTITIONS_SQL = py_join [10] (map lit
     ['''',
      ''            SELECT partition,'',
      ''                   sum(rows)                  AS rows,'',
      ''                   sum(data_compressed_bytes) AS compressed,'',
      ''                   min(min_time)              AS oldest,'',
      ''                   max(max_time)              AS newest'',
      ''            FROM system.parts'',
      ''            WHERE database = {db:String} AND table = {tbl:String} AND active'',
      ''            GROUP BY partition ORDER BY partition DESC'',
      ''        ''])"

definition table_params :: "pystr \<Rightarrow> pystr \<Rightarrow> params" where
  "table_params db tbl = [(''db'', PStr db), (''tbl'', PStr tbl)]"

record storage =
  st_rows :: int
  st_compressed :: int
  st_uncompressed :: int
  st_ratio :: rat
  st_row_bytes :: rat
  st_parts :: int
  st_oldest :: pval
  st_newest :: pval

text \<open>\<open>x or 0\<close> of a column that is a number or null.\<close>

definition num_or_0 :: "pval \<Rightarrow> int result" where
  "num_or_0 v = (case v of PInt n \<Rightarrow> Inr n | PNone \<Rightarrow> Inr 0 | _ \<Rightarrow> Inl TypeError)"

definition storage_of :: "pval list \<Rightarrow> storage result" where
  "storage_of row =
     (case row of
        [rows, compressed, uncompressed, parts, oldest, newest] \<Rightarrow>
          and_then (num_or_0 compressed) (\<lambda>c.
          and_then (if c = 0 then Inr 0
                    else case uncompressed of PInt u \<Rightarrow> Inr (py_round 2 (of_int u / of_int c)) | _ \<Rightarrow> Inl TypeError) (\<lambda>ratio.
          and_then (num_or_0 rows) (\<lambda>n.
          and_then (num_or_0 uncompressed) (\<lambda>u.
          and_then (num_or_0 parts) (\<lambda>p.
            Inr \<lparr>st_rows = n, st_compressed = c, st_uncompressed = u, st_ratio = ratio,
                 st_row_bytes = (if n \<noteq> 0 then py_round 2 (of_int c / of_int n) else 0),
                 st_parts = p, st_oldest = oldest, st_newest = newest\<rparr>)))))
      | _ \<Rightarrow> Inl ValueError)"

definition storage_stats :: "server \<Rightarrow> pystr \<Rightarrow> pystr \<Rightarrow> (ClickHouseService, storage) eff" where
  "storage_stats srv db tbl sv =
     (case get_client srv sv of
        (Inl e, sv) \<Rightarrow> (Inl e, sv)
      | (Inr _, sv) \<Rightarrow>
          (and_then (run_query srv STORAGE_SQL (table_params db tbl) []) (\<lambda>result.
             case result_rows result of [] \<Rightarrow> Inl IndexError | row # _ \<Rightarrow> storage_of row), sv))"

definition ch_partitions :: "server \<Rightarrow> pystr \<Rightarrow> pystr \<Rightarrow> (ClickHouseService, params list) eff" where
  "ch_partitions srv db tbl sv =
     (case get_client srv sv of
        (Inl e, sv) \<Rightarrow> (Inl e, sv)
      | (Inr _, sv) \<Rightarrow>
          (and_then (run_query srv PARTITIONS_SQL (table_params db tbl) []) (\<lambda>result.
             Inr (map (row_dict (column_names result)) (result_rows result))), sv))"

section \<open>Gauges and rates\<close>

text \<open>\<open>read_gauges\<close>: what \<open>HGETALL\<close> answers, each value as \<open>float\<close> reads it; \<open>None\<close> does not parse.\<close>

fun gauge_loop :: "(string \<times> rat option) list \<Rightarrow> (string, rat) pydict \<Rightarrow> (string, rat) pydict" where
  "gauge_loop [] out = out"
| "gauge_loop ((name, Some v) # raw) out = gauge_loop raw (dict_set out name v)"
| "gauge_loop ((name, None) # raw) out = gauge_loop raw out"

definition read_gauges :: "(string \<times> rat option) list result \<Rightarrow> (string, rat) pydict" where
  "read_gauges reply = (case reply of Inl _ \<Rightarrow> [] | Inr raw \<Rightarrow> gauge_loop raw [])"

text \<open>\<open>int(x)\<close> of a float.\<close>

definition py_trunc :: "rat \<Rightarrow> int" where "py_trunc x = (if x < 0 then \<lceil>x\<rceil> else \<lfloor>x\<rfloor>)"

text \<open>\<open>RateTracker\<close>: the last sample of each counter, with the monotonic time it was taken at.\<close>

type_synonym rates = "(string, rat \<times> int) pydict"

definition rate :: "string \<Rightarrow> int \<Rightarrow> rat \<Rightarrow> rates \<Rightarrow> rat \<times> rates" where
  "rate name v now seen =
     (let prev = map_of seen name; seen = dict_set seen name (now, v)
      in case prev of
           None \<Rightarrow> (0, seen)
         | Some (prev_t, prev_v) \<Rightarrow>
             (let dt = now - prev_t
              in if dt \<le> 0 \<or> v < prev_v then (0, seen)
                 else (py_round 1 (of_int (v - prev_v) / dt), seen)))"

section \<open>The endpoints\<close>

definition health :: "net \<Rightarrow> server \<Rightarrow> ClickHouseService \<Rightarrow> (bool \<times> bool) response \<times> ClickHouseService" where
  "health net srv sv =
     (let redis_ok = (net = Reply); (ch_ok, sv) = ch_ping srv sv
      in (if redis_ok \<and> ch_ok then Body (redis_ok, ch_ok) else Status 503, sv))"

text \<open>
  The status page: \<open>nets\<close> are the outcomes of its Redis calls, in order: counters, queue length, memory, allow-list size, and
  one for each list of in-flight rows; \<open>t1\<close> and \<open>t2\<close> are the times of the two rate samples.
\<close>

record status_nets =
  n_counters :: net
  n_length :: net
  n_info :: net
  n_card :: net
  n_inflight :: "net list"

text \<open>What the operating system reports.\<close>

record host_stats =
  hs_cpu :: rat
  hs_memory :: rat
  hs_total :: int
  hs_used :: int
  hs_free :: int
  hs_load :: "rat \<times> rat \<times> rat"

record status_page =
  sg_generated :: int
  sg_counters :: "(string, int) pydict"
  sg_dropped :: int
  sg_received_rate :: rat
  sg_stored_rate :: rat
  sg_parse_pct :: rat
  sg_length :: int
  sg_inflight :: int
  sg_redis_ok :: bool
  sg_storage :: "storage option"
  sg_authorised :: nat
  sg_configured :: nat
  sg_insert_ms :: rat
  sg_insert_at :: int
  sg_host :: host_stats
  sg_disk_percent :: rat

text \<open>The sum over the in-flight lists up to the first call that fails.\<close>

fun inflight_sum :: "'r redis \<Rightarrow> 'r \<Rightarrow> rkey list \<Rightarrow> net list \<Rightarrow> int \<Rightarrow> int" where
  "inflight_sum R s (k # ks) (Reply # ns) acc = inflight_sum R s ks ns (acc + r_llen R k s)"
| "inflight_sum R s _ _ acc = acc"

definition system_status ::
    "'r redis \<Rightarrow> server \<Rightarrow> rkey \<Rightarrow> rkey \<Rightarrow> pystr \<Rightarrow> pystr \<Rightarrow> status_nets
      \<Rightarrow> (string \<times> rat option) list result \<Rightarrow> host_stats \<Rightarrow> int \<Rightarrow> rat \<Rightarrow> rat \<Rightarrow> meta \<Rightarrow> 'r
      \<Rightarrow> ClickHouseService \<times> rates \<Rightarrow> status_page response \<times> ClickHouseService \<times> rates" where
  "system_status R srv qkey pre db tbl nets greply host now t1 t2 m s x =
     (let (sv, seen) = x;
          gauges = read_gauges greply;
          counters = read_all R (n_counters nets) s;
          get = (\<lambda>name. dict_get counters name 0);
          length_ok = (n_length nets = Reply);
          redis_ok = (length_ok \<and> n_info nets = Reply);
          len = (if length_ok then r_llen R qkey s else -1);
          inflight = inflight_sum R s (r_scan R pre s) (n_inflight nets) 0;
          (stats, sv) = storage_stats srv db tbl sv;
          (closed, sv) = (case stats of Inl _ \<Rightarrow> close_client srv sv | Inr _ \<Rightarrow> (Inr (), sv))
      in if closed \<noteq> Inr () then (Status 500, sv, seen)
         else
             (let (l1, l5, l15) = hs_load host;
                  received = get RECEIVED; parsed = get PARSED;
                  dropped = get DROPPED_UNKNOWN_ROUTER + get DROPPED_BACKPRESSURE + get DROPPED_REDIS_ERROR;
                  authorised = (if n_card nets = Reply then card (r_smembers R ROUTER_SET_KEY s)
                                else length (enabled_router_ips m));
                  (r1, seen) = rate ''received'' received t1 seen;
                  (r2, seen) = rate ''stored'' (get STORED) t2 seen
              in if hs_total host = 0 then (Status 500, sv, seen)
                 else
                 (Body \<lparr>sg_generated = now, sg_counters = counters,
                        sg_dropped = dropped, sg_received_rate = r1, sg_stored_rate = r2,
                        sg_parse_pct = (if received \<noteq> 0 then py_round 2 (of_int parsed / of_int received * 100) else 0),
                        sg_length = len, sg_inflight = inflight, sg_redis_ok = redis_ok,
                        sg_storage = (case stats of Inl _ \<Rightarrow> None | Inr st \<Rightarrow> Some st),
                        sg_authorised = authorised, sg_configured = length (list_routers m),
                        sg_insert_ms = dict_get gauges ''last_insert_ms'' 0,
                        sg_insert_at = py_trunc (dict_get gauges ''last_insert_at'' 0),
                        sg_host = host\<lparr>hs_load := (py_round 2 l1, py_round 2 l5, py_round 2 l15)\<rparr>,
                        sg_disk_percent = py_round 1 (of_int (hs_used host) / of_int (hs_total host) * 100)\<rparr>, sv, seen)))"

text \<open>A partition row with its flag; \<open>show\<close> is \<open>str\<close> of a time of the driver.\<close>

definition time_text :: "(pval \<Rightarrow> pystr) \<Rightarrow> string \<Rightarrow> params \<Rightarrow> params" where
  "time_text show key row =
     (case map_of row key of
        None \<Rightarrow> row
      | Some v \<Rightarrow> if v = PNone then row else dict_set row key (PStr (show v)))"

definition flag_row :: "(pval \<Rightarrow> pystr) \<Rightarrow> meta \<Rightarrow> params \<Rightarrow> (params \<times> bool) result" where
  "flag_row show m row =
     (case map_of row ''partition'' of
        None \<Rightarrow> Inl KeyError
      | Some v \<Rightarrow>
          Inr (time_text show ''newest'' (time_text show ''oldest'' row),
               v \<in> set (map (PStr \<circ> lit) (archived_partitions m))))"

fun flag_rows :: "(pval \<Rightarrow> pystr) \<Rightarrow> meta \<Rightarrow> params list \<Rightarrow> (params \<times> bool) list result" where
  "flag_rows show m [] = Inr []"
| "flag_rows show m (row # rows) =
     and_then (flag_row show m row) (\<lambda>r. and_then (flag_rows show m rows) (\<lambda>rs. Inr (r # rs)))"

definition partitions ::
    "(pval \<Rightarrow> pystr) \<Rightarrow> server \<Rightarrow> pystr \<Rightarrow> pystr \<Rightarrow> meta \<Rightarrow> ClickHouseService
      \<Rightarrow> (params \<times> bool) list response \<times> ClickHouseService" where
  "partitions show srv db tbl m sv =
     (case ch_partitions srv db tbl sv of
        (Inl _, sv) \<Rightarrow> db_failed srv sv
      | (Inr rows, sv) \<Rightarrow>
          (case flag_rows show m rows of Inl _ \<Rightarrow> (Status 500, sv) | Inr out \<Rightarrow> (Body out, sv)))"

definition archives :: "meta \<Rightarrow> archive_run list" where
  "archives m = archive_history 50 m"

definition reset_metrics :: "'r redis \<Rightarrow> net \<Rightarrow> 'r \<Rightarrow> nat \<times> 'r" where
  "reset_metrics R net s =
     (case remote RedisError net (\<lambda>s. (Inr (), r_del R METRICS_KEY s)) s of
        (Inl _, s) \<Rightarrow> (503, s)
      | (Inr _, s) \<Rightarrow> (200, s))"

section \<open>Lemmas\<close>

lemma py_round_error: "\<bar>py_round d x - x\<bar> \<le> 1 / (2 * 10 ^ d)"
proof -
  define y where "y = x * 10 ^ d"
  define n where "n = \<lfloor>y\<rfloor>"
  define f where "f = y - of_int n"
  let ?k = "if f < 1 / 2 \<or> (f = 1 / 2 \<and> even n) then n else n + 1"
  have "0 \<le> f" "f < 1" unfolding f_def n_def by linarith+
  then have "\<bar>of_int ?k - y\<bar> \<le> 1 / 2" by (auto simp: f_def)
  moreover have "py_round d x = of_int ?k / 10 ^ d" by (simp add: py_round_def Let_def y_def n_def f_def)
  moreover have "x = y / 10 ^ d" by (simp add: y_def)
  ultimately have "py_round d x - x = (of_int ?k - y) / 10 ^ d" by (simp add: diff_divide_distrib)
  moreover have "(0::rat) < 10 ^ d" by simp
  ultimately show ?thesis using \<open>\<bar>of_int ?k - y\<bar> \<le> 1 / 2\<close>
    by (simp add: abs_divide divide_le_eq)
qed

lemma inflight_all:
  assumes "redis_lists R V"
  shows "inflight_sum R s ks (replicate (length ks) Reply) acc = acc + (\<Sum>k\<leftarrow>ks. int (length (V s k)))"
  by (induction ks arbitrary: acc) (simp_all add: redis_lists.llen_law [OF assms])

lemma status_fields:
  assumes "system_status R srv qkey pre db tbl nets greply host now t1 t2 m s (sv, seen) = (Body pg, sv', seen')"
  shows "sg_counters pg = read_all R (n_counters nets) s"
    "sg_length pg = (if n_length nets = Reply then r_llen R qkey s else -1)"
    "sg_inflight pg = inflight_sum R s (r_scan R pre s) (n_inflight nets) 0"
    "sg_redis_ok pg \<longleftrightarrow> n_length nets = Reply \<and> n_info nets = Reply"
    "sg_authorised pg = (if n_card nets = Reply then card (r_smembers R ROUTER_SET_KEY s) else length (enabled_router_ips m))"
    "sg_storage pg = None \<longleftrightarrow> (\<exists>e. fst (storage_stats srv db tbl sv) = Inl e)"
proof -
  obtain stats sv1 where st: "storage_stats srv db tbl sv = (stats, sv1)" by fastforce
  obtain closed sv2 where cl: "(case stats of Inl _ \<Rightarrow> close_client srv sv1 | Inr _ \<Rightarrow> (Inr (), sv1)) = (closed, sv2)" by fastforce
  obtain l1 l5 l15 where l: "hs_load host = (l1, l5, l15)" by (metis prod_cases3)
  let ?get = "\<lambda>name. dict_get (read_all R (n_counters nets) s) name 0"
  obtain r1 seen1 where 1: "rate ''received'' (?get RECEIVED) t1 seen = (r1, seen1)" by fastforce
  obtain r2 seen2 where 2: "rate ''stored'' (?get STORED) t2 seen1 = (r2, seen2)" by fastforce
  note eq = assms [unfolded system_status_def Let_def prod.case st cl l 1 2]
  show "sg_counters pg = read_all R (n_counters nets) s"
    "sg_length pg = (if n_length nets = Reply then r_llen R qkey s else -1)"
    "sg_inflight pg = inflight_sum R s (r_scan R pre s) (n_inflight nets) 0"
    "sg_redis_ok pg \<longleftrightarrow> n_length nets = Reply \<and> n_info nets = Reply"
    "sg_authorised pg = (if n_card nets = Reply then card (r_smembers R ROUTER_SET_KEY s) else length (enabled_router_ips m))"
    using eq by (auto split: if_splits)
  have "sg_storage pg = (case stats of Inl _ \<Rightarrow> None | Inr x \<Rightarrow> Some x)" using eq by (auto split: if_splits)
  then show "sg_storage pg = None \<longleftrightarrow> (\<exists>e. fst (storage_stats srv db tbl sv) = Inl e)" by (cases stats) (simp_all add: st)
qed

section \<open>Properties\<close>

text \<open>Also (status_shows): When every call is answered, the status page shows each counter as Redis holds it, the length of the queue, the sum of the in-flight lists and the size of the allow list; when Redis refuses all of them it still answers, with zeros, a length of -1 and the routers enabled in the store; and it shows no storage figures exactly when ClickHouse did not give them.\<close>

theorem status_shows:
  assumes "redis_hashes R H" "redis_lists R V" "redis_sets R S"
    and "system_status R srv qkey pre db tbl nets greply host now t1 t2 m s (sv, seen) = (Body pg, sv', seen')"
  shows "(nets = \<lparr>n_counters = Reply, n_length = Reply, n_info = Reply, n_card = Reply,
               n_inflight = replicate (length (r_scan R pre s)) Reply\<rparr>
      \<longrightarrow> dict_get (sg_counters pg) name 0 = H s METRICS_KEY name
        \<and> sg_length pg = int (length (V s qkey))
        \<and> sg_inflight pg = (\<Sum>k\<leftarrow>r_scan R pre s. int (length (V s k)))
        \<and> sg_authorised pg = card (S s ROUTER_SET_KEY) \<and> sg_redis_ok pg)
    \<and> (nets = \<lparr>n_counters = Refused, n_length = Refused, n_info = Refused, n_card = Refused, n_inflight = []\<rparr>
      \<longrightarrow> sg_counters pg = zeros \<and> sg_length pg = -1 \<and> sg_inflight pg = 0
        \<and> sg_authorised pg = length (enabled_router_ips m) \<and> \<not> sg_redis_ok pg)
    \<and> (sg_storage pg = None \<longleftrightarrow> (\<exists>e. fst (storage_stats srv db tbl sv) = Inl e))"
proof -
  have inflight: "inflight_sum R s ks [] acc = acc" for ks acc by (cases ks) simp_all
  note f = status_fields [OF assms(4)]
  show ?thesis
    using redis_hashes.read_all_reply [OF assms(1), of s name] redis_lists.llen_law [OF assms(2)]
      redis_sets.smembers_law [OF assms(3)]
    by (simp add: f inflight_all [OF assms(2)] inflight) (simp add: read_all_def)
qed

definition dead_server :: server where
  "dead_server = \<lparr>can_connect = False, can_close = True, run_query = (\<lambda>_ _ _. Inl DbError)\<rparr>"

definition idle_service :: ClickHouseService where
  "idle_service = \<lparr>sv_table = [], sv_max_rows = 100, sv_max_time = 1, sv_client = False\<rparr>"

definition quiet_host :: host_stats where
  "quiet_host = \<lparr>hs_cpu = 0, hs_memory = 0, hs_total = 1, hs_used = 0, hs_free = 1, hs_load = (0, 0, 0)\<rparr>"

theorem status_shows_witness:
  "\<exists>pg x. system_status ref_redis dead_server ''nls:queue'' ''nls:inflight:'' [] []
       \<lparr>n_counters = Refused, n_length = Refused, n_info = Refused, n_card = Refused, n_inflight = []\<rparr> (Inl RedisError) quiet_host 0 0 0
       empty_meta empty_store (idle_service, []) = (Body pg, x)
     \<and> sg_length pg = -1 \<and> sg_storage pg = None"
proof -
  let ?nets = "\<lparr>n_counters = Refused, n_length = Refused, n_info = Refused, n_card = Refused, n_inflight = []\<rparr>"
  have "\<exists>pg sv' seen'. system_status ref_redis dead_server ''nls:queue'' ''nls:inflight:'' [] [] ?nets (Inl RedisError) quiet_host 0 0 0
       empty_meta empty_store (idle_service, []) = (Body pg, sv', seen')"
    by (simp add: system_status_def storage_stats_def get_client_def close_client_def dead_server_def
        idle_service_def Let_def rate_def dict_set_def quiet_host_def split: prod.splits)
  then obtain pg sv' seen' where r: "system_status ref_redis dead_server ''nls:queue'' ''nls:inflight:'' [] [] ?nets (Inl RedisError) quiet_host 0 0 0
       empty_meta empty_store (idle_service, []) = (Body pg, sv', seen')" by blast
  have "\<exists>e. fst (storage_stats dead_server [] [] idle_service) = Inl e"
    by (simp add: storage_stats_def get_client_def dead_server_def idle_service_def)
  then show ?thesis
    using status_shows [OF ref_hashes_ok ref_scan.redis_lists_axioms ref_sets.redis_sets_axioms r] r by auto
qed

text \<open>Also (rate_exact): The rate shown between two polls of a counter is 0 when the clock did not advance or the counter was reset in between, and otherwise within a twentieth of the true mean rate and never negative; polls of other counters in between do not disturb it.\<close>

theorem rate_exact:
  assumes "rate name v1 t1 seen = (r1, seen1)" and "other \<noteq> name"
    and "rate other v t seen1 = (r, seen2)" and "rate name v2 t2 seen2 = (r2, seen3)"
  shows "(t2 \<le> t1 \<or> v2 < v1 \<longrightarrow> r2 = 0)
    \<and> (t1 < t2 \<and> v1 \<le> v2 \<longrightarrow> \<bar>r2 - of_int (v2 - v1) / (t2 - t1)\<bar> \<le> 1 / 20 \<and> 0 \<le> r2)"
proof -
  have s1: "seen1 = dict_set seen name (t1, v1)"
    using assms(1) by (auto simp: rate_def Let_def split: option.splits prod.splits if_splits)
  have s2: "seen2 = dict_set seen1 other (t, v)"
    using assms(3) by (auto simp: rate_def Let_def split: option.splits prod.splits if_splits)
  have "map_of seen2 name = Some (t1, v1)" using assms(2) by (simp add: s1 s2)
  then have r2: "r2 = (if t2 - t1 \<le> 0 \<or> v2 < v1 then 0 else py_round 1 (of_int (v2 - v1) / (t2 - t1)))"
    using assms(4) by (auto simp: rate_def Let_def split: if_splits)
  have pos: "0 \<le> py_round 1 x" if "0 \<le> x" for x :: rat
    using that by (auto simp: py_round_def Let_def)
  show ?thesis
    using py_round_error [of 1 "of_int (v2 - v1) / (t2 - t1)"] pos [of "of_int (v2 - v1) / (t2 - t1)"]
    by (auto simp: r2)
qed

theorem rate_exact_witness:
  "\<bar>fst (rate ''received'' 110 3 (snd (rate ''stored'' 5 1 (snd (rate ''received'' 100 0 []))))) - 10 / 3\<bar> \<le> 1 / 20"
proof -
  obtain r1 seen1 where 1: "rate ''received'' 100 0 [] = (r1, seen1)" by fastforce
  obtain r seen2 where 2: "rate ''stored'' 5 1 seen1 = (r, seen2)" by fastforce
  obtain r2 seen3 where 3: "rate ''received'' 110 3 seen2 = (r2, seen3)" by fastforce
  show ?thesis using rate_exact [OF 1 _ 2 3] 1 2 3 by simp
qed

text \<open>Also (partition_flags): Every row of the partitions page is flagged as archived exactly when some archive run of that partition ended in success; the page has one row for each row of the database, and a failed query is answered with 503 after the connection is closed.\<close>

theorem partition_flags:
  assumes "ch_partitions srv db tbl sv = (res, sv1)" and "partitions show srv db tbl m sv = (out, sv')"
  shows "(\<forall>rows. res = Inr rows \<longrightarrow>
      (\<forall>row \<in> set rows. \<exists>p. map_of row ''partition'' = Some (PStr (lit p))) \<longrightarrow>
        (\<exists>page. out = Body page \<and> length page = length rows
          \<and> (\<forall>i < length rows. \<forall>p. map_of (rows ! i) ''partition'' = Some (PStr (lit p)) \<longrightarrow>
                (snd (page ! i) \<longleftrightarrow> (\<exists>r \<in> set (runs m). run_partition r = p \<and> run_status r = ''success'')))))
    \<and> (\<forall>e. res = Inl e \<longrightarrow> can_close srv \<longrightarrow> out = Status 503 \<and> \<not> sv_client sv')"
proof -
  have lit_inj: "lit a = lit b \<longleftrightarrow> a = b" for a b by (simp add: lit_def inj_map_eq_map inj_of_char)
  have flags: "\<exists>page. flag_rows show m rows = Inr page \<and> length page = length rows
      \<and> (\<forall>i < length rows. \<forall>p. map_of (rows ! i) ''partition'' = Some (PStr (lit p)) \<longrightarrow>
          (snd (page ! i) \<longleftrightarrow> p \<in> set (archived_partitions m)))"
    if "\<forall>row \<in> set rows. \<exists>p. map_of row ''partition'' = Some (PStr (lit p))" for rows
    using that
  proof (induction rows)
    case (Cons row rows)
    then obtain p page where "map_of row ''partition'' = Some (PStr (lit p))"
      "flag_rows show m rows = Inr page" "length page = length rows"
      "\<forall>i < length rows. \<forall>p. map_of (rows ! i) ''partition'' = Some (PStr (lit p)) \<longrightarrow>
          (snd (page ! i) \<longleftrightarrow> p \<in> set (archived_partitions m))" by auto
    then show ?case by (auto simp: flag_row_def lit_inj image_iff nth_Cons split: nat.splits)
  qed simp
  have arch: "p \<in> set (archived_partitions m) \<longleftrightarrow> (\<exists>r \<in> set (runs m). run_partition r = p \<and> run_status r = ''success'')" for p
    by (auto simp: archived_partitions_def)
  show ?thesis
  proof (intro conjI allI impI)
    fix rows assume res: "res = Inr rows" and *: "\<forall>row \<in> set rows. \<exists>p. map_of row ''partition'' = Some (PStr (lit p))"
    obtain page where "flag_rows show m rows = Inr page" "length page = length rows"
      "\<forall>i < length rows. \<forall>p. map_of (rows ! i) ''partition'' = Some (PStr (lit p)) \<longrightarrow>
          (snd (page ! i) \<longleftrightarrow> p \<in> set (archived_partitions m))" using flags [OF *] by blast
    then show "\<exists>page. out = Body page \<and> length page = length rows
          \<and> (\<forall>i < length rows. \<forall>p. map_of (rows ! i) ''partition'' = Some (PStr (lit p)) \<longrightarrow>
                (snd (page ! i) \<longleftrightarrow> (\<exists>r \<in> set (runs m). run_partition r = p \<and> run_status r = ''success'')))"
      using assms(2) by (auto simp: partitions_def assms(1) res arch)
  next
    fix e assume "res = Inl e" "can_close srv"
    then show "out = Status 503" "\<not> sv_client sv'"
      using assms(2) by (auto simp: partitions_def assms(1) db_failed_def close_client_def split: if_splits)
  qed
qed

theorem partition_flags_witness:
  "\<exists>sv'. partitions (\<lambda>_. []) dead_server [] [] empty_meta idle_service = (Status 503, sv')"
proof -
  obtain sv1 where r: "ch_partitions dead_server [] [] idle_service = (Inl DbError, sv1)"
    by (simp add: ch_partitions_def get_client_def dead_server_def idle_service_def)
  obtain out sv' where p: "partitions (\<lambda>_. []) dead_server [] [] empty_meta idle_service = (out, sv')" by fastforce
  show ?thesis using partition_flags [OF r p] p by (simp add: dead_server_def)
qed

text \<open>Counters of a server that also knows \<open>DEL\<close>.\<close>

locale redis_counters = redis_hashes +
  assumes hdel_law: "H (r_del R k s) = (H s)(k := (\<lambda>_. 0))"

interpretation ref_counters: redis_counters ref_redis ref_hash
  by unfold_locales (auto simp: ref_redis_def ref_hash_def fun_eq_iff put_list_def)

text \<open>Also (reset_restarts): After a reset that is answered with success every counter reads 0, and from then on a process that counts and flushes without failures shows exactly what it counts after the reset plus what it had not yet flushed; a reset that Redis refuses changes nothing and says so.\<close>

theorem reset_restarts:
  assumes "redis_counters R H" and "metrics_ok mt" and "has_redis mt"
    and "\<forall>ev \<in> set evs. counts_up ev \<and> uncancelled ev \<and> all_or_nothing ev"
    and "reset_metrics R net s = (c, s1)" and "fold (metric_step R) evs (mt, s1) = (mt', s2)"
  shows "(c = 200 \<longrightarrow> dict_get (read_all R Reply s1) name 0 = 0
      \<and> dict_get (read_all R Reply s2) name 0 + local_count mt' name
        = local_count mt name + summed (concat (map counted evs)) name)
    \<and> (net = Refused \<longrightarrow> c = 503 \<and> s1 = s)"
proof -
  have R: "redis_hashes R H" using assms(1) by (rule redis_counters.axioms(1))
  have del: "H (r_del R METRICS_KEY s) METRICS_KEY = (\<lambda>_. 0)"
    by (simp add: redis_counters.hdel_law [OF assms(1)])
  have run: "H s1 METRICS_KEY name + local_count mt name + summed (concat (map counted evs)) name
      = H s2 METRICS_KEY name + local_count mt' name"
    using redis_hashes.metric_run_balance [OF R assms(2,3) _ assms(6)] assms(4) by blast
  have "c = 200 \<Longrightarrow> s1 = r_del R METRICS_KEY s" and "net = Refused \<Longrightarrow> c = 503 \<and> s1 = s"
    using assms(5) by (cases net; auto simp: reset_metrics_def)+
  then show ?thesis using run del redis_hashes.read_all_reply [OF R] by auto
qed

theorem reset_restarts_witness:
  "dict_get (read_all ref_redis Reply (snd (fold (metric_step ref_redis) [Count PARSED 2, Flush Flushed []]
      (fresh_metrics, snd (reset_metrics ref_redis Reply empty_store))))) PARSED 0
   + local_count (fst (fold (metric_step ref_redis) [Count PARSED 2, Flush Flushed []]
      (fresh_metrics, snd (reset_metrics ref_redis Reply empty_store)))) PARSED = 2"
proof -
  obtain s1 where r: "reset_metrics ref_redis Reply empty_store = (200, s1)" by (simp add: reset_metrics_def)
  obtain mt' s2 where f: "fold (metric_step ref_redis) [Count PARSED 2, Flush Flushed []] (fresh_metrics, s1) = (mt', s2)"
    by (metis prod.collapse)
  have l: "local_count fresh_metrics PARSED = 0" by (simp add: local_count_def fresh_metrics_def)
  show ?thesis
    using reset_restarts [OF ref_counters.redis_counters_axioms _ _ _ r f, of PARSED] l r f
    by (simp add: counts_up_def)
qed

end
