(* ===== verification/Config.thy ===== *)
theory Config
  imports Py_Str
begin

text \<open>
  \<open>backend/app/config.py\<close>: the settings records with their bounds and defaults, the \<open>.env\<close> reader and \<open>get_config\<close> with
  its cache. What PyYAML makes of a text, and what pydantic accepts as an \<open>int\<close>, \<open>bool\<close> or \<open>str\<close>, are parameters.
\<close>

section \<open>Parsed YAML\<close>

datatype yval =
    YNull
  | YBool bool
  | YInt int
  | YFloat pystr
  | YStr pystr
  | YList "yval list"
  | YMap "(yval \<times> yval) list"

type_synonym ydict = "(yval, yval) pydict"

definition ykey :: "string \<Rightarrow> yval" where "ykey name = YStr (lit name)"

text \<open>\<open>x or {}\<close>.\<close>

definition falsy :: "yval \<Rightarrow> bool" where
  "falsy v = (case v of YNull \<Rightarrow> True | YBool b \<Rightarrow> \<not> b | YInt n \<Rightarrow> n = 0 | YFloat t \<Rightarrow> t \<in> {lit ''0.0'', lit ''-0.0''}
                | YStr s \<Rightarrow> s = [] | YList l \<Rightarrow> l = [] | YMap d \<Rightarrow> d = [])"

section \<open>Validation\<close>

text \<open>What pydantic makes of a value for a field of each type; \<open>None\<close> is a validation error.\<close>

record pyd =
  as_int :: "yval \<Rightarrow> int option"
  as_bool :: "yval \<Rightarrow> bool option"
  as_str :: "yval \<Rightarrow> pystr option"

locale pydantic =
  fixes P :: pyd
  assumes int_law: "as_int P (YInt n) = Some n"
    and bool_law: "as_bool P (YBool b) = Some b"
    and str_law: "as_str P (YStr s) = Some s"

text \<open>A field: absent, its default, which is not validated; present, converted and checked.\<close>

definition field :: "(yval \<Rightarrow> 'a option) \<Rightarrow> ('a \<Rightarrow> bool) \<Rightarrow> 'a \<Rightarrow> string \<Rightarrow> ydict \<Rightarrow> 'a result" where
  "field conv ok d name section =
     (case map_of section (ykey name) of
        None \<Rightarrow> Inr d
      | Some v \<Rightarrow> (case conv v of None \<Rightarrow> Inl ValueError | Some x \<Rightarrow> if ok x then Inr x else Inl ValueError))"

definition int_field :: "pyd \<Rightarrow> int \<Rightarrow> int \<Rightarrow> int \<Rightarrow> string \<Rightarrow> ydict \<Rightarrow> int result" where
  "int_field P d lo hi = field (as_int P) (\<lambda>n. lo \<le> n \<and> n \<le> hi) d"

text \<open>A field that has a lower bound only.\<close>

definition int_from :: "pyd \<Rightarrow> int \<Rightarrow> int \<Rightarrow> string \<Rightarrow> ydict \<Rightarrow> int result" where
  "int_from P d lo = field (as_int P) (\<lambda>n. lo \<le> n) d"

definition bool_field :: "pyd \<Rightarrow> bool \<Rightarrow> string \<Rightarrow> ydict \<Rightarrow> bool result" where
  "bool_field P d = field (as_bool P) (\<lambda>_. True) d"

definition str_field :: "pyd \<Rightarrow> string \<Rightarrow> string \<Rightarrow> ydict \<Rightarrow> pystr result" where
  "str_field P d = field (as_str P) (\<lambda>_. True) (lit d)"

text \<open>\<open>Optional[str]\<close> takes null as well.\<close>

definition optional_str :: "pyd \<Rightarrow> string \<Rightarrow> ydict \<Rightarrow> pystr option result" where
  "optional_str P = field (\<lambda>v. if v = YNull then Some None else map_option Some (as_str P v)) (\<lambda>_. True) None"

record ReceiverConfig =
  rc_udp_enabled :: bool
  rc_tcp_enabled :: bool
  rc_bind_address :: pystr
  rc_udp_port :: int
  rc_tcp_port :: int
  rc_workers :: int
  rc_so_rcvbuf :: int
  rc_max_datagram :: int
  rc_push_batch :: int
  rc_push_interval_ms :: int
  rc_router_refresh_seconds :: int

definition receiver_config :: "pyd \<Rightarrow> ydict \<Rightarrow> ReceiverConfig result" where
  "receiver_config P s =
     and_then (bool_field P True ''udp_enabled'' s) (\<lambda>udp_enabled.
     and_then (bool_field P True ''tcp_enabled'' s) (\<lambda>tcp_enabled.
     and_then (str_field P ''0.0.0.0'' ''bind_address'' s) (\<lambda>bind_address.
     and_then (int_field P 514 1 65535 ''udp_port'' s) (\<lambda>udp_port.
     and_then (int_field P 514 1 65535 ''tcp_port'' s) (\<lambda>tcp_port.
     and_then (int_field P 0 0 64 ''workers'' s) (\<lambda>workers.
     and_then (int_from P (16 * 1024 * 1024) 65536 ''so_rcvbuf'' s) (\<lambda>so_rcvbuf.
     and_then (int_field P 4096 512 65535 ''max_datagram'' s) (\<lambda>max_datagram.
     and_then (int_field P 500 1 50000 ''push_batch'' s) (\<lambda>push_batch.
     and_then (int_field P 200 10 5000 ''push_interval_ms'' s) (\<lambda>push_interval_ms.
     and_then (int_field P 15 1 3600 ''router_refresh_seconds'' s) (\<lambda>router_refresh_seconds.
       Inr \<lparr>rc_udp_enabled = udp_enabled, rc_tcp_enabled = tcp_enabled, rc_bind_address = bind_address,
            rc_udp_port = udp_port, rc_tcp_port = tcp_port, rc_workers = workers, rc_so_rcvbuf = so_rcvbuf,
            rc_max_datagram = max_datagram, rc_push_batch = push_batch,
            rc_push_interval_ms = push_interval_ms,
            rc_router_refresh_seconds = router_refresh_seconds\<rparr>)))))))))))"

record ParserConfig =
  pc_require_nat :: bool
  pc_subscriber_from_interface :: bool

definition parser_config :: "pyd \<Rightarrow> ydict \<Rightarrow> ParserConfig result" where
  "parser_config P s =
     and_then (bool_field P True ''require_nat'' s) (\<lambda>require_nat.
     and_then (bool_field P False ''subscriber_from_interface'' s) (\<lambda>subscriber_from_interface.
       Inr \<lparr>pc_require_nat = require_nat, pc_subscriber_from_interface = subscriber_from_interface\<rparr>))"

record RedisConfig =
  rd_host :: pystr
  rd_port :: int
  rd_db :: int
  rd_password :: "pystr option"
  rd_socket_path :: "pystr option"
  rd_queue_key :: pystr
  rd_max_queue_length :: int

definition redis_config :: "pyd \<Rightarrow> ydict \<Rightarrow> RedisConfig result" where
  "redis_config P s =
     and_then (str_field P ''127.0.0.1'' ''host'' s) (\<lambda>host.
     and_then (int_field P 6379 1 65535 ''port'' s) (\<lambda>port.
     and_then (int_field P 0 0 15 ''db'' s) (\<lambda>db.
     and_then (optional_str P ''password'' s) (\<lambda>password.
     and_then (optional_str P ''socket_path'' s) (\<lambda>socket_path.
     and_then (str_field P ''nls:queue'' ''queue_key'' s) (\<lambda>queue_key.
     and_then (int_from P 5000000 1000 ''max_queue_length'' s) (\<lambda>max_queue_length.
       Inr \<lparr>rd_host = host, rd_port = port, rd_db = db, rd_password = password, rd_socket_path = socket_path,
            rd_queue_key = queue_key, rd_max_queue_length = max_queue_length\<rparr>)))))))"

record ClickHouseConfig =
  cc_host :: pystr
  cc_port :: int
  cc_user :: pystr
  cc_password :: pystr
  cc_database :: pystr
  cc_table :: pystr
  cc_secure :: bool
  cc_batch_size :: int
  cc_batch_interval_ms :: int
  cc_insert_timeout_seconds :: int
  cc_max_execution_time :: int
  cc_max_result_rows :: int

definition clickhouse_config :: "pyd \<Rightarrow> ydict \<Rightarrow> ClickHouseConfig result" where
  "clickhouse_config P s =
     and_then (str_field P ''127.0.0.1'' ''host'' s) (\<lambda>host.
     and_then (int_field P 8123 1 65535 ''port'' s) (\<lambda>port.
     and_then (str_field P ''netlog'' ''user'' s) (\<lambda>user.
     and_then (str_field P '''' ''password'' s) (\<lambda>password.
     and_then (str_field P ''network_logs'' ''database'' s) (\<lambda>database.
     and_then (str_field P ''nat_logs'' ''table'' s) (\<lambda>table.
     and_then (bool_field P False ''secure'' s) (\<lambda>secure.
     and_then (int_field P 20000 100 1000000 ''batch_size'' s) (\<lambda>batch_size.
     and_then (int_field P 1000 50 60000 ''batch_interval_ms'' s) (\<lambda>batch_interval_ms.
     and_then (int_field P 60 5 600 ''insert_timeout_seconds'' s) (\<lambda>insert_timeout_seconds.
     and_then (int_field P 30 1 600 ''max_execution_time'' s) (\<lambda>max_execution_time.
     and_then (int_field P 10000 100 1000000 ''max_result_rows'' s) (\<lambda>max_result_rows.
       Inr \<lparr>cc_host = host, cc_port = port, cc_user = user, cc_password = password, cc_database = database,
            cc_table = table, cc_secure = secure, cc_batch_size = batch_size,
            cc_batch_interval_ms = batch_interval_ms, cc_insert_timeout_seconds = insert_timeout_seconds,
            cc_max_execution_time = max_execution_time, cc_max_result_rows = max_result_rows\<rparr>))))))))))))"

record RetentionConfig =
  tc_hot_days :: int
  tc_retention_months :: int
  tc_archive_enabled :: bool
  tc_archive_dir :: pystr
  tc_drop_after_archive :: bool

definition retention_config :: "pyd \<Rightarrow> ydict \<Rightarrow> RetentionConfig result" where
  "retention_config P s =
     and_then (int_field P 30 1 3650 ''hot_days'' s) (\<lambda>hot_days.
     and_then (int_field P 12 1 120 ''retention_months'' s) (\<lambda>retention_months.
     and_then (bool_field P True ''archive_enabled'' s) (\<lambda>archive_enabled.
     and_then (str_field P ''/var/backups/network-log-server/archive'' ''archive_dir'' s) (\<lambda>archive_dir.
     and_then (bool_field P False ''drop_after_archive'' s) (\<lambda>drop_after_archive.
       Inr \<lparr>tc_hot_days = hot_days, tc_retention_months = retention_months,
            tc_archive_enabled = archive_enabled, tc_archive_dir = archive_dir,
            tc_drop_after_archive = drop_after_archive\<rparr>)))))"

record AuthConfig =
  ac_session_hours :: int
  ac_cookie_name :: pystr
  ac_cookie_secure :: bool
  ac_max_failed_logins :: int
  ac_lockout_seconds :: int

definition auth_config :: "pyd \<Rightarrow> ydict \<Rightarrow> AuthConfig result" where
  "auth_config P s =
     and_then (int_field P 12 1 720 ''session_hours'' s) (\<lambda>session_hours.
     and_then (str_field P ''nls_session'' ''cookie_name'' s) (\<lambda>cookie_name.
     and_then (bool_field P False ''cookie_secure'' s) (\<lambda>cookie_secure.
     and_then (int_field P 5 1 100 ''max_failed_logins'' s) (\<lambda>max_failed_logins.
     and_then (int_field P 300 10 86400 ''lockout_seconds'' s) (\<lambda>lockout_seconds.
       Inr \<lparr>ac_session_hours = session_hours, ac_cookie_name = cookie_name, ac_cookie_secure = cookie_secure,
            ac_max_failed_logins = max_failed_logins, ac_lockout_seconds = lockout_seconds\<rparr>)))))"

record ServerConfig =
  sc_bind :: pystr
  sc_port :: int
  sc_workers :: int

definition server_config :: "pyd \<Rightarrow> ydict \<Rightarrow> ServerConfig result" where
  "server_config P s =
     and_then (str_field P ''127.0.0.1'' ''bind'' s) (\<lambda>bind.
     and_then (int_field P 8088 1 65535 ''port'' s) (\<lambda>port.
     and_then (int_field P 2 1 32 ''workers'' s) (\<lambda>workers.
       Inr \<lparr>sc_bind = bind, sc_port = port, sc_workers = workers\<rparr>)))"

record Paths =
  pt_data_dir :: pystr
  pt_log_dir :: pystr
  pt_metadata_db :: pystr
  pt_logo_dir :: pystr

definition paths_config :: "pyd \<Rightarrow> ydict \<Rightarrow> Paths result" where
  "paths_config P s =
     and_then (str_field P ''/var/lib/network-log-server'' ''data_dir'' s) (\<lambda>data_dir.
     and_then (str_field P ''/var/log/network-log-server'' ''log_dir'' s) (\<lambda>log_dir.
     and_then (str_field P ''/var/lib/network-log-server/metadata.sqlite3'' ''metadata_db'' s) (\<lambda>metadata_db.
     and_then (str_field P ''/var/lib/network-log-server/branding'' ''logo_dir'' s) (\<lambda>logo_dir.
       Inr \<lparr>pt_data_dir = data_dir, pt_log_dir = log_dir, pt_metadata_db = metadata_db, pt_logo_dir = logo_dir\<rparr>))))"

text \<open>A field that is a model: a dictionary is validated, anything else refused, absent is \<open>Model()\<close>.\<close>

definition model_field :: "(ydict \<Rightarrow> 'a result) \<Rightarrow> string \<Rightarrow> ydict \<Rightarrow> 'a result" where
  "model_field build name s =
     (case map_of s (ykey name) of
        None \<Rightarrow> build []
      | Some (YMap d) \<Rightarrow> build d
      | Some _ \<Rightarrow> Inl ValueError)"

record Config =
  co_log_level :: pystr
  co_server :: ServerConfig
  co_receiver :: ReceiverConfig
  co_parser :: ParserConfig
  co_redis :: RedisConfig
  co_clickhouse :: ClickHouseConfig
  co_retention :: RetentionConfig
  co_auth :: AuthConfig
  co_paths :: Paths
  co_secret_key :: pystr

definition LOG_LEVELS :: "pystr list" where
  "LOG_LEVELS = map lit [''DEBUG'', ''INFO'', ''WARNING'', ''ERROR'']"

text \<open>\<open>Literal\<close> takes exactly its strings. \<open>_secret_required\<close> runs when the key is present.\<close>

definition log_level_of :: "yval \<Rightarrow> pystr option" where
  "log_level_of v = (case v of YStr t \<Rightarrow> if t \<in> set LOG_LEVELS then Some t else None | _ \<Rightarrow> None)"

definition secret_required :: "pystr \<Rightarrow> bool" where
  "secret_required v = (32 \<le> length v)"

definition build_config :: "pyd \<Rightarrow> ydict \<Rightarrow> Config result" where
  "build_config P s =
     and_then (field log_level_of (\<lambda>_. True) (lit ''INFO'') ''log_level'' s) (\<lambda>log_level.
     and_then (model_field (server_config P) ''server'' s) (\<lambda>server.
     and_then (model_field (receiver_config P) ''receiver'' s) (\<lambda>receiver.
     and_then (model_field (parser_config P) ''parser'' s) (\<lambda>parser.
     and_then (model_field (redis_config P) ''redis'' s) (\<lambda>redis.
     and_then (model_field (clickhouse_config P) ''clickhouse'' s) (\<lambda>clickhouse.
     and_then (model_field (retention_config P) ''retention'' s) (\<lambda>retention.
     and_then (model_field (auth_config P) ''auth'' s) (\<lambda>auth.
     and_then (model_field (paths_config P) ''paths'' s) (\<lambda>paths.
     and_then (field (as_str P) secret_required [] ''secret_key'' s) (\<lambda>secret_key.
       Inr \<lparr>co_log_level = log_level, co_server = server, co_receiver = receiver, co_parser = parser,
            co_redis = redis, co_clickhouse = clickhouse, co_retention = retention, co_auth = auth,
            co_paths = paths, co_secret_key = secret_key\<rparr>))))))))))"

section \<open>The environment file\<close>

type_synonym environ = "pystr \<Rightarrow> pystr option"

text \<open>\<open>s.strip(c)\<close> for one character.\<close>

definition py_strip_char :: "nat \<Rightarrow> pystr \<Rightarrow> pystr" where
  "py_strip_char c s = rev (dropWhile ((=) c) (rev (dropWhile ((=) c) s)))"

text \<open>
  \<open>os.environ.setdefault\<close>: a variable that is set stays. The empty name and a NUL cannot be
  set.
\<close>

definition env_setdefault :: "pystr \<Rightarrow> pystr \<Rightarrow> (environ, unit) eff" where
  "env_setdefault key v env =
     (if env key \<noteq> None then (Inr (), env)
      else if 0 \<in> set key \<union> set v then (Inl ValueError, env)
      else if key = [] then (Inl OSError, env)
      else (Inr (), env(key \<mapsto> v)))"

fun load_env_lines :: "ucd \<Rightarrow> pystr list \<Rightarrow> (environ, unit) eff" where
  "load_env_lines U [] env = (Inr (), env)"
| "load_env_lines U (raw # raws) env =
     (let line = py_strip U raw
      in if line = [] \<or> hd line = 35 \<or> 61 \<notin> set line then load_env_lines U raws env
         else
           (let key = py_strip U (takeWhile (\<lambda>c. c \<noteq> 61) line);
                v = py_strip U (tl (dropWhile (\<lambda>c. c \<noteq> 61) line));
                v = py_strip_char 39 (py_strip_char 34 v)
            in case env_setdefault key v env of
                 (Inl e, env) \<Rightarrow> (Inl e, env)
               | (Inr _, env) \<Rightarrow> load_env_lines U raws env))"

text \<open>The two files of a configuration directory: \<open>None\<close> is no such file.\<close>

record conf_dir =
  env_file :: "pystr result option"
  yaml_file :: "pystr result option"

definition load_env_file :: "ucd \<Rightarrow> conf_dir \<Rightarrow> (environ, unit) eff" where
  "load_env_file U files env =
     (case env_file files of
        None \<Rightarrow> (Inr (), env)
      | Some (Inl e) \<Rightarrow> (Inl e, env)
      | Some (Inr t) \<Rightarrow> load_env_lines U (py_splitlines t) env)"

section \<open>get_config\<close>

definition env_get :: "environ \<Rightarrow> string \<Rightarrow> yval \<Rightarrow> yval" where
  "env_get env name d = (case env (lit name) of None \<Rightarrow> d | Some v \<Rightarrow> YStr v)"

text \<open>\<open>d.get(key, "")\<close> of a parsed value: only a dictionary has \<open>get\<close>.\<close>

definition y_get :: "yval \<Rightarrow> string \<Rightarrow> yval result" where
  "y_get v name = (case v of YMap d \<Rightarrow> Inr (dict_get d (ykey name) (YStr [])) | _ \<Rightarrow> Inl AttributeError)"

definition y_setitem :: "yval \<Rightarrow> string \<Rightarrow> yval \<Rightarrow> yval result" where
  "y_setitem v name x = (case v of YMap d \<Rightarrow> Inr (YMap (dict_set d (ykey name) x)) | _ \<Rightarrow> Inl TypeError)"

text \<open>The dictionary that is validated: the file's, with the secrets of the environment put in.\<close>

definition with_secrets :: "environ \<Rightarrow> yval \<Rightarrow> ydict result" where
  "with_secrets env loaded =
     (case (if falsy loaded then YMap [] else loaded) of
        YMap data \<Rightarrow>
          (let data = dict_set data (ykey ''secret_key'')
                 (env_get env ''NLS_SECRET_KEY'' (dict_get data (ykey ''secret_key'') (YStr [])));
               ch = dict_get data (ykey ''clickhouse'') (YMap [])
           in and_then (y_get ch ''password'') (\<lambda>password.
              and_then (y_setitem ch ''password'' (env_get env ''NLS_CLICKHOUSE_PASSWORD'' password)) (\<lambda>ch.
                (let data = dict_set data (ykey ''clickhouse'') ch;
                     rd = dict_get data (ykey ''redis'') (YMap [])
                 in case env (lit ''NLS_REDIS_PASSWORD'') of
                      Some (c # cs) \<Rightarrow>
                        and_then (y_setitem rd ''password'' (YStr (c # cs))) (\<lambda>rd. Inr (dict_set data (ykey ''redis'') rd))
                    | _ \<Rightarrow> Inr (dict_set data (ykey ''redis'') rd)))))
      | _ \<Rightarrow> Inl AttributeError)"

definition is_text :: "yval \<Rightarrow> bool" where
  "is_text v = (case v of YStr _ \<Rightarrow> True | _ \<Rightarrow> False)"

text \<open>\<open>Config(**data)\<close> needs strings as keys.\<close>

definition config_of :: "pyd \<Rightarrow> ydict \<Rightarrow> Config result" where
  "config_of P data = (if list_all (\<lambda>(k, _). is_text k) data then build_config P data else Inl TypeError)"

definition load_config :: "ucd \<Rightarrow> pyd \<Rightarrow> (pystr \<Rightarrow> yval result) \<Rightarrow> conf_dir \<Rightarrow> (environ, Config) eff" where
  "load_config U P yaml files env =
     (case load_env_file U files env of
        (Inl e, env) \<Rightarrow> (Inl e, env)
      | (Inr _, env) \<Rightarrow>
          (and_then (case yaml_file files of
                       None \<Rightarrow> Inr (YMap [])
                     | Some t \<Rightarrow> and_then t yaml) (\<lambda>loaded.
           and_then (with_secrets env loaded) (config_of P)), env))"

text \<open>
  \<open>get_config\<close> under \<open>lru_cache(maxsize=1)\<close>: the last result is kept with its argument, an
  exception is not. \<open>dirs\<close> are the directories as they are at the time of the call.
\<close>

record config_state =
  cs_environ :: environ
  cs_cache :: "(pystr option \<times> Config) option"

definition get_config ::
    "ucd \<Rightarrow> pyd \<Rightarrow> (pystr \<Rightarrow> yval result) \<Rightarrow> (pystr \<Rightarrow> conf_dir) \<Rightarrow> pystr \<Rightarrow> pystr option
      \<Rightarrow> (config_state, Config) eff" where
  "get_config U P yaml dirs default_dir arg st =
     (let base = (case arg of Some (x # xs) \<Rightarrow> x # xs | _ \<Rightarrow> default_dir);
          fresh = (case load_config U P yaml (dirs base) (cs_environ st) of
                     (Inl e, env) \<Rightarrow> (Inl e, st\<lparr>cs_environ := env\<rparr>)
                   | (Inr c, env) \<Rightarrow> (Inr c, \<lparr>cs_environ = env, cs_cache = Some (arg, c)\<rparr>))
      in case cs_cache st of
           Some (a, c) \<Rightarrow> if a = arg then (Inr c, st) else fresh
         | None \<Rightarrow> fresh)"

definition reset_config_cache :: "config_state \<Rightarrow> config_state" where
  "reset_config_cache st = st\<lparr>cs_cache := None\<rparr>"

section \<open>Lemmas\<close>

lemma int_field_Inr: "int_field P d lo hi name s = Inr n \<Longrightarrow> lo \<le> d \<and> d \<le> hi \<longrightarrow> lo \<le> n \<and> n \<le> hi"
  by (auto simp: int_field_def field_def split: option.splits if_splits)

lemma int_from_Inr: "int_from P d lo name s = Inr n \<Longrightarrow> lo \<le> d \<longrightarrow> lo \<le> n"
  by (auto simp: int_from_def field_def split: option.splits if_splits)

lemma model_field_Inr: "model_field build name s = Inr x \<Longrightarrow> \<exists>d. build d = Inr x"
  by (auto simp: model_field_def split: option.splits yval.splits)

lemma ykey_eq [simp]: "ykey a = ykey b \<longleftrightarrow> a = b"
  by (auto simp: ykey_def lit_def inj_map_eq_map inj_of_char)

text \<open>The bounds that the field declarations state.\<close>

definition receiver_ok :: "ReceiverConfig \<Rightarrow> bool" where
  "receiver_ok c \<longleftrightarrow> rc_udp_port c \<in> {1..65535} \<and> rc_tcp_port c \<in> {1..65535} \<and> rc_workers c \<in> {0..64}
     \<and> 65536 \<le> rc_so_rcvbuf c \<and> rc_max_datagram c \<in> {512..65535} \<and> rc_push_batch c \<in> {1..50000}
     \<and> rc_push_interval_ms c \<in> {10..5000} \<and> rc_router_refresh_seconds c \<in> {1..3600}"

definition clickhouse_ok :: "ClickHouseConfig \<Rightarrow> bool" where
  "clickhouse_ok c \<longleftrightarrow> cc_port c \<in> {1..65535} \<and> cc_batch_size c \<in> {100..1000000}
     \<and> cc_batch_interval_ms c \<in> {50..60000} \<and> cc_insert_timeout_seconds c \<in> {5..600}
     \<and> cc_max_execution_time c \<in> {1..600} \<and> cc_max_result_rows c \<in> {100..1000000}"

definition config_ok :: "Config \<Rightarrow> bool" where
  "config_ok c \<longleftrightarrow> co_log_level c \<in> set LOG_LEVELS \<and> 32 \<le> length (co_secret_key c)
     \<and> receiver_ok (co_receiver c) \<and> clickhouse_ok (co_clickhouse c)
     \<and> rd_port (co_redis c) \<in> {1..65535} \<and> rd_db (co_redis c) \<in> {0..15} \<and> 1000 \<le> rd_max_queue_length (co_redis c)
     \<and> tc_hot_days (co_retention c) \<in> {1..3650} \<and> tc_retention_months (co_retention c) \<in> {1..120}
     \<and> ac_session_hours (co_auth c) \<in> {1..720} \<and> ac_max_failed_logins (co_auth c) \<in> {1..100}
     \<and> ac_lockout_seconds (co_auth c) \<in> {10..86400}
     \<and> sc_port (co_server c) \<in> {1..65535} \<and> sc_workers (co_server c) \<in> {1..32}"

lemma receiver_config_ok: "receiver_config P s = Inr c \<Longrightarrow> receiver_ok c"
  unfolding receiver_config_def and_then_Inr sum.inject
  apply (elim exE conjE)
  apply (drule int_field_Inr)+
  apply (drule int_from_Inr)
  apply hypsubst_thin
  apply (simp add: receiver_ok_def)
  done

lemma clickhouse_config_ok: "clickhouse_config P s = Inr c \<Longrightarrow> clickhouse_ok c"
  unfolding clickhouse_config_def and_then_Inr sum.inject
  apply (elim exE conjE)
  apply (drule int_field_Inr)+
  apply hypsubst_thin
  apply (simp add: clickhouse_ok_def)
  done

lemma redis_config_ok: "redis_config P s = Inr c \<Longrightarrow>
    rd_port c \<in> {1..65535} \<and> rd_db c \<in> {0..15} \<and> 1000 \<le> rd_max_queue_length c"
  by (auto simp: redis_config_def dest!: int_field_Inr int_from_Inr)

lemma retention_config_ok: "retention_config P s = Inr c \<Longrightarrow>
    tc_hot_days c \<in> {1..3650} \<and> tc_retention_months c \<in> {1..120}"
  by (auto simp: retention_config_def dest!: int_field_Inr)

lemma auth_config_ok: "auth_config P s = Inr c \<Longrightarrow>
    ac_session_hours c \<in> {1..720} \<and> ac_max_failed_logins c \<in> {1..100} \<and> ac_lockout_seconds c \<in> {10..86400}"
  by (auto simp: auth_config_def dest!: int_field_Inr)

lemma server_config_ok: "server_config P s = Inr c \<Longrightarrow> sc_port c \<in> {1..65535} \<and> sc_workers c \<in> {1..32}"
  by (auto simp: server_config_def dest!: int_field_Inr)

lemma log_level_ok: "field log_level_of (\<lambda>_. True) (lit ''INFO'') name s = Inr l \<Longrightarrow> l \<in> set LOG_LEVELS"
  by (auto simp: field_def log_level_of_def LOG_LEVELS_def split: option.splits yval.splits if_splits)

lemma secret_ok:
  "field (as_str P) secret_required [] ''secret_key'' s = Inr k \<Longrightarrow> map_of s (ykey ''secret_key'') \<noteq> None
    \<Longrightarrow> 32 \<le> length k"
  by (auto simp: field_def secret_required_def split: option.splits if_splits)

lemma build_config_ok:
  assumes "build_config P s = Inr c" and "map_of s (ykey ''secret_key'') \<noteq> None"
  shows "config_ok c"
  using assms unfolding build_config_def and_then_Inr
  by (elim exE conjE)
     (frule log_level_ok, drule secret_ok, assumption,
      drule model_field_Inr [where build = "server_config P"],
      drule model_field_Inr [where build = "receiver_config P"],
      drule model_field_Inr [where build = "redis_config P"],
      drule model_field_Inr [where build = "clickhouse_config P"],
      drule model_field_Inr [where build = "retention_config P"],
      drule model_field_Inr [where build = "auth_config P"],
      auto simp: config_ok_def dest!: receiver_config_ok clickhouse_config_ok redis_config_ok retention_config_ok
        auth_config_ok server_config_ok)

lemma with_secrets_has:
  "with_secrets env loaded = Inr data \<Longrightarrow> map_of data (ykey ''secret_key'') \<noteq> None"
proof (cases "if falsy loaded then YMap [] else loaded")
  case (YMap d)
  assume *: "with_secrets env loaded = Inr data"
  show ?thesis
  proof (cases "env (lit ''NLS_REDIS_PASSWORD'')")
    case None
    then show ?thesis using * YMap by (auto simp: with_secrets_def Let_def)
  next
    case (Some pw)
    then show ?thesis using * YMap by (cases pw) (auto simp: with_secrets_def Let_def)
  qed
qed (simp_all add: with_secrets_def)

lemma load_config_ok: "load_config U P yaml files env = (Inr c, env') \<Longrightarrow> config_ok c"
  using build_config_ok with_secrets_has
  by (auto simp: load_config_def config_of_def split: prod.splits sum.splits if_splits)

definition cache_ok :: "config_state \<Rightarrow> bool" where
  "cache_ok st = (case cs_cache st of None \<Rightarrow> True | Some (_, c) \<Rightarrow> config_ok c)"

section \<open>Properties\<close>

text \<open>C25 (config_sound): Whatever the two files, the environment and pydantic's conversions hold, a configuration that a service gets is within every declared bound and has a secret of at least 32 characters; every call keeps the cache that way, and once a call has succeeded the same call returns the same configuration, whatever happens to the files, until the cache is reset.\<close>

theorem config_sound:
  assumes "cache_ok st" and "get_config U P yaml dirs base arg st = (r, st')"
  shows "cache_ok st' \<and> cache_ok (reset_config_cache st')
    \<and> (\<forall>c. r = Inr c \<longrightarrow> config_ok c
         \<and> get_config U P' yaml' dirs' base' arg st' = (Inr c, st'))"
proof -
  consider (hit) c where "cs_cache st = Some (arg, c)" "r = Inr c" "st' = st"
    | (fails) e env where "r = Inl e" "st' = st\<lparr>cs_environ := env\<rparr>"
    | (loads) c env files where "load_config U P yaml files (cs_environ st) = (Inr c, env)" "r = Inr c"
        "st' = \<lparr>cs_environ = env, cs_cache = Some (arg, c)\<rparr>"
    using assms(2) unfolding get_config_def Let_def
    by (auto split: option.splits prod.splits sum.splits if_splits)
  then show ?thesis
  proof cases
    case hit
    then show ?thesis using assms(1) by (auto simp: cache_ok_def reset_config_cache_def get_config_def)
  next
    case fails
    then show ?thesis using assms(1) by (auto simp: cache_ok_def reset_config_cache_def)
  next
    case loads
    then show ?thesis
      using load_config_ok [OF loads(1)] by (auto simp: cache_ok_def reset_config_cache_def get_config_def)
  qed
qed

text \<open>A pydantic that converts nothing, an environment with a key, and a directory without files.\<close>

definition strict_pyd :: pyd where
  "strict_pyd = \<lparr>as_int = (\<lambda>v. case v of YInt n \<Rightarrow> Some n | _ \<Rightarrow> None),
     as_bool = (\<lambda>v. case v of YBool b \<Rightarrow> Some b | _ \<Rightarrow> None),
     as_str = (\<lambda>v. case v of YStr s \<Rightarrow> Some s | _ \<Rightarrow> None)\<rparr>"

interpretation strict_pyd: pydantic strict_pyd
  by unfold_locales (simp_all add: strict_pyd_def)

definition keyed_env :: config_state where
  "keyed_env = \<lparr>cs_environ = [lit ''NLS_SECRET_KEY'' \<mapsto> replicate 32 97], cs_cache = None\<rparr>"

definition no_files :: conf_dir where "no_files = \<lparr>env_file = None, yaml_file = None\<rparr>"

lemmas config_defs = build_config_def server_config_def receiver_config_def parser_config_def redis_config_def
  clickhouse_config_def retention_config_def auth_config_def paths_config_def

lemmas field_defs = field_def int_field_def int_from_def bool_field_def str_field_def optional_str_def model_field_def

text \<open>With a secret and no other text in the file, every field is its default.\<close>

lemma secret_only:
  assumes "pydantic P" and "32 \<le> length k"
    and "map_of data = [ykey ''secret_key'' \<mapsto> YStr k, ykey ''clickhouse'' \<mapsto> YMap [(ykey ''password'', YStr pw)],
           ykey ''redis'' \<mapsto> YMap []]"
  shows "\<exists>c. build_config P data = Inr c \<and> co_secret_key c = k"
  using assms(2)
  by (simp add: config_defs field_defs and_then_def assms(3) pydantic.str_law [OF assms(1)] secret_required_def)

lemma load_secret:
  assumes "pydantic P" and "32 \<le> length k" and "env (lit ''NLS_CLICKHOUSE_PASSWORD'') = None"
    "env (lit ''NLS_REDIS_PASSWORD'') = None"
    and "(env (lit ''NLS_SECRET_KEY'') = Some k \<and> loaded = YMap [])
      \<or> (env (lit ''NLS_SECRET_KEY'') = None \<and> loaded = YMap [(ykey ''secret_key'', YStr k)])"
  shows "\<exists>c. and_then (with_secrets env loaded) (config_of P) = Inr c \<and> co_secret_key c = k"
proof -
  let ?data = "[(ykey ''secret_key'', YStr k), (ykey ''clickhouse'', YMap [(ykey ''password'', YStr [])]),
      (ykey ''redis'', YMap [])]"
  have "with_secrets env loaded = Inr ?data"
    using assms(3-5)
    by (auto simp: with_secrets_def falsy_def env_get_def y_get_def y_setitem_def and_then_def dict_get_def dict_set_def)
  moreover have "config_of P ?data = build_config P ?data" by (simp add: config_of_def is_text_def ykey_def)
  moreover have "map_of ?data = [ykey ''secret_key'' \<mapsto> YStr k,
      ykey ''clickhouse'' \<mapsto> YMap [(ykey ''password'', YStr [])], ykey ''redis'' \<mapsto> YMap []]" by (auto simp: fun_upd_twist)
  ultimately show ?thesis using secret_only [OF assms(1,2)] by (simp add: and_then_def)
qed

theorem config_sound_witness:
  "\<exists>c st'. get_config ascii_only strict_pyd (\<lambda>_. Inr YNull) (\<lambda>_. no_files) [] None keyed_env = (Inr c, st')
    \<and> config_ok c \<and> get_config ascii_only strict_pyd (\<lambda>_. Inl OSError) (\<lambda>_. no_files) [] None st' = (Inr c, st')"
proof -
  obtain c where c: "and_then (with_secrets (cs_environ keyed_env) (YMap [])) (config_of strict_pyd) = Inr c"
    using load_secret [OF strict_pyd.pydantic_axioms, of "replicate 32 97" "cs_environ keyed_env" "YMap []"]
    by (auto simp: keyed_env_def lit_def)
  then have "\<exists>st'. get_config ascii_only strict_pyd (\<lambda>_. Inr YNull) (\<lambda>_. no_files) [] None keyed_env = (Inr c, st')"
    by (simp add: get_config_def load_config_def load_env_file_def no_files_def keyed_env_def and_then_def
        del: and_then_Inr)
  then obtain st' where st': "get_config ascii_only strict_pyd (\<lambda>_. Inr YNull) (\<lambda>_. no_files) [] None keyed_env = (Inr c, st')" ..
  show ?thesis
    using st' config_sound [OF _ st'] by (auto simp: cache_ok_def keyed_env_def)
qed

text \<open>Also (secret_from_yaml): A secret key in the YAML file is taken when the environment has none, against the comment that secrets never come from that file.\<close>

theorem secret_from_yaml:
  assumes "pydantic P" and "32 \<le> length k" and "env_file files = None" and "yaml_file files = Some (Inr t)"
    and "yaml t = Inr (YMap [(ykey ''secret_key'', YStr k)])"
    and "\<forall>v \<in> {''NLS_SECRET_KEY'', ''NLS_CLICKHOUSE_PASSWORD'', ''NLS_REDIS_PASSWORD''}. env (lit v) = None"
  shows "\<exists>c. load_config U P yaml files env = (Inr c, env) \<and> co_secret_key c = k"
proof -
  obtain c where "and_then (with_secrets env (YMap [(ykey ''secret_key'', YStr k)])) (config_of P) = Inr c"
    "co_secret_key c = k"
    using load_secret [OF assms(1,2), of env "YMap [(ykey ''secret_key'', YStr k)]"] assms(6) by auto
  then show ?thesis
    using assms(3-5) by (simp add: load_config_def load_env_file_def and_then_def [of "Inr _"] del: and_then_Inr)
qed

theorem secret_from_yaml_witness:
  "\<exists>c. load_config ascii_only strict_pyd (\<lambda>_. Inr (YMap [(ykey ''secret_key'', YStr (replicate 32 97))]))
      \<lparr>env_file = None, yaml_file = Some (Inr [])\<rparr> Map.empty = (Inr c, Map.empty) \<and> co_secret_key c = replicate 32 97"
  by (rule secret_from_yaml [OF strict_pyd.pydantic_axioms, where t = "[]"]) simp_all

section \<open>The environment file\<close>

text \<open>Lines \<open>KEY=value\<close>, as the installer writes them.\<close>

definition env_line :: "pystr \<times> pystr \<Rightarrow> pystr" where "env_line kv = fst kv @ 61 # snd kv"
definition env_text :: "(pystr \<times> pystr) list \<Rightarrow> pystr" where "env_text kvs = concat (map (\<lambda>kv. env_line kv @ [10]) kvs)"

definition plain_pair :: "ucd \<Rightarrow> pystr \<times> pystr \<Rightarrow> bool" where
  "plain_pair U kv \<longleftrightarrow> (let (k, v) = kv in k \<noteq> [] \<and> 61 \<notin> set k \<and> hd k \<noteq> 35 \<and> \<not> is_space U (hd k)
     \<and> \<not> is_space U (last k) \<and> list_all (\<lambda>c. c \<noteq> 0 \<and> \<not> line_break c) (k @ v)
     \<and> (v = [] \<or> (\<not> is_space U (hd v) \<and> \<not> is_space U (last v) \<and> hd v \<notin> {34, 39} \<and> last v \<notin> {34, 39})))"

lemma strip_char_same: "s = [] \<or> (hd s \<noteq> c \<and> last s \<noteq> c) \<Longrightarrow> py_strip_char c s = s"
proof -
  assume a: "s = [] \<or> (hd s \<noteq> c \<and> last s \<noteq> c)"
  have "dropWhile ((=) c) s = s" using a by (cases s) auto
  moreover have "dropWhile ((=) c) (rev s) = rev s" using a by (cases s rule: rev_cases) auto
  ultimately show ?thesis by (simp add: py_strip_char_def)
qed

lemma splitlines_line:
  assumes "l \<noteq> []" "list_all (\<lambda>c. \<not> line_break c) l"
  shows "py_splitlines (l @ 10 # rest) = l # py_splitlines rest"
proof -
  have "dropWhile (\<lambda>x. \<not> line_break x) (l @ 10 # rest) = 10 # rest"
    "takeWhile (\<lambda>x. \<not> line_break x) (l @ 10 # rest) = l"
    using assms(2) by (auto simp: list_all_iff dropWhile_append takeWhile_append line_break_def)
  then show ?thesis using assms(1) by (cases l) auto
qed

lemma splitlines_env_text: "list_all (plain_pair U) kvs \<Longrightarrow> py_splitlines (env_text kvs) = map env_line kvs"
proof (induction kvs)
  case (Cons kv kvs)
  have "list_all (\<lambda>c. \<not> line_break c) (env_line kv)"
    using Cons.prems by (auto simp: plain_pair_def env_line_def list_all_iff line_break_def Let_def split: prod.splits)
  moreover have "env_line kv \<noteq> []" by (simp add: env_line_def)
  ultimately have "py_splitlines (env_line kv @ 10 # env_text kvs) = env_line kv # py_splitlines (env_text kvs)"
    by (rule splitlines_line [rotated])
  then show ?case using Cons by (simp add: env_text_def)
qed (simp add: env_text_def)

lemma env_line_step:
  assumes "plain_pair U (k, v)"
  shows "load_env_lines U (env_line (k, v) # raws) env
    = load_env_lines U raws (if env k = None then env(k \<mapsto> v) else env)"
proof -
  note p = assms [unfolded plain_pair_def Let_def prod.case]
  have sp: "\<not> is_space U 61" by (simp add: is_space_def)
  have l: "py_strip U (env_line (k, v)) = k @ 61 # v"
    using p sp by (subst strip_no_space) (auto simp: env_line_def)
  have "takeWhile (\<lambda>c. c \<noteq> 61) (k @ 61 # v) = k" "dropWhile (\<lambda>c. c \<noteq> 61) (k @ 61 # v) = 61 # v"
    using p by (auto simp: takeWhile_append dropWhile_append)
  moreover have "py_strip U k = k" using p strip_no_space by blast
  moreover have "py_strip U v = v" using p strip_no_space by (cases "v = []") (auto simp: py_strip_def py_lstrip_def)
  moreover have "py_strip_char 39 (py_strip_char 34 v) = v" using p by (auto simp: strip_char_same)
  moreover have "0 \<notin> set k \<union> set v" using p by (auto simp: list_all_iff)
  ultimately show ?thesis using p l by (auto simp: env_setdefault_def Let_def)
qed

text \<open>C35 (env_file_roundtrip): Loading a file of KEY=value lines puts exactly these variables into the environment, the first of two lines for one key, and never touches a variable that is already set, whatever characters the values hold short of line breaks, and quotes or blanks at their ends.\<close>

theorem env_file_roundtrip:
  assumes "list_all (plain_pair U) kvs" and "env_file files = Some (Inr (env_text kvs))"
  shows "load_env_file U files env = (Inr (), \<lambda>k. case env k of Some v \<Rightarrow> Some v | None \<Rightarrow> map_of kvs k)"
proof -
  have "load_env_lines U (map env_line kvs) env = (Inr (), \<lambda>k. case env k of Some v \<Rightarrow> Some v | None \<Rightarrow> map_of kvs k)"
    using assms(1)
  proof (induction kvs arbitrary: env)
    case Nil
    then show ?case by (auto split: option.splits)
  next
    case (Cons kv kvs)
    obtain k v where kv: "kv = (k, v)" by fastforce
    show ?case using Cons.prems
      by (subst list.map, subst kv, subst env_line_step)
         (auto simp: kv Cons.IH fun_eq_iff split: option.splits)
  qed
  then show ?thesis by (simp add: load_env_file_def assms(2) splitlines_env_text [OF assms(1)])
qed

theorem env_file_roundtrip_witness:
  "snd (load_env_file ascii_only \<lparr>env_file = Some (Inr (lit ''A=b=c'' @ [10] @ lit ''B='' @ [10])), yaml_file = None\<rparr>
      [lit ''B'' \<mapsto> lit ''set'']) (lit ''A'') = Some (lit ''b=c'')"
proof -
  let ?kvs = "[(lit ''A'', lit ''b=c''), (lit ''B'', [])]"
  have "list_all (plain_pair ascii_only) ?kvs" by code_simp
  moreover have "env_text ?kvs = lit ''A=b=c'' @ [10] @ lit ''B='' @ [10]" by code_simp
  moreover have "lit ''A'' \<noteq> lit ''B''" by code_simp
  ultimately show ?thesis
    using env_file_roundtrip [of ascii_only ?kvs "\<lparr>env_file = Some (Inr (env_text ?kvs)), yaml_file = None\<rparr>"
        "[lit ''B'' \<mapsto> lit ''set'']"] by simp
qed

end
