(* ===== verification/Cli_Main.thy ===== *)
theory Cli_Main
  imports Cli Maintenance System_Api Config
begin

text \<open>
  \<open>backend/app/cli.py\<close> as a whole: what \<open>main\<close> makes of a parsed command line. Every command with its exit code, what it prints
  on standard output, and the state it leaves: the store, what ClickHouse has run, the archives. What
  \<open>argparse\<close> makes of the arguments is in \<open>Cli_Args\<close>; \<open>json.dumps\<close>, \<open>repr\<close>, the text of a \<open>float\<close> and how \<open>uvicorn.run\<close> ends are parameters.
\<close>

section \<open>Text\<close>

text \<open>\<open>f"{n:,}"\<close>: groups of three digits.\<close>

definition three_digits :: "nat \<Rightarrow> pystr" where
  "three_digits n = [48 + n div 100 mod 10, 48 + n div 10 mod 10, 48 + n mod 10]"

fun grouped :: "nat \<Rightarrow> pystr" where
  "grouped n = (if n < 1000 then py_str_nat n else grouped (n div 1000) @ [44] @ three_digits (n mod 1000))"

declare grouped.simps [simp del]

definition with_commas :: "int \<Rightarrow> pystr" where
  "with_commas n = (if n < 0 then [45] @ grouped (nat (- n)) else grouped (nat n))"

text \<open>\<open>f"{x:.2f}"\<close>, halves to even.\<close>

definition two_decimals :: "rat \<Rightarrow> pystr" where
  "two_decimals x =
     (let n = nat \<lfloor>\<bar>py_round 2 x\<bar> * 100\<rfloor>
      in (if x < 0 then [45] else []) @ py_str_nat (n div 100) @ [46, 48 + n div 10 mod 10, 48 + n mod 10])"

text \<open>\<open>f"{s:<n}"\<close>.\<close>

definition padded :: "nat \<Rightarrow> pystr \<Rightarrow> pystr" where
  "padded n s = s @ replicate (n - length s) 32"

section \<open>Commands\<close>

datatype command =
    InitDb "pystr option"
  | CreateAdmin admin_args
  | AddRouter pystr pystr "pystr option" bool
  | ListRouters bool
  | StatusOf
  | ApplyRetention "int option" "int option"
  | Archive
  | Serve "pystr option" "int option" "int option"

record uvicorn_run =
  uv_host :: pystr
  uv_port :: int
  uv_workers :: int
  uv_level :: pystr

text \<open>The surroundings of a command, and the outcomes of its calls.\<close>

record cli_env =
  ce_ucd :: ucd
  ce_cfg :: cli_cfg
  ce_serve :: ServerConfig
  ce_level :: pystr
  ce_schema :: "pystr option \<Rightarrow> pystr option"   \<comment> \<open>the text of the schema file, given or default\<close>
  ce_accepts :: "pystr \<Rightarrow> bool"
  ce_net :: net
  ce_stats :: "storage result"
  ce_argon :: argon
  ce_salt :: pystr
  ce_now :: pystr
  ce_typed :: "pystr \<times> pystr"
  ce_choices :: "nat list"
  ce_dumps :: "router list \<Rightarrow> pystr"
  ce_repr :: "pystr \<Rightarrow> pystr"
  ce_float :: "rat \<Rightarrow> pystr"
  ce_server :: server
  ce_archive :: archive_cfg
  ce_ping :: bool
  ce_parts :: "string list result"
  ce_calls :: "string \<Rightarrow> archive_calls"
  ce_str_exc :: "exn \<Rightarrow> pystr"
  ce_prune_fails :: bool
  ce_today :: date
  ce_uvicorn :: "uvicorn_run \<Rightarrow> int option result"   \<comment> \<open>it returns, or exits with a code, or raises\<close>

record cli_state =
  cl_meta :: meta
  cl_sent :: "pystr list"
  cl_files :: "(string \<times> nat) list"
  cl_dropped :: "string list"
  cl_out :: "pystr list"
  cl_served :: "uvicorn_run list"

definition say :: "pystr list \<Rightarrow> cli_state \<Rightarrow> cli_state" where
  "say lines st = st\<lparr>cl_out := cl_out st @ lines\<rparr>"

definition run_init_db :: "cli_env \<Rightarrow> pystr option \<Rightarrow> (cli_state, int) eff" where
  "run_init_db E schema st =
     (case cmd_init_db (ce_ucd E) (ce_accepts E) (\<exists>s. ce_stats E = Inr s) (ce_cfg E) (ce_schema E schema)
             (cl_meta st, cl_sent st) of
        (r, m, sent) \<Rightarrow>
          (r, (case ce_stats E of
                 Inr s \<Rightarrow>
                   if r = Inr 0
                   then say [lit ''database '' @ ch_table (ce_cfg E) @ lit '' ready ('' @ with_commas (st_rows s) @ lit '' rows)'']
                   else id
               | Inl e \<Rightarrow> id) (st\<lparr>cl_meta := m, cl_sent := sent\<rparr>)))"

text \<open>What create-admin prints; with \<open>--random\<close> the password itself, on a line of its own.\<close>

definition admin_password :: "cli_env \<Rightarrow> admin_args \<Rightarrow> pystr" where
  "admin_password E args =
     (let given = (case a_password args of Some p \<Rightarrow> p | None \<Rightarrow> [])
      in if given \<noteq> [] then given else if a_random args then generate_password (ce_choices E) else fst (ce_typed E))"

definition admin_says :: "cli_env \<Rightarrow> admin_args \<Rightarrow> int \<Rightarrow> meta \<Rightarrow> pystr list" where
  "admin_says E args code m =
     (if get_user (a_username args) m \<noteq> None \<and> \<not> a_force args
      then [lit ''user '' @ ce_repr E (a_username args) @ lit '' already exists; nothing changed'']
      else if code \<noteq> 0 then []
      else if a_random args then [admin_password E args]
      else [lit ''user '' @ ce_repr E (a_username args) @ lit '' ready''])"

definition run_create_admin :: "cli_env \<Rightarrow> admin_args \<Rightarrow> (cli_state, int) eff" where
  "run_create_admin E args st =
     (case cmd_create_admin (ce_ucd E) (ce_argon E) (ce_salt E) (ce_now E) (ce_typed E) (ce_choices E) args (cl_meta st) of
        (code, m) \<Rightarrow> (Inr code, say (admin_says E args code (cl_meta st)) (st\<lparr>cl_meta := m\<rparr>)))"

definition run_add_router :: "cli_env \<Rightarrow> pystr \<Rightarrow> pystr \<Rightarrow> pystr option \<Rightarrow> bool \<Rightarrow> (cli_state, int) eff" where
  "run_add_router E name ip descr disabled st =
     (case cmd_add_router (ce_ucd E) (ce_now E) name ip descr disabled (cl_meta st) of
        (code, m) \<Rightarrow>
          (Inr code,
           (if code = 0
            then (let r = last (routers m) in say [lit ''router '' @ r_name r @ lit '' ('' @ ip_address r @ lit '') added''])
            else id) (st\<lparr>cl_meta := m\<rparr>)))"

definition router_header :: pystr where
  "router_header = padded 24 (lit ''NAME'') @ padded 18 (lit ''IP'') @ padded 10 (lit ''STATUS'') @ lit ''DESCRIPTION''"

definition router_line :: "router \<Rightarrow> pystr" where
  "router_line r =
     padded 24 (r_name r) @ padded 18 (ip_address r)
     @ padded 10 (if enabled r \<noteq> 0 then lit ''enabled'' else lit ''disabled'') @ description r"

definition run_list_routers :: "cli_env \<Rightarrow> bool \<Rightarrow> (cli_state, int) eff" where
  "run_list_routers E json st =
     (let m = init_schema (cl_meta st); rows = list_routers m; st = st\<lparr>cl_meta := m\<rparr>
      in (Inr 0,
          if json then say [ce_dumps E rows] st
          else if rows = [] then say [lit ''No routers configured. Add one before any logs will be accepted.''] st
          else say (router_header # map router_line rows) st))"

text \<open>\<open>p["partition"]\<close> of each partition, joined.\<close>

fun partition_names :: "params list \<Rightarrow> pystr list result" where
  "partition_names [] = Inr []"
| "partition_names (p # ps) =
     (case map_of p ''partition'' of
        None \<Rightarrow> Inl KeyError
      | Some v \<Rightarrow>
          (case partition_names ps of
             Inl e \<Rightarrow> Inl e
           | Inr ns \<Rightarrow> (case v of PStr t \<Rightarrow> Inr (t # ns) | _ \<Rightarrow> Inl TypeError)))"

text \<open>\<open>cmd_status\<close> prints as it goes: what came before an exception has been printed.\<close>

definition storage_lines :: "cli_env \<Rightarrow> storage \<Rightarrow> pystr list" where
  "storage_lines E s =
     [lit ''rows       : '' @ with_commas (st_rows s),
      lit ''on disk    : '' @ two_decimals (of_int (st_compressed s) / 1073741824) @ lit '' GiB'',
      lit ''compression: '' @ ce_float E (st_ratio s) @ lit ''x ('' @ ce_float E (st_row_bytes s) @ lit '' bytes/row)'']"

definition status_report ::
    "cli_env \<Rightarrow> pystr \<Rightarrow> pystr \<Rightarrow> ClickHouseService \<Rightarrow> pystr list \<times> int result \<times> ClickHouseService" where
  "status_report E db tbl sv =
     (let srv = ce_server E
      in case ch_ping srv sv of
           (False, sv) \<Rightarrow> ([lit ''clickhouse : UNREACHABLE''], Inr 1, sv)
         | (True, sv) \<Rightarrow>
             (let up = lit ''clickhouse : reachable''
              in case storage_stats srv db tbl sv of
                   (Inl e, sv) \<Rightarrow> ([up], Inl e, sv)
                 | (Inr s, sv) \<Rightarrow>
                     (let figures = up # storage_lines E s
                      in case ch_partitions srv db tbl sv of
                           (Inl e, sv) \<Rightarrow> (figures, Inl e, sv)
                         | (Inr ps, sv) \<Rightarrow>
                             (case partition_names ps of
                                Inl e \<Rightarrow> (figures, Inl e, sv)
                              | Inr names \<Rightarrow>
                                  (figures @ [lit ''partitions : ''
                                     @ (if py_join (lit '', '') names = [] then lit ''none'' else py_join (lit '', '') names)],
                                   Inr 0, sv)))))"

definition run_status :: "cli_env \<Rightarrow> (cli_state, int) eff" where
  "run_status E st =
     (let sv = \<lparr>sv_table = ch_table (ce_cfg E), sv_max_rows = 0, sv_max_time = 0, sv_client = False\<rparr>
      in case status_report E (cf_database (ce_cfg E)) (cf_table (ce_cfg E)) sv of
           (lines, r, sv) \<Rightarrow>
             (case r of
                Inl e \<Rightarrow> (Inl e, say lines st)
              | Inr code \<Rightarrow> (case close_client (ce_server E) sv of
                    (Inl e, _) \<Rightarrow> (Inl e, say lines st)
                  | (Inr _, _) \<Rightarrow> (Inr code, say lines st))))"

definition run_apply_retention :: "cli_env \<Rightarrow> int option \<Rightarrow> int option \<Rightarrow> (cli_state, int) eff" where
  "run_apply_retention E hot_arg months_arg st =
     (case cmd_apply_retention (ce_ucd E) (ce_accepts E) (ce_net E) (ce_cfg E) hot_arg months_arg (cl_meta st, cl_sent st) of
        (r, m, sent) \<Rightarrow>
          (r, (if r = Inr 0
               then say [lit ''retention: recompress after '' @ get_setting HOT [] m @ lit '' days, delete after ''
                         @ get_setting MONTHS [] m @ lit '' months'']
               else id) (st\<lparr>cl_meta := m, cl_sent := sent\<rparr>)))"

definition run_archive :: "cli_env \<Rightarrow> (cli_state, int) eff" where
  "run_archive E st =
     (case maintenance_run (ce_archive E) (ce_ping E) (ce_parts E) (ce_calls E) (ce_str_exc E) (ce_prune_fails E) (ce_now E)
             (ce_today E) \<lparr>ar_meta = init_schema (cl_meta st), ar_files = cl_files st, ar_dropped = cl_dropped st\<rparr> of
        (r, ar) \<Rightarrow> (r, st\<lparr>cl_meta := ar_meta ar, cl_files := ar_files ar, cl_dropped := ar_dropped ar\<rparr>))"

text \<open>\<open>args.host or cfg.server.bind\<close>, and so on: an empty host and a zero count as not given.\<close>

definition or_text :: "pystr option \<Rightarrow> pystr \<Rightarrow> pystr" where
  "or_text x d = (case x of Some t \<Rightarrow> if t = [] then d else t | None \<Rightarrow> d)"

definition or_int :: "int option \<Rightarrow> int \<Rightarrow> int" where
  "or_int x d = (case x of Some n \<Rightarrow> if n = 0 then d else n | None \<Rightarrow> d)"

definition serve_settings :: "cli_env \<Rightarrow> pystr option \<Rightarrow> int option \<Rightarrow> int option \<Rightarrow> uvicorn_run" where
  "serve_settings E host port workers =
     \<lparr>uv_host = or_text host (sc_bind (ce_serve E)), uv_port = or_int port (sc_port (ce_serve E)),
      uv_workers = or_int workers (sc_workers (ce_serve E)), uv_level = map low (ce_level E)\<rparr>"

text \<open>\<open>uvicorn.run\<close> returns, or raises; a \<open>SystemExit\<close> with a code ends the process as a return of this code does.\<close>

definition run_serve :: "cli_env \<Rightarrow> pystr option \<Rightarrow> int option \<Rightarrow> int option \<Rightarrow> (cli_state, int) eff" where
  "run_serve E host port workers st =
     (let settings = serve_settings E host port workers
      in (case ce_uvicorn E settings of
            Inl e \<Rightarrow> Inl e
          | Inr None \<Rightarrow> Inr 0
          | Inr (Some code) \<Rightarrow> Inr code,
          st\<lparr>cl_served := cl_served st @ [settings]\<rparr>))"

fun dispatch :: "cli_env \<Rightarrow> command \<Rightarrow> (cli_state, int) eff" where
  "dispatch E (InitDb schema) = run_init_db E schema"
| "dispatch E (CreateAdmin args) = run_create_admin E args"
| "dispatch E (AddRouter name ip descr disabled) = run_add_router E name ip descr disabled"
| "dispatch E (ListRouters json) = run_list_routers E json"
| "dispatch E StatusOf = run_status E"
| "dispatch E (ApplyRetention hot months) = run_apply_retention E hot months"
| "dispatch E Archive = run_archive E"
| "dispatch E (Serve host port workers) = run_serve E host port workers"

text \<open>
  \<open>main\<close>: \<open>parsed\<close> is None for a command line that \<open>argparse\<close> refuses, \<open>ready\<close> says whether the configuration
  and the logging can be set up. An exception of a command is a traceback and exit code 1.
\<close>

definition cli_main :: "cli_env \<Rightarrow> bool \<Rightarrow> command option \<Rightarrow> cli_state \<Rightarrow> int \<times> cli_state" where
  "cli_main E ready parsed st =
     (case parsed of
        None \<Rightarrow> (2, st)
      | Some cmd \<Rightarrow>
          if \<not> ready then (2, st)
          else (case dispatch E cmd st of (Inl e, st) \<Rightarrow> (1, st) | (Inr code, st) \<Rightarrow> (code, st)))"

section \<open>Lemmas\<close>

lemma say_fields [simp]:
  "cl_meta (say ls st) = cl_meta st" "cl_sent (say ls st) = cl_sent st" "cl_files (say ls st) = cl_files st"
  "cl_dropped (say ls st) = cl_dropped st" "cl_served (say ls st) = cl_served st" "cl_out (say ls st) = cl_out st @ ls"
  by (simp_all add: say_def)

lemma archive_body_meta: "archive_body cfg calls now part i st = (x, st') \<Longrightarrow> meta_ok (ar_meta st) \<Longrightarrow> meta_ok (ar_meta st')"
  by (auto simp: archive_body_def Let_def inv_intros split: sum.splits option.splits if_splits)

lemma archive_partition_meta:
  assumes "archive_partition cfg calls str_exc now part st = (x, st')" "meta_ok (ar_meta st)"
  shows "meta_ok (ar_meta st')"
proof -
  obtain rid m where m: "start_archive now part (ar_meta st) = (rid, m)" by fastforce
  then have ok: "meta_ok m" using start_archive_ok [OF assms(2), of now part] by simp
  obtain y st2 where b: "archive_body cfg calls now part rid (st\<lparr>ar_meta := m\<rparr>) = (y, st2)" by fastforce
  then have "meta_ok (ar_meta st2)" using archive_body_meta [OF b] ok by simp
  then show ?thesis
    using assms m b by (auto simp: archive_partition_def Let_def inv_intros split: if_splits sum.splits)
qed

lemma archive_loop_meta:
  "archive_loop cfg calls str_exc now parts n st = (x, st') \<Longrightarrow> meta_ok (ar_meta st) \<Longrightarrow> meta_ok (ar_meta st')"
proof (induction cfg calls str_exc now parts n st rule: archive_loop.induct)
  case (2 cfg calls str_exc now part parts n st)
  obtain y st1 where a: "archive_partition cfg (calls part) str_exc now part st = (y, st1)" by fastforce
  then have "meta_ok (ar_meta st1)" using archive_partition_meta [OF a] 2(3) by simp
  then show ?case using 2 a by (cases y) auto
qed simp

lemma maintenance_meta:
  "maintenance_run cfg ping parts calls str_exc pf now today st = (x, st') \<Longrightarrow> meta_ok (ar_meta st)
    \<Longrightarrow> meta_ok (ar_meta st') \<and> (x = Inr c \<longrightarrow> c \<in> {0, 1})"
  by (auto simp: maintenance_run_def Let_def split: if_splits sum.splits prod.splits dest: archive_loop_meta)

text \<open>Exit codes and the invariant of the store, command by command.\<close>

definition code_ok :: "int result \<Rightarrow> bool" where
  "code_ok r \<longleftrightarrow> (\<forall>c. r = Inr c \<longrightarrow> c \<in> {0, 1})"

lemma init_db_ok:
  "cmd_init_db U acc stats cfg schema (m, sent) = (r, m', sent') \<Longrightarrow> meta_ok m \<Longrightarrow> meta_ok m' \<and> code_ok r"
  by (auto simp: cmd_init_db_def code_ok_def Let_def inv_intros split: option.splits sum.splits prod.splits if_splits)

lemma create_admin_ok:
  "cmd_create_admin U A salt now typed choices args m = (c, m') \<Longrightarrow> meta_ok m \<Longrightarrow> meta_ok m' \<and> c \<in> {0, 1}"
  by (auto simp: cmd_create_admin_def Let_def inv_intros split: if_splits)

lemma add_router_code:
  assumes "cmd_add_router U now name ip descr disabled m = (c, m')" "meta_ok m"
  shows "meta_ok m' \<and> c \<in> {0, 1}"
  using assms add_router_ok [OF init_schema_ok [OF assms(2)], of U now name ip]
  by (auto simp: cmd_add_router_def split: prod.splits sum.splits) (metis snd_conv)+

lemma apply_retention_ok:
  "cmd_apply_retention U acc net cfg h n (m, sent) = (r, m', sent') \<Longrightarrow> meta_ok m \<Longrightarrow> meta_ok m' \<and> code_ok r"
  by (auto simp: cmd_apply_retention_def code_ok_def Let_def inv_intros split: sum.splits prod.splits)

lemma status_code: "status_report E db tbl sv = (lines, r, sv') \<Longrightarrow> code_ok r"
  by (auto simp: status_report_def code_ok_def Let_def split: prod.splits bool.splits sum.splits)

fun serves :: "command \<Rightarrow> bool" where
  "serves (Serve host port workers) = True"
| "serves cmd = False"

lemma dispatch_ok:
  assumes "dispatch E cmd st = (r, st')" "meta_ok (cl_meta st)"
  shows "meta_ok (cl_meta st') \<and> (code_ok r \<or> serves cmd) \<and> (\<exists>lines. cl_out st' = cl_out st @ lines)"
proof (cases cmd)
  case (InitDb schema)
  then show ?thesis
    using assms init_db_ok by (fastforce simp: run_init_db_def split: prod.splits sum.splits if_splits)
next
  case (CreateAdmin args)
  then show ?thesis
    using assms create_admin_ok by (fastforce simp: run_create_admin_def code_ok_def split: prod.splits)
next
  case (AddRouter name ip descr disabled)
  then show ?thesis
    using assms add_router_code by (fastforce simp: run_add_router_def code_ok_def Let_def split: prod.splits if_splits)
next
  case (ListRouters json)
  then show ?thesis using assms by (auto simp: run_list_routers_def code_ok_def Let_def inv_intros split: if_splits)
next
  case StatusOf
  then show ?thesis
    using assms status_code by (fastforce simp: run_status_def code_ok_def Let_def split: prod.splits sum.splits)
next
  case (ApplyRetention h n)
  then show ?thesis
    using assms apply_retention_ok by (fastforce simp: run_apply_retention_def split: prod.splits if_splits)
next
  case Archive
  have ok: "meta_ok (init_schema (cl_meta st))" using assms(2) by (rule init_schema_ok)
  obtain x ar where ar: "maintenance_run (ce_archive E) (ce_ping E) (ce_parts E) (ce_calls E) (ce_str_exc E) (ce_prune_fails E)
      (ce_now E) (ce_today E) \<lparr>ar_meta = init_schema (cl_meta st), ar_files = cl_files st, ar_dropped = cl_dropped st\<rparr> = (x, ar)"
    by fastforce
  show ?thesis using assms(1) maintenance_meta [OF ar] ok by (auto simp: Archive run_archive_def ar code_ok_def)
next
  case (Serve host port workers)
  then show ?thesis using assms by (auto simp: run_serve_def Let_def)
qed

section \<open>Properties\<close>


definition demo_cli_env :: cli_env where
  "demo_cli_env = \<lparr>ce_ucd = ascii_only,
     ce_cfg = \<lparr>cf_database = lit ''network_logs'', cf_table = lit ''nat_logs'', cf_hot_days = 30, cf_months = 12\<rparr>,
     ce_serve = \<lparr>sc_bind = lit ''127.0.0.1'', sc_port = 8088, sc_workers = 2\<rparr>, ce_level = lit ''INFO'', ce_schema = id,
     ce_accepts = (\<lambda>_. True), ce_net = Reply, ce_stats = Inl DbError, ce_argon = plain_argon, ce_salt = [], ce_now = [],
     ce_typed = ([], []), ce_choices = [0, 1, 2, 3, 4, 5, 6, 7, 8, 9, 10, 11], ce_dumps = (\<lambda>_. []), ce_repr = id, ce_float = (\<lambda>_. []),
     ce_server = dead_server,
     ce_archive = \<lparr>c_table = ''nat_logs'', c_drop_after = False, c_retention_months = 12, c_archive_enabled = True\<rparr>,
     ce_ping = False, ce_parts = Inr [], ce_calls = (\<lambda>_. smooth_calls 1 64), ce_str_exc = (\<lambda>_. []), ce_prune_fails = False,
     ce_today = \<lparr>d_year = 2025, d_month = 2\<rparr>, ce_uvicorn = (\<lambda>_. Inr None)\<rparr>"

definition demo_cli_state :: cli_state where
  "demo_cli_state = \<lparr>cl_meta = empty_meta, cl_sent = [], cl_files = [], cl_dropped = [], cl_out = [], cl_served = []\<rparr>"


text \<open>Also (install_password): The installer can rely on create-admin --random: for a new user it exits with 0, prints, log lines apart, just the generated password, exactly this password verifies against the stored hash, and it has to be changed.\<close>

theorem install_password:
  assumes "argon_lib (ce_argon E)" and "get_user (a_username args) (cl_meta st) = None"
    and "a_password args = None" and "a_random args"
    and "cli_main E True (Some (CreateAdmin args)) st = (code, st')"
  shows "code = 0 \<and> cl_out st' = cl_out st @ [generate_password (ce_choices E)]
    \<and> (\<exists>u. get_user (a_username args) (cl_meta st') = Some u \<and> must_change u \<noteq> 0
        \<and> (\<forall>p. verify_password (ce_argon E) (password_hash u) p = (p = generate_password (ce_choices E))))"
proof -
  let ?h = "hash_password (ce_argon E) (ce_salt E) (generate_password (ce_choices E))"
  have none: "get_user (a_username args) (init_schema (cl_meta st)) = None" using assms(2) by simp
  have v: "verify_password (ce_argon E) ?h p = (p = generate_password (ce_choices E))" for p
    by (simp add: verify_password_def hash_password_def argon_lib.verify_law [OF assms(1)])
  have st': "code = 0" "cl_out st' = cl_out st @ [generate_password (ce_choices E)]"
    "cl_meta st' = snd (create_user (ce_now E) (a_username args) ?h True (init_schema (cl_meta st)))"
    using assms(2-5)
    by (auto simp: cli_main_def run_create_admin_def cmd_create_admin_def admin_says_def admin_password_def Let_def)
  show ?thesis
    using get_user_create(1) [OF none, of "ce_now E" ?h True] st' v by auto
qed

text \<open>Also (forced_random_unmarked): Resetting an existing account with --random --force leaves it with a generated password that need not be changed, although a generated one for a new account has to be: set_password clears the mark.\<close>

theorem forced_random_unmarked:
  assumes "get_user (a_username args) (cl_meta st) \<noteq> None" and "a_password args = None" and "a_random args" and "a_force args"
    and "cli_main E True (Some (CreateAdmin args)) st = (code, st')"
  shows "code = 0 \<and> cl_out st' = cl_out st @ [generate_password (ce_choices E)]
    \<and> (\<exists>u. get_user (a_username args) (cl_meta st') = Some u \<and> must_change u = 0
        \<and> password_hash u = hash_password (ce_argon E) (ce_salt E) (generate_password (ce_choices E)))"
  using assms
  by (auto simp: cli_main_def run_create_admin_def cmd_create_admin_def admin_says_def admin_password_def
      get_user_set_password Let_def)

text \<open>Also (commas_read_back): The row counts that init-db and status print are the numbers they count: without its separators the printed text is the number.\<close>

theorem commas_read_back:
  "filter (\<lambda>c. c \<noteq> 44) (with_commas n) = py_str_int n"
proof -
  have digits: "py_str_nat n = py_str_nat (n div 1000) @ three_digits (n mod 1000)" if "1000 \<le> n" for n
  proof -
    have step: "py_str_nat m = py_str_nat (m div 10) @ [48 + m mod 10]" if "\<not> m < 10" for m
      using that by (subst py_str_nat.simps) simp
    have hundred: "100 \<le> n div 10" using div_le_mono [OF that, of 10] by simp
    then have "10 \<le> n div 10 div 10" using div_le_mono [OF hundred, of 10] by simp
    with hundred that have "\<not> n < 10" "\<not> n div 10 < 10" "\<not> n div 10 div 10 < 10" by linarith+
    note this [THEN step]
    then have "py_str_nat n = ((py_str_nat (n div 10 div 10 div 10) @ [48 + n div 10 div 10 mod 10]) @ [48 + n div 10 mod 10]) @ [48 + n mod 10]"
      by (simp only:)
    moreover have "n div 10 div 10 div 10 = n div 1000" by (simp flip: div_mult2_eq)
    moreover have "n mod 1000 div 100 mod 10 = n div 10 div 10 mod 10"
      using mod_mult2_eq [of n 100 10] by (simp flip: div_mult2_eq)
    moreover have "n mod 1000 div 10 mod 10 = n div 10 mod 10"
      using mod_mult2_eq [of n 10 100] by (simp add: mod_mod_cancel)
    moreover have "n mod 1000 mod 10 = n mod 10" by (simp add: mod_mod_cancel)
    ultimately show ?thesis unfolding three_digits_def by simp
  qed
  have no: "44 \<notin> set (py_str_nat n)" for n
    using py_str_nat_digits [of 44 n] by (auto simp: is_ascii_digit_def)
  then have keep: "filter (\<lambda>c. c \<noteq> 44) (py_str_nat n) = py_str_nat n" for n
    by (metis (mono_tags, lifting) filter_True)
  have three: "filter (\<lambda>c. c \<noteq> 44) (three_digits n) = three_digits n" for n by (simp add: three_digits_def)
  have "filter (\<lambda>c. c \<noteq> 44) (grouped n) = py_str_nat n" for n
  proof (induction n rule: grouped.induct)
    case (1 n)
    then show ?case
      using digits [of n] by (subst grouped.simps) (simp add: keep three)
  qed
  then show ?thesis by (simp add: with_commas_def py_str_int_def)
qed

end
