(* ===== verification/Cli_Args.thy ===== *)
theory Cli_Args
  imports Cli_Main
begin

text \<open>
  The command line of \<open>backend/app/cli.py\<close>: \<open>build_parser\<close> as a table, and what \<open>argparse\<close> makes of a list of
  arguments with it, as far as the table uses it: options with one value, flags, positional arguments, abbreviations, \<open>--\<close>,
  negative numbers. An argument \<open>--\<close> in front of the subcommand or after the first \<open>--\<close> is outside of the model: versions of
  Python differ there.
\<close>

section \<open>The table\<close>

datatype opt_kind = HelpOption | TextOption | IntOption | FlagOption

type_synonym options = "(pystr \<times> opt_kind) list"

definition help_options :: options where
  "help_options = [(lit ''-h'', HelpOption), (lit ''--help'', HelpOption)]"

text \<open>The subcommands: the number of positional arguments and the options.\<close>

definition subparsers :: "(pystr \<times> nat \<times> options) list" where
  "subparsers =
     [(lit ''init-db'', 0, help_options @ [(lit ''--schema'', TextOption)]),
      (lit ''create-admin'', 1, help_options @ [(lit ''--password'', TextOption), (lit ''--random'', FlagOption), (lit ''--force'', FlagOption)]),
      (lit ''add-router'', 2, help_options @ [(lit ''--description'', TextOption), (lit ''--disabled'', FlagOption)]),
      (lit ''list-routers'', 0, help_options @ [(lit ''--json'', FlagOption)]),
      (lit ''status'', 0, help_options),
      (lit ''apply-retention'', 0, help_options @ [(lit ''--hot-days'', IntOption), (lit ''--retention-months'', IntOption)]),
      (lit ''archive'', 0, help_options),
      (lit ''serve'', 0, help_options @ [(lit ''--host'', TextOption), (lit ''--port'', IntOption), (lit ''--workers'', IntOption)])]"

section \<open>What an argument is\<close>

text \<open>An option in an argument: its kind, \<open>None\<close> when there is no such option, and the text given with it.\<close>

datatype given = Alone | Equals pystr | Glued pystr

datatype token = Operand pystr | DashDash | OptTok pystr "opt_kind option" given

definition starts_with :: "pystr \<Rightarrow> pystr \<Rightarrow> bool" where
  "starts_with p s \<longleftrightarrow> take (length p) s = p"

text \<open>\<open>s.partition("=")\<close>: what comes before, and what comes after if there is one.\<close>

definition partition_eq :: "pystr \<Rightarrow> pystr \<times> pystr option" where
  "partition_eq s =
     (let key = takeWhile (\<lambda>c. c \<noteq> 61) s; rest = dropWhile (\<lambda>c. c \<noteq> 61) s
      in (key, if rest = [] then None else Some (tl rest)))"

text \<open>\<open>_get_option_tuples\<close>.\<close>

definition option_tuples :: "options \<Rightarrow> pystr \<Rightarrow> token list" where
  "option_tuples opts s =
     (if starts_with [45, 45] s then
        (let (prefix, explicit) = partition_eq s
         in map (\<lambda>(name, kind). OptTok name (Some kind) (case explicit of None \<Rightarrow> Alone | Some v \<Rightarrow> Equals v))
              (filter (\<lambda>(name, kind). starts_with prefix name) opts))
      else
        List.map_filter (\<lambda>(name, kind).
            if name = take 2 s then Some (OptTok name (Some kind) (Glued (drop 2 s)))
            else if starts_with s name then Some (OptTok name (Some kind) Alone) else None) opts)"

text \<open>\<open>^-\d+$|^-\d*\.\d+$\<close>.\<close>

definition negative_number :: "ucd \<Rightarrow> pystr \<Rightarrow> bool" where
  "negative_number U s =
     (let body = (if s \<noteq> [] \<and> last s = 10 then butlast s else s); ds = tl body;
          whole = takeWhile (is_decimal U) ds; rest = dropWhile (is_decimal U) ds
      in body \<noteq> [] \<and> hd body = 45
         \<and> ((ds \<noteq> [] \<and> rest = []) \<or> (rest \<noteq> [] \<and> hd rest = 46 \<and> tl rest \<noteq> [] \<and> list_all (is_decimal U) (tl rest))))"

text \<open>\<open>_parse_optional\<close>; \<open>None\<close> is an ambiguous abbreviation, which ends the program.\<close>

definition classify :: "ucd \<Rightarrow> options \<Rightarrow> pystr \<Rightarrow> token option" where
  "classify U opts s =
     (if s = [] \<or> hd s \<noteq> 45 then Some (Operand s)
      else
        (case map_of opts s of
           Some kind \<Rightarrow> Some (OptTok s (Some kind) Alone)
         | None \<Rightarrow>
             if length s = 1 then Some (Operand s)
             else
               (case partition_eq s of
                  (key, explicit) \<Rightarrow>
                    if explicit \<noteq> None \<and> map_of opts key \<noteq> None
                    then Some (OptTok key (map_of opts key) (Equals (the explicit)))
                    else
                      (case option_tuples opts s of
                         [] \<Rightarrow> if negative_number U s \<or> 32 \<in> set s then Some (Operand s) else Some (OptTok s None Alone)
                       | [t] \<Rightarrow> Some t
                       | _ \<Rightarrow> None))))"

fun tokens :: "ucd \<Rightarrow> options \<Rightarrow> pystr list \<Rightarrow> token list option" where
  "tokens U opts [] = Some []"
| "tokens U opts (s # ss) =
     (if s = [45, 45] then Some (DashDash # map Operand ss)
      else (case classify U opts s of
              None \<Rightarrow> None
            | Some t \<Rightarrow> map_option ((#) t) (tokens U opts ss)))"

section \<open>Parsing\<close>

datatype arg_value = TextValue pystr | IntValue int | FlagValue

type_synonym arg_values = "(pystr \<times> arg_value) list"

text \<open>Help was asked for (exit code 0), the line is refused (exit code 2), or the values.\<close>

datatype 'a line = Help | Refused_line | Line 'a

fun is_opt :: "token \<Rightarrow> bool" where
  "is_opt (OptTok name kind gv) = True"
| "is_opt t = False"

fun skip_dash :: "token list \<Rightarrow> token list" where
  "skip_dash (DashDash # ts) = ts"
| "skip_dash ts = ts"

fun take_positionals :: "nat \<Rightarrow> token list \<Rightarrow> pystr list \<times> token list" where
  "take_positionals 0 ts = ([], ts)"
| "take_positionals (Suc n) ts =
     (case skip_dash ts of
        Operand s # rest \<Rightarrow> (case take_positionals n (skip_dash rest) of (vs, rest) \<Rightarrow> (s # vs, rest))
      | _ \<Rightarrow> ([], ts))"

text \<open>Letters glued to \<open>-h\<close>: \<open>True\<close> when help is shown, \<open>False\<close> for an error.\<close>

fun glued_help :: "bool \<Rightarrow> pystr \<Rightarrow> bool" where
  "glued_help eq [] = False"
| "glued_help eq (c # cs) =
     (if eq \<or> c = 45 then False
      else if c = 104 then (case cs of [] \<Rightarrow> True | d # ds \<Rightarrow> if d = 61 then glued_help True ds else glued_help False (d # ds))
      else True)"

definition convert :: "ucd \<Rightarrow> opt_kind \<Rightarrow> pystr \<Rightarrow> arg_value option" where
  "convert U kind s =
     (if kind = IntOption then (case int_of_text U s of Inl _ \<Rightarrow> None | Inr n \<Rightarrow> Some (IntValue n)) else Some (TextValue s))"

text \<open>\<open>consume_optional\<close>: the value it gives, and what is left; \<open>extras\<close> when the option is unknown.\<close>

datatype consumed = Shows_help | Is_wrong | Is_extra | Gives pystr arg_value nat

definition consume_optional :: "ucd \<Rightarrow> pystr \<Rightarrow> opt_kind option \<Rightarrow> given \<Rightarrow> token list \<Rightarrow> consumed" where
  "consume_optional U name kind gv rest =
     (case kind of
        None \<Rightarrow> Is_extra
      | Some HelpOption \<Rightarrow>
          (case gv of Alone \<Rightarrow> Shows_help | Equals v \<Rightarrow> Is_wrong
           | Glued v \<Rightarrow> if glued_help False v then Shows_help else Is_wrong)
      | Some FlagOption \<Rightarrow> (case gv of Alone \<Rightarrow> Gives name FlagValue 0 | _ \<Rightarrow> Is_wrong)
      | Some k \<Rightarrow>
          (case gv of
             Alone \<Rightarrow> (case rest of
                 Operand s # _ \<Rightarrow> (case convert U k s of None \<Rightarrow> Is_wrong | Some v \<Rightarrow> Gives name v 1)
               | _ \<Rightarrow> Is_wrong)
           | Equals s \<Rightarrow> (case convert U k s of None \<Rightarrow> Is_wrong | Some v \<Rightarrow> Gives name v 0)
           | Glued s \<Rightarrow> (case convert U k s of None \<Rightarrow> Is_wrong | Some v \<Rightarrow> Gives name v 0)))"

text \<open>
  The loop of \<open>_parse_known_args\<close> over the rest of the tokens: \<open>n\<close> positional arguments are still missing, \<open>extras\<close> says
  whether something was left over.
\<close>

lemma skip_dash_shorter: "length (skip_dash ts) \<le> length ts"
  by (cases ts rule: skip_dash.cases) auto

lemma take_positionals_shorter: "length (snd (take_positionals n ts)) \<le> length ts"
proof (induction n ts rule: take_positionals.induct)
  case (2 n ts)
  show ?case
  proof (cases "\<exists>s rest. skip_dash ts = Operand s # rest")
    case True
    then obtain s rest where s: "skip_dash ts = Operand s # rest" by blast
    have "length (snd (take_positionals n (skip_dash rest))) \<le> length rest"
      using "2.IH" [OF s refl] skip_dash_shorter [of rest] by linarith
    then show ?thesis
      using skip_dash_shorter [of ts] by (cases "take_positionals n (skip_dash rest)") (simp add: s)
  qed (auto split: list.splits token.splits)
qed simp

function parse_loop ::
    "ucd \<Rightarrow> token list \<Rightarrow> nat \<Rightarrow> bool \<Rightarrow> pystr list \<Rightarrow> arg_values \<Rightarrow> (pystr list \<times> arg_values) line" where
  "parse_loop U ts n extras vs opts =
     (if list_ex is_opt ts then
        (case ts of
           OptTok name kind gv # rest \<Rightarrow>
             (case consume_optional U name kind gv rest of
                Shows_help \<Rightarrow> Help
              | Is_wrong \<Rightarrow> Refused_line
              | Is_extra \<Rightarrow> parse_loop U rest n True vs opts
              | Gives dest v k \<Rightarrow> parse_loop U (drop k rest) n extras vs (dict_set opts dest v))
         | _ \<Rightarrow>
             (case take_positionals n ts of
                (ws, rest) \<Rightarrow>
                  if length rest < length ts then parse_loop U rest (n - length ws) extras (vs @ ws) opts
                  else parse_loop U (dropWhile (\<lambda>t. \<not> is_opt t) ts) n True vs opts))
      else
        (case take_positionals n ts of
           (ws, rest) \<Rightarrow>
             if length ws < n \<or> extras \<or> rest \<noteq> [] then Refused_line else Line (vs @ ws, opts)))"
  by pat_completeness auto


termination
  by (relation "measure (\<lambda>(U, ts, n, extras, vs, opts). length ts)")
    (auto intro: le_imp_less_Suc length_dropWhile_le)

declare parse_loop.simps [simp del]

section \<open>The command\<close>

definition text_option :: "arg_values \<Rightarrow> string \<Rightarrow> pystr option" where
  "text_option opts name = (case map_of opts (lit name) of Some (TextValue t) \<Rightarrow> Some t | _ \<Rightarrow> None)"

definition int_option :: "arg_values \<Rightarrow> string \<Rightarrow> int option" where
  "int_option opts name = (case map_of opts (lit name) of Some (IntValue n) \<Rightarrow> Some n | _ \<Rightarrow> None)"

definition flag_option :: "arg_values \<Rightarrow> string \<Rightarrow> bool" where
  "flag_option opts name \<longleftrightarrow> map_of opts (lit name) \<noteq> None"

definition command_of :: "pystr \<Rightarrow> pystr list \<Rightarrow> arg_values \<Rightarrow> command" where
  "command_of name vs opts =
     (if name = lit ''init-db'' then InitDb (text_option opts ''--schema'')
      else if name = lit ''create-admin'' then
        CreateAdmin \<lparr>a_username = vs ! 0, a_password = text_option opts ''--password'', a_random = flag_option opts ''--random'',
                     a_force = flag_option opts ''--force''\<rparr>
      else if name = lit ''add-router'' then
        AddRouter (vs ! 0) (vs ! 1) (text_option opts ''--description'') (flag_option opts ''--disabled'')
      else if name = lit ''list-routers'' then ListRouters (flag_option opts ''--json'')
      else if name = lit ''status'' then StatusOf
      else if name = lit ''apply-retention'' then
        ApplyRetention (int_option opts ''--hot-days'') (int_option opts ''--retention-months'')
      else if name = lit ''archive'' then Archive
      else Serve (text_option opts ''--host'') (int_option opts ''--port'') (int_option opts ''--workers''))"

definition parse_subcommand :: "ucd \<Rightarrow> pystr \<Rightarrow> pystr list \<Rightarrow> command line" where
  "parse_subcommand U name args =
     (case map_of subparsers name of
        None \<Rightarrow> Refused_line
      | Some (n, opts) \<Rightarrow>
          (case tokens U opts args of
             None \<Rightarrow> Refused_line
           | Some ts \<Rightarrow>
               (case parse_loop U ts n False [] [] of
                  Help \<Rightarrow> Help
                | Refused_line \<Rightarrow> Refused_line
                | Line (vs, values) \<Rightarrow> Line (command_of name vs values))))"

text \<open>
  The parser in front knows \<open>-h\<close> and \<open>--help\<close> only; an option it does not know is refused once the subcommand has parsed
  the rest, which may still ask for help.
\<close>

fun parse_args :: "ucd \<Rightarrow> pystr list \<Rightarrow> command line" where
  "parse_args U [] = Refused_line"
| "parse_args U (a # args) =
     (case classify U help_options a of
        Some (OptTok name kind gv) \<Rightarrow>
          (case consume_optional U name kind gv [] of
             Shows_help \<Rightarrow> Help
           | Is_extra \<Rightarrow> (case parse_args U args of Help \<Rightarrow> Help | _ \<Rightarrow> Refused_line)
           | _ \<Rightarrow> Refused_line)
      | _ \<Rightarrow> parse_subcommand U a args)"

text \<open>\<open>nls-admin\<close> with its arguments: the exit code and the state.\<close>

definition nls_admin :: "cli_env \<Rightarrow> bool \<Rightarrow> pystr list \<Rightarrow> cli_state \<Rightarrow> int \<times> cli_state" where
  "nls_admin E ready argv st =
     (case parse_args (ce_ucd E) argv of
        Help \<Rightarrow> (0, st)
      | Refused_line \<Rightarrow> cli_main E ready None st
      | Line cmd \<Rightarrow> cli_main E ready (Some cmd) st)"

section \<open>Writing a command down\<close>

definition text_arg :: "string \<Rightarrow> pystr option \<Rightarrow> pystr list" where
  "text_arg name x = (case x of None \<Rightarrow> [] | Some t \<Rightarrow> [lit name @ 61 # t])"

definition int_arg :: "string \<Rightarrow> int option \<Rightarrow> pystr list" where
  "int_arg name x = text_arg name (map_option py_str_int x)"

definition flag_arg :: "string \<Rightarrow> bool \<Rightarrow> pystr list" where
  "flag_arg name b = (if b then [lit name] else [])"

fun command_line :: "command \<Rightarrow> pystr list" where
  "command_line (InitDb schema) = lit ''init-db'' # text_arg ''--schema'' schema"
| "command_line (CreateAdmin args) =
     lit ''create-admin'' # text_arg ''--password'' (a_password args) @ flag_arg ''--random'' (a_random args)
       @ flag_arg ''--force'' (a_force args) @ [[45, 45], a_username args]"
| "command_line (AddRouter name ip descr disabled) =
     lit ''add-router'' # text_arg ''--description'' descr @ flag_arg ''--disabled'' disabled @ [[45, 45], name, ip]"
| "command_line (ListRouters json) = lit ''list-routers'' # flag_arg ''--json'' json"
| "command_line StatusOf = [lit ''status'']"
| "command_line (ApplyRetention hot months) = lit ''apply-retention'' # int_arg ''--hot-days'' hot @ int_arg ''--retention-months'' months"
| "command_line Archive = [lit ''archive'']"
| "command_line (Serve host port workers) = lit ''serve'' # text_arg ''--host'' host @ int_arg ''--port'' port @ int_arg ''--workers'' workers"

section \<open>Lemmas\<close>

definition options_of :: "string \<Rightarrow> options" where
  "options_of name = (case map_of subparsers (lit name) of None \<Rightarrow> [] | Some (n, opts) \<Rightarrow> opts)"

lemma option_tables:
  "map_of subparsers (lit ''init-db'') = Some (0, options_of ''init-db'')"
  "map_of subparsers (lit ''create-admin'') = Some (1, options_of ''create-admin'')"
  "map_of subparsers (lit ''add-router'') = Some (2, options_of ''add-router'')"
  "map_of subparsers (lit ''list-routers'') = Some (0, options_of ''list-routers'')"
  "map_of subparsers (lit ''status'') = Some (0, options_of ''status'')"
  "map_of subparsers (lit ''apply-retention'') = Some (0, options_of ''apply-retention'')"
  "map_of subparsers (lit ''archive'') = Some (0, options_of ''archive'')"
  "map_of subparsers (lit ''serve'') = Some (0, options_of ''serve'')"
  by code_simp+

lemma option_kinds:
  "map_of (options_of ''init-db'') (lit ''--schema'') = Some TextOption"
  "map_of (options_of ''create-admin'') (lit ''--password'') = Some TextOption"
  "map_of (options_of ''create-admin'') (lit ''--random'') = Some FlagOption"
  "map_of (options_of ''create-admin'') (lit ''--force'') = Some FlagOption"
  "map_of (options_of ''add-router'') (lit ''--description'') = Some TextOption"
  "map_of (options_of ''add-router'') (lit ''--disabled'') = Some FlagOption"
  "map_of (options_of ''list-routers'') (lit ''--json'') = Some FlagOption"
  "map_of (options_of ''apply-retention'') (lit ''--hot-days'') = Some IntOption"
  "map_of (options_of ''apply-retention'') (lit ''--retention-months'') = Some IntOption"
  "map_of (options_of ''serve'') (lit ''--host'') = Some TextOption"
  "map_of (options_of ''serve'') (lit ''--port'') = Some IntOption"
  "map_of (options_of ''serve'') (lit ''--workers'') = Some IntOption"
  by code_simp+

lemma no_command_is_an_option:
  "(n, x) \<in> set subparsers \<Longrightarrow> n \<noteq> [] \<and> hd n \<noteq> 45"
  by (auto simp: subparsers_def lit_def)

text \<open>An option of a table: it starts with a dash, and holds no equals sign.\<close>

lemma option_names:
  assumes "map_of subparsers c = Some (n, opts)" "map_of opts o1 = Some k"
  shows "61 \<notin> set o1 \<and> o1 \<noteq> [] \<and> hd o1 = 45 \<and> o1 \<noteq> [45, 45]"
proof -
  have all: "list_all (\<lambda>(c, n, opts). list_all (\<lambda>(o1, k). 61 \<notin> set o1 \<and> o1 \<noteq> [] \<and> hd o1 = 45 \<and> o1 \<noteq> [45, 45]) opts) subparsers"
    by code_simp
  have "(c, n, opts) \<in> set subparsers" "(o1, k) \<in> set opts" using assms by (auto dest: map_of_SomeD)
  then show ?thesis using all by (fastforce simp: list_all_iff)
qed

lemma partition_eq_at: "61 \<notin> set s \<Longrightarrow> partition_eq (s @ 61 # t) = (s, Some t)"
  by (auto simp: partition_eq_def Let_def takeWhile_append dropWhile_append)

lemma token_alone:
  assumes table: "map_of subparsers c = Some (n, opts)" and opt: "map_of opts o1 = Some k"
  shows "tokens U opts (o1 # ss) = map_option ((#) (OptTok o1 (Some k) Alone)) (tokens U opts ss)"
  using option_names [OF table opt] opt by (simp add: classify_def)

lemma token_equals:
  assumes table: "map_of subparsers c = Some (n, opts)" and opt: "map_of opts o1 = Some k"
  shows "tokens U opts ((o1 @ 61 # t) # ss) = map_option ((#) (OptTok o1 (Some k) (Equals t))) (tokens U opts ss)"
proof -
  have "map_of opts (o1 @ 61 # t) = None"
    using option_names [OF table, of "o1 @ 61 # t"] by (cases "map_of opts (o1 @ 61 # t)") auto
  moreover have "o1 @ 61 # t \<noteq> [45, 45]" by (auto simp: append_eq_Cons_conv)
  moreover have "hd (o1 @ 61 # t) = 45" "length (o1 @ 61 # t) \<noteq> 1" using option_names [OF table opt] by auto
  ultimately show ?thesis
    using option_names [OF table opt] opt by (simp add: classify_def partition_eq_at)
qed

lemma classify_plain: "s = [] \<or> hd s \<noteq> 45 \<Longrightarrow> classify U opts s = Some (Operand s)"
  by (simp add: classify_def)

lemma parse_args_subcommand:
  assumes "map_of subparsers c = Some x"
  shows "parse_args U (c # args) = parse_subcommand U c args"
  using no_command_is_an_option [OF map_of_SomeD [OF assms]] by (simp add: classify_plain)

text \<open>Steps of the loop.\<close>

lemma parse_steps:
  "parse_loop U (OptTok o1 (Some TextOption) (Equals t) # ts) n x vs opts = parse_loop U ts n x vs (dict_set opts o1 (TextValue t))"
  "parse_loop U (OptTok o1 (Some IntOption) (Equals (py_str_int i)) # ts) n x vs opts
    = parse_loop U ts n x vs (dict_set opts o1 (IntValue i))"
  "parse_loop U (OptTok o1 (Some FlagOption) Alone # ts) n x vs opts = parse_loop U ts n x vs (dict_set opts o1 FlagValue)"
  by (subst parse_loop.simps, simp add: consume_optional_def convert_def int_of_text_str)+

lemma parse_ends:
  "parse_loop U [] 0 False vs opts = Line (vs, opts)"
  "parse_loop U [DashDash, Operand a] (Suc 0) False [] opts = Line ([a], opts)"
  "parse_loop U [DashDash, Operand a, Operand b] 2 False [] opts = Line ([a, b], opts)"
  by (simp_all add: parse_loop.simps numeral_2_eq_2)

lemma argument_after_dashes: "tokens U opts ([45, 45] # ss) = Some (DashDash # map Operand ss)"
  by simp

lemmas command_tokens =
  token_equals [OF option_tables(1) option_kinds(1)] token_equals [OF option_tables(2) option_kinds(2)]
  token_alone [OF option_tables(2) option_kinds(3)] token_alone [OF option_tables(2) option_kinds(4)]
  token_equals [OF option_tables(3) option_kinds(5)] token_alone [OF option_tables(3) option_kinds(6)]
  token_alone [OF option_tables(4) option_kinds(7)]
  token_equals [OF option_tables(6) option_kinds(8)] token_equals [OF option_tables(6) option_kinds(9)]
  token_equals [OF option_tables(8) option_kinds(10)] token_equals [OF option_tables(8) option_kinds(11)]
  token_equals [OF option_tables(8) option_kinds(12)] argument_after_dashes tokens.simps(1)

lemma lit_eq: "lit a = lit b \<longleftrightarrow> a = b"
  by (simp add: lit_def inj_map_eq_map inj_of_char)

lemmas command_values = command_of_def text_option_def int_option_def flag_option_def lit_eq

lemmas command_args = text_arg_def int_arg_def flag_arg_def

lemmas command_line_simps =
  parse_args_subcommand option_tables parse_subcommand_def command_args command_tokens parse_steps parse_ends command_values

text \<open>The positional arguments of a command.\<close>

definition positionals :: "command \<Rightarrow> pystr list" where
  "positionals cmd =
     (case cmd of CreateAdmin args \<Rightarrow> [a_username args] | AddRouter name ip descr disabled \<Rightarrow> [name, ip] | _ \<Rightarrow> [])"

text \<open>An argument that begins with a dash is an option, unless it looks like a negative number or holds a space.\<close>

lemma option_tuples_are_options: "t \<in> set (option_tuples opts s) \<Longrightarrow> is_opt t"
proof -
  have "y \<in> set (List.map_filter f xs) \<longleftrightarrow> (\<exists>x \<in> set xs. f x = Some y)" for f and xs :: options and y :: token
    by (induction xs) (auto simp: map_filter_simps split: option.splits)
  then show "t \<in> set (option_tuples opts s) \<Longrightarrow> is_opt t"
    by (auto simp: option_tuples_def Let_def case_prod_beta split: if_splits)
qed

lemma dash_is_option:
  assumes "classify U opts s = Some t" "hd s = 45" "1 < length s" "\<not> negative_number U s" "32 \<notin> set s"
  shows "is_opt t"
  using assms option_tuples_are_options [of t opts s]
  by (auto simp: classify_def split: option.splits prod.splits if_splits list.splits)

lemma value_refused:
  assumes "\<exists>t ts'. ts = t # ts' \<and> (is_opt t \<or> t = DashDash)"
  shows "parse_loop U (OptTok o1 (Some TextOption) Alone # ts) n x vs opts = Refused_line"
  using assms by (subst parse_loop.simps) (auto simp: consume_optional_def elim!: is_opt.elims)

section \<open>Properties\<close>

text \<open>C37 (command_line_roundtrip): Every command can be written down as a command line, options first, each with its value behind an equals sign, and positional arguments after two dashes; whatever text the values hold, leading dashes and spaces included, parsing gives the same command back, so nls-admin does what that command does.\<close>

theorem command_line_roundtrip:
  assumes "[45, 45] \<notin> set (positionals cmd)"
  shows "parse_args U (command_line cmd) = Line cmd \<and> nls_admin E ready (command_line cmd) st = cli_main E ready (Some cmd) st"
proof -
  note [simp del] = tokens.simps parse_args.simps lit_simps
  have "parse_args U (command_line cmd) = Line cmd" for U
  proof (cases cmd)
    case (InitDb x) then show ?thesis by (cases x) (simp_all add: command_line_simps)
  next
    case (CreateAdmin args) then show ?thesis
      by (cases args; cases "a_password args"; cases "a_random args"; cases "a_force args") (simp_all add: command_line_simps)
  next
    case (AddRouter name ip descr disabled) then show ?thesis by (cases descr; cases disabled) (simp_all add: command_line_simps)
  next
    case (ListRouters json) then show ?thesis by (cases json) (simp_all add: command_line_simps)
  next
    case StatusOf then show ?thesis by (simp add: command_line_simps)
  next
    case (ApplyRetention h m) then show ?thesis by (cases h; cases m) (simp_all add: command_line_simps)
  next
    case Archive then show ?thesis by (simp add: command_line_simps)
  next
    case (Serve h p w) then show ?thesis by (cases h; cases p; cases w) (simp_all add: command_line_simps)
  qed
  then show ?thesis by (simp add: nls_admin_def)
qed

definition demo_serve :: command where
  "demo_serve = Serve (Some (lit ''0.0.0.0'')) (Some 9000) None"

definition demo_add :: command where
  "demo_add = AddRouter (lit ''-edge'') (lit ''10.0.0.1'') (Some (lit ''-'')) True"

theorem command_line_roundtrip_witness:
  "parse_args ascii_only (command_line demo_add) = Line demo_add
   \<and> command_line demo_serve = [lit ''serve'', lit ''--host=0.0.0.0'', lit ''--port=9000'']"
  using command_line_roundtrip [of demo_add ascii_only demo_cli_env True demo_cli_state]
  by (simp add: demo_add_def demo_serve_def positionals_def text_arg_def int_arg_def py_str_int_def py_str_nat.simps)

text \<open>The command line of \<open>docker/entrypoint.sh\<close>, with the password as an argument of its own.\<close>

definition entrypoint_args :: "pystr \<Rightarrow> pystr list" where
  "entrypoint_args p = [lit ''create-admin'', lit ''admin'', lit ''--password'', p]"

lemma admin_first:
  "take_positionals (Suc 0) (Operand a # OptTok o1 k gv # ts) = ([a], OptTok o1 k gv # ts)"
  by simp

lemma entrypoint_loop:
  "parse_loop U (Operand a # OptTok o1 (Some TextOption) Alone # ts) (Suc 0) False [] []
    = parse_loop U (OptTok o1 (Some TextOption) Alone # ts) 0 False [a] []"
  by (subst parse_loop.simps) (simp add: admin_first)

text \<open>Also (entrypoint_password): The command line of the container's entry point, which gives the password as an argument of its own, creates the account with that password as long as it does not begin with a dash; one that begins with a dash, holds no space and is no negative number is refused, with exit code 2 and nothing done.\<close>

theorem entrypoint_password:
  "(p = [] \<or> hd p \<noteq> 45 \<longrightarrow>
      parse_args U (entrypoint_args p)
        = Line (CreateAdmin \<lparr>a_username = lit ''admin'', a_password = Some p, a_random = False, a_force = False\<rparr>))
   \<and> (1 < length p \<and> hd p = 45 \<and> \<not> negative_number (ce_ucd E) p \<and> 32 \<notin> set p \<longrightarrow>
      nls_admin E ready (entrypoint_args p) st = (2, st))"
proof (intro conjI impI)
  have admin: "lit ''admin'' \<noteq> [45, 45]" "classify V opts (lit ''admin'') = Some (Operand (lit ''admin''))" for V opts
    by (simp_all add: classify_plain)
  have ts: "tokens V (options_of ''create-admin'') (tl (entrypoint_args p))
      = map_option (\<lambda>ts. Operand (lit ''admin'') # OptTok (lit ''--password'') (Some TextOption) Alone # ts)
          (tokens V (options_of ''create-admin'') [p])" for V
    using admin token_alone [OF option_tables(2) option_kinds(2)]
    by (simp add: entrypoint_args_def option.map_comp comp_def del: lit_simps)
  have sub: "parse_args V (entrypoint_args p) = parse_subcommand V (lit ''create-admin'') (tl (entrypoint_args p))" for V
    using parse_args_subcommand [OF option_tables(2)] by (simp add: entrypoint_args_def del: lit_simps parse_args.simps)
  note [simp del] = tokens.simps parse_args.simps lit_simps
  { assume "p = [] \<or> hd p \<noteq> 45"
    then have "tokens U (options_of ''create-admin'') [p] = Some [Operand p]" by (auto simp: tokens.simps classify_plain)
    then show "parse_args U (entrypoint_args p)
        = Line (CreateAdmin \<lparr>a_username = lit ''admin'', a_password = Some p, a_random = False, a_force = False\<rparr>)"
      by (simp add: sub ts parse_subcommand_def option_tables entrypoint_loop)
        (simp add: parse_loop.simps consume_optional_def convert_def command_values) }
  assume p: "1 < length p \<and> hd p = 45 \<and> \<not> negative_number (ce_ucd E) p \<and> 32 \<notin> set p"
  let ?ts = "tokens (ce_ucd E) (options_of ''create-admin'') [p]"
  have "?ts = None \<or> (\<exists>t. ?ts = Some [t] \<and> (is_opt t \<or> t = DashDash))"
    using p dash_is_option by (auto simp: tokens.simps split: option.splits)
  then have "parse_args (ce_ucd E) (entrypoint_args p) = Refused_line"
    using value_refused by (auto simp: sub ts parse_subcommand_def option_tables entrypoint_loop)
  then show "nls_admin E ready (entrypoint_args p) st = (2, st)" by (simp add: nls_admin_def cli_main_def)
qed

end
