(* ===== verification/Service_Setup.thy ===== *)
theory Service_Setup
  imports Config
begin

text \<open>
  What every service does with its configuration before it runs: \<open>setup_logging\<close> of \<open>backend/app/logging_setup.py\<close> and the
  two functions \<open>build_client\<close>, of \<open>queue/redis_queue.py\<close> and \<open>database/clickhouse.py\<close>. The libraries they set up are not
  part of the repository; what is modelled are the settings they are given.
\<close>

section \<open>Logging\<close>

datatype handler = ToStdout | ToFile pystr pystr int int

text \<open>The state of the logging library: the root logger and the levels of the named ones.\<close>

record logging =
  lg_level :: int
  lg_handlers :: "handler list"
  lg_named :: "pystr \<Rightarrow> int option"
  lg_warnings :: nat

text \<open>The attributes of the module that are levels.\<close>

definition logging_level :: "pystr \<Rightarrow> int option" where
  "logging_level = map_of [(lit ''DEBUG'', 10), (lit ''INFO'', 20), (lit ''WARNING'', 30), (lit ''WARN'', 30), (lit ''ERROR'', 40),
     (lit ''CRITICAL'', 50), (lit ''FATAL'', 50), (lit ''NOTSET'', 0)]"

definition NOISY :: "pystr list" where
  "NOISY = map lit [''urllib3'', ''clickhouse_connect'', ''asyncio'']"

text \<open>\<open>dir_ok\<close> and \<open>file_ok\<close>: the directory can be made, the file can be opened. Both may raise \<open>OSError\<close>.\<close>

definition file_handler :: "bool \<Rightarrow> bool \<Rightarrow> Config \<Rightarrow> pystr \<Rightarrow> handler result" where
  "file_handler dir_ok file_ok cfg component =
     (if \<not> dir_ok then Inl OSError
      else if \<not> file_ok then Inl OSError
      else Inr (ToFile (pt_log_dir (co_paths cfg)) (component @ lit ''.log'') (32 * 1024 * 1024) 5))"

definition setup_logging :: "bool \<Rightarrow> bool \<Rightarrow> Config \<Rightarrow> pystr \<Rightarrow> (logging, unit) eff" where
  "setup_logging dir_ok file_ok cfg component l =
     (case logging_level (co_log_level cfg) of
        None \<Rightarrow> (Inl AttributeError, l)
      | Some level \<Rightarrow>
          (let l = l\<lparr>lg_level := level, lg_handlers := []\<rparr>;
               l = l\<lparr>lg_handlers := lg_handlers l @ [ToStdout]\<rparr>;
               l = (case file_handler dir_ok file_ok cfg component of
                      Inr h \<Rightarrow> l\<lparr>lg_handlers := lg_handlers l @ [h]\<rparr>
                    | Inl e \<Rightarrow> l\<lparr>lg_warnings := lg_warnings l + 1\<rparr>);
               l = l\<lparr>lg_named := fold (\<lambda>name f. f(name \<mapsto> 30)) NOISY (lg_named l)\<rparr>
           in (Inr (), l)))"

section \<open>Clients\<close>

datatype redis_address = UnixSocket pystr | Tcp pystr int

record redis_client =
  rl_address :: redis_address
  rl_db :: int
  rl_password :: "pystr option"
  rl_decode_responses :: bool
  rl_keepalive :: "bool option"
  rl_health_check :: "int option"

text \<open>Python's truth of an optional string, and \<open>x or None\<close>.\<close>

definition non_empty :: "pystr option \<Rightarrow> pystr option" where
  "non_empty x = (case x of None \<Rightarrow> None | Some t \<Rightarrow> if t = [] then None else Some t)"

text \<open>\<open>None\<close>: the argument is not given, the default of the library holds.\<close>

definition build_redis_client :: "RedisConfig \<Rightarrow> redis_client" where
  "build_redis_client c =
     (case non_empty (rd_socket_path c) of
        Some path \<Rightarrow> \<lparr>rl_address = UnixSocket path, rl_db = rd_db c, rl_password = non_empty (rd_password c),
                      rl_decode_responses = False, rl_keepalive = None, rl_health_check = None\<rparr>
      | None \<Rightarrow> \<lparr>rl_address = Tcp (rd_host c) (rd_port c), rl_db = rd_db c, rl_password = non_empty (rd_password c),
                 rl_decode_responses = False, rl_keepalive = Some True, rl_health_check = Some 30\<rparr>)"

record ch_client =
  cl_host :: pystr
  cl_port :: int
  cl_username :: pystr
  cl_password :: pystr
  cl_database :: pystr
  cl_secure :: bool
  cl_connect_timeout :: int
  cl_send_receive_timeout :: int
  cl_compress :: pystr

definition build_ch_client :: "ClickHouseConfig \<Rightarrow> pystr option \<Rightarrow> ch_client" where
  "build_ch_client c database =
     \<lparr>cl_host = cc_host c, cl_port = cc_port c, cl_username = cc_user c, cl_password = cc_password c,
      cl_database = (case database of Some d \<Rightarrow> d | None \<Rightarrow> cc_database c),
      cl_secure = cc_secure c, cl_connect_timeout = 10, cl_send_receive_timeout = cc_insert_timeout_seconds c,
      cl_compress = lit ''lz4''\<rparr>"

section \<open>Lemmas\<close>

lemma fold_upd_same: "fold (\<lambda>name f. f(name \<mapsto> v)) names f = (\<lambda>n. if n \<in> set names then Some v else f n)"
  by (induction names arbitrary: f) auto

lemma setup_logging_closed:
  assumes "logging_level (co_log_level cfg) = Some level"
  shows "setup_logging d f cfg component l = (Inr (),
    \<lparr>lg_level = level,
     lg_handlers = ToStdout # (if d \<and> f then [ToFile (pt_log_dir (co_paths cfg)) (component @ lit ''.log'') 33554432 5] else []),
     lg_named = \<lambda>n. if n \<in> set NOISY then Some 30 else lg_named l n,
     lg_warnings = lg_warnings l + (if d \<and> f then 0 else 1)\<rparr>)"
  using assms
  by (cases l; cases d; cases f) (simp_all add: setup_logging_def file_handler_def fold_upd_same cong: if_cong)

section \<open>Properties\<close>

text \<open>Also (logging_set_up): With a configuration that was accepted, setting up the logging never raises; it always leaves standard output as the first handler, at most one file, that of the service, and the chatty libraries at warnings; and doing it again changes nothing but the count of warnings, so no line is ever written twice.\<close>

theorem logging_set_up:
  assumes "config_ok cfg"
  shows "\<exists>l'. setup_logging d f cfg component l = (Inr (), l') \<and> lg_level l' \<in> {10, 20, 30, 40}
    \<and> lg_handlers l' = ToStdout # (if d \<and> f then [ToFile (pt_log_dir (co_paths cfg)) (component @ lit ''.log'') 33554432 5] else [])
    \<and> (\<forall>name \<in> set NOISY. lg_named l' name = Some 30)
    \<and> (\<exists>n. setup_logging d f cfg component l' = (Inr (), l'\<lparr>lg_warnings := n\<rparr>))"
proof -
  have "co_log_level cfg \<in> set LOG_LEVELS" using assms by (simp add: config_ok_def)
  then obtain level where level: "logging_level (co_log_level cfg) = Some level" "level \<in> {10, 20, 30, 40}"
    by (auto simp: LOG_LEVELS_def logging_level_def lit_def)
  note closed = setup_logging_closed [OF level(1)]
  show ?thesis
    unfolding closed using level(2) by (auto cong: if_cong)
qed

text \<open>Also (clients_set_up): With a configuration that was accepted, Redis is reached by its socket exactly when a path is given, replies stay bytes, and an empty password is no password; every call to ClickHouse has a time limit between 5 and 600 seconds.\<close>

theorem clients_set_up:
  assumes "config_ok cfg"
  shows "(\<forall>path. rl_address (build_redis_client (co_redis cfg)) = UnixSocket path \<longleftrightarrow> rd_socket_path (co_redis cfg) = Some path \<and> path \<noteq> [])
    \<and> \<not> rl_decode_responses (build_redis_client (co_redis cfg)) \<and> rl_password (build_redis_client (co_redis cfg)) \<noteq> Some []
    \<and> rl_db (build_redis_client (co_redis cfg)) \<in> {0..15}
    \<and> cl_send_receive_timeout (build_ch_client (co_clickhouse cfg) db) \<in> {5..600}
    \<and> cl_port (build_ch_client (co_clickhouse cfg) db) \<in> {1..65535}"
  using assms
  by (auto simp: build_redis_client_def build_ch_client_def non_empty_def config_ok_def clickhouse_ok_def split: option.splits if_splits)

text \<open>The witnesses: the configuration with a secret and nothing else.\<close>

lemma some_config: "\<exists>c. config_ok c"
proof -
  have "\<exists>c. load_config ascii_only strict_pyd (\<lambda>_. Inr (YMap [(ykey ''secret_key'', YStr (replicate 32 97))]))
      \<lparr>env_file = None, yaml_file = Some (Inr [])\<rparr> Map.empty = (Inr c, Map.empty) \<and> co_secret_key c = replicate 32 97"
    by (rule secret_from_yaml [OF strict_pyd.pydantic_axioms, where t = "[]"]) simp_all
  then show ?thesis using load_config_ok by blast
qed

definition fresh_logging :: logging where
  "fresh_logging = \<lparr>lg_level = 30, lg_handlers = [ToStdout], lg_named = Map.empty, lg_warnings = 0\<rparr>"

theorem logging_set_up_witness:
  "\<exists>cfg l'. setup_logging True False cfg (lit ''api'') fresh_logging = (Inr (), l') \<and> lg_handlers l' = [ToStdout]"
proof -
  obtain cfg where "config_ok cfg" using some_config ..
  then obtain l' where "setup_logging True False cfg (lit ''api'') fresh_logging = (Inr (), l')"
    "lg_handlers l' = ToStdout # (if True \<and> False then [ToFile (pt_log_dir (co_paths cfg)) (lit ''api'' @ lit ''.log'') 33554432 5] else [])"
    by (elim logging_set_up [THEN exE] conjE)
  then show ?thesis by (intro exI [of _ cfg] exI [of _ l']) simp
qed

theorem clients_set_up_witness: "\<exists>cfg :: Config. \<not> rl_decode_responses (build_redis_client (co_redis cfg))"
proof -
  obtain cfg where "config_ok cfg" using some_config ..
  then have "\<not> rl_decode_responses (build_redis_client (co_redis cfg))" by (elim clients_set_up [THEN conjE] conjE)
  then show ?thesis by (rule exI)
qed

end
