(* ===== verification/Metrics_Task.thy ===== *)
theory Metrics_Task
  imports Metrics
begin

text \<open>
  The rest of \<open>backend/app/metrics.py\<close>: gauges, and the background task, \<open>start\<close>, the loop and \<open>stop\<close>, with a flush cut at its await. The
  atomic \<open>flush\<close> of \<open>Metrics\<close> is what these steps amount to.
\<close>

section \<open>The task\<close>

text \<open>
  \<open>_task\<close>: none, asleep in the loop, awaiting the pipeline with the deltas it took, or ended because the
  loop found \<open>_stopping\<close> set.
\<close>

datatype flush_task = NoTask | Asleep | Flushing "(string \<times> int) list" | Ended

record metrics_proc =
  mp_core :: Metrics
  mp_task :: flush_task
  mp_stopping :: bool

definition new_proc :: "Metrics \<Rightarrow> metrics_proc" where
  "new_proc m = \<lparr>mp_core = m, mp_task = NoTask, mp_stopping = False\<rparr>"

text \<open>
  \<open>Halt k out during\<close>: when the task awaits the pipeline, the cancellation lets \<open>k\<close> of its commands run; the
  last flush ends with \<open>out\<close>, with increments \<open>during\<close> it.
\<close>

datatype task_event =
    Begin
  | Bump string int
  | Wake
  | Finish nat bool
  | Halt nat flush_end "(string \<times> int) list"

definition bump_core :: "string \<Rightarrow> int \<Rightarrow> metrics_proc \<Rightarrow> metrics_proc" where
  "bump_core name v p = p\<lparr>mp_core := incr name v (mp_core p)\<rparr>"

definition start_task :: "metrics_proc \<Rightarrow> metrics_proc" where
  "start_task p =
     (if has_redis (mp_core p) \<and> mp_task p = NoTask
      then p\<lparr>mp_task := (if mp_stopping p then Ended else Asleep)\<rparr> else p)"

text \<open>The loop wakes up: a flush takes the deltas, or there are none and it sleeps again.\<close>

definition wake_task :: "metrics_proc \<Rightarrow> metrics_proc" where
  "wake_task p =
     (if mp_task p = Asleep \<and> has_redis (mp_core p) \<and> counts (mp_core p) \<noteq> []
      then p\<lparr>mp_task := Flushing (counts (mp_core p)), mp_core := (mp_core p)\<lparr>counts := []\<rparr>\<rparr>
      else p)"

text \<open>The pipeline answers, or fails after \<open>k\<close> of its commands.\<close>

definition finish_flush :: "'r redis \<Rightarrow> nat \<Rightarrow> bool \<Rightarrow> metrics_proc \<times> 'r \<Rightarrow> metrics_proc \<times> 'r" where
  "finish_flush R k answered x =
     (case x of (p, s) \<Rightarrow>
        (case mp_task p of
           Flushing pending \<Rightarrow>
             if answered then (p\<lparr>mp_task := Asleep\<rparr>, pipe_hincrby R pending s)
             else (p\<lparr>mp_task := Asleep, mp_core := (mp_core p)\<lparr>counts := fold_back pending (counts (mp_core p))\<rparr>\<rparr>,
                   pipe_hincrby R (take k pending) s)
         | _ \<Rightarrow> (p, s)))"

definition stop_task ::
    "'r redis \<Rightarrow> nat \<Rightarrow> flush_end \<Rightarrow> (string \<times> int) list \<Rightarrow> metrics_proc \<times> 'r \<Rightarrow> metrics_proc \<times> 'r" where
  "stop_task R k out during x =
     (case x of (p, s) \<Rightarrow>
        (let s = (case mp_task p of Flushing pending \<Rightarrow> pipe_hincrby R (take k pending) s | _ \<Rightarrow> s)
         in case flush R out during (mp_core p) s of
              (m, s) \<Rightarrow> (\<lparr>mp_core = m, mp_task = NoTask, mp_stopping = True\<rparr>, s)))"

fun task_step :: "'r redis \<Rightarrow> task_event \<Rightarrow> metrics_proc \<times> 'r \<Rightarrow> metrics_proc \<times> 'r" where
  "task_step R Begin (p, s) = (start_task p, s)"
| "task_step R (Bump name v) (p, s) = (bump_core name v p, s)"
| "task_step R Wake (p, s) = (wake_task p, s)"
| "task_step R (Finish k answered) (p, s) = finish_flush R k answered (p, s)"
| "task_step R (Halt k out during) (p, s) = stop_task R k out during (p, s)"

fun bumped :: "task_event \<Rightarrow> (string \<times> int) list" where
  "bumped (Bump name v) = [(name, v)]"
| "bumped (Halt k out during) = during"
| "bumped ev = []"

section \<open>Gauges\<close>

text \<open>\<open>set_gauge\<close>, given the \<open>HSET\<close> of the client: every exception is swallowed.\<close>

definition GAUGE_KEY :: rkey where "GAUGE_KEY = ''nls:gauges''"

definition set_gauge ::
    "bool \<Rightarrow> (rkey \<Rightarrow> string \<Rightarrow> pystr \<Rightarrow> 'r \<Rightarrow> 'r) \<Rightarrow> net \<Rightarrow> string \<Rightarrow> pystr \<Rightarrow> 'r \<Rightarrow> 'r" where
  "set_gauge redis hset net name shown s =
     (if \<not> redis then s else snd (remote RedisError net (\<lambda>s. (Inr (), hset GAUGE_KEY name shown s)) s))"

locale text_hashes =
  fixes hset :: "rkey \<Rightarrow> string \<Rightarrow> pystr \<Rightarrow> 'r \<Rightarrow> 'r" and F :: "'r \<Rightarrow> rkey \<Rightarrow> string \<Rightarrow> pystr option"
  assumes hset_law: "F (hset k f v s) = (F s)(k := (F s k)(f \<mapsto> v))"
begin

lemma set_gauge_view:
  "F (set_gauge redis hset net name shown s) GAUGE_KEY
    = (if redis \<and> net \<noteq> Refused then (F s GAUGE_KEY)(name \<mapsto> shown) else F s GAUGE_KEY)"
  by (cases net) (simp_all add: set_gauge_def hset_law)

end

interpretation map_hashes: text_hashes "\<lambda>k f v s. s(k := (s k)(f \<mapsto> v))" "\<lambda>s. s"
  by unfold_locales simp

section \<open>The steps and the atomic flush\<close>

text \<open>
  A state of the task stands for a history of atomic steps: all of it, or, while a flush is under way,
  all but the flush, with the increments made since.
\<close>

definition stands_for ::
    "'r redis \<Rightarrow> Metrics \<times> 'r \<Rightarrow> metric_event list \<Rightarrow> (string \<times> int) list \<Rightarrow> metrics_proc \<times> 'r \<Rightarrow> bool" where
  "stands_for R x0 mevs since x \<longleftrightarrow>
     (case x of (p, s) \<Rightarrow>
        (case fold (metric_step R) mevs x0 of (m, s1) \<Rightarrow>
          s = s1 \<and>
          (case mp_task p of
             Flushing pending \<Rightarrow> pending \<noteq> [] \<and> has_redis m \<and> counts m = pending
               \<and> mp_core p = fold (\<lambda>(name, v). incr name v) since (m\<lparr>counts := []\<rparr>)
           | _ \<Rightarrow> mp_core p = m \<and> since = [])))"

lemma stands_for_step:
  assumes "stands_for R x0 mevs since (p, s)"
  shows "\<exists>mevs' since'. stands_for R x0 mevs' since' (task_step R ev (p, s))
    \<and> concat (map counted mevs') @ since' = (concat (map counted mevs) @ since) @ bumped ev"
proof -
  obtain m s1 where m: "fold (metric_step R) mevs x0 = (m, s1)" by fastforce
  show ?thesis
  proof (cases ev)
    case Begin
    then show ?thesis
      using assms by (intro exI [of _ mevs] exI [of _ since]) (auto simp: stands_for_def m start_task_def)
  next
    case (Bump name v)
    show ?thesis
    proof (cases "\<exists>pending. mp_task p = Flushing pending")
      case True
      then show ?thesis
        using assms Bump
        by (intro exI [of _ mevs] exI [of _ "since @ [(name, v)]"]) (auto simp: stands_for_def m bump_core_def)
    next
      case False
      then show ?thesis
        using assms Bump
        by (intro exI [of _ "mevs @ [Count name v]"] exI [of _ "[]"])
           (auto simp: stands_for_def m bump_core_def split: flush_task.splits)
    qed
  next
    case Wake
    then show ?thesis
      using assms by (intro exI [of _ mevs] exI [of _ since]) (auto simp: stands_for_def m wake_task_def)
  next
    case (Finish k answered)
    show ?thesis
    proof (cases "\<exists>pending. mp_task p = Flushing pending")
      case True
      then show ?thesis
        using assms Finish
        by (intro exI [of _ "mevs @ [Flush (if answered then Flushed else Failed k) since]"] exI [of _ "[]"])
           (auto simp: stands_for_def m finish_flush_def flush_def Let_def)
    next
      case False
      then show ?thesis
        using assms Finish
        by (intro exI [of _ mevs] exI [of _ since])
           (auto simp: stands_for_def m finish_flush_def split: flush_task.splits)
    qed
  next
    case (Halt k out during)
    show ?thesis
    proof (cases "\<exists>pending. mp_task p = Flushing pending")
      case True
      then show ?thesis
        using assms Halt
        by (intro exI [of _ "mevs @ [Flush (Cancelled k) since, Flush out during]"] exI [of _ "[]"])
           (auto simp: stands_for_def m stop_task_def Let_def flush_def [of R "Cancelled k"] split: prod.splits)
    next
      case False
      then show ?thesis
        using assms Halt
        by (intro exI [of _ "mevs @ [Flush out during]"] exI [of _ "[]"])
           (auto simp: stands_for_def m stop_task_def Let_def split: flush_task.splits prod.splits)
    qed
  qed
qed

lemma stands_for_run:
  "\<exists>mevs since. stands_for R x0 mevs since (fold (task_step R) evs (new_proc (fst x0), snd x0))
    \<and> concat (map counted mevs) @ since = concat (map bumped evs)"
proof (induction evs rule: rev_induct)
  case Nil
  show ?case by (intro exI [of _ "[]"]) (simp add: stands_for_def new_proc_def split: prod.split)
next
  case (snoc ev evs)
  obtain p s where ps: "fold (task_step R) evs (new_proc (fst x0), snd x0) = (p, s)" by fastforce
  then obtain mevs since where "stands_for R x0 mevs since (p, s)" "concat (map counted mevs) @ since = concat (map bumped evs)"
    using snoc by auto
  then show ?case using stands_for_step [of R x0 mevs since p s ev] by (auto simp: ps)
qed

text \<open>Nothing is counted twice or lost as long as every flush is answered or has run no command.\<close>

fun smooth :: "task_event \<Rightarrow> bool" where
  "smooth (Finish k answered) = (answered \<or> k = 0)"
| "smooth (Halt k out during) = False"
| "smooth (Bump name v) = (0 \<le> v)"
| "smooth ev = True"

definition in_flight :: "metrics_proc \<Rightarrow> string \<Rightarrow> int" where
  "in_flight p name = (case mp_task p of Flushing pending \<Rightarrow> summed pending name | _ \<Rightarrow> 0)"

definition proc_ok :: "metrics_proc \<Rightarrow> bool" where
  "proc_ok p \<longleftrightarrow> metrics_ok (mp_core p) \<and> has_redis (mp_core p)
     \<and> (\<forall>pending. mp_task p = Flushing pending \<longrightarrow> (\<forall>(n, v) \<in> set pending. 0 \<le> v))"

context redis_hashes
begin

lemma smooth_step:
  assumes "task_step R ev (p, s) = (p', s')" "smooth ev" "proc_ok p"
  shows "proc_ok p' \<and> H s' METRICS_KEY name + local_count (mp_core p') name + in_flight p' name
    = H s METRICS_KEY name + local_count (mp_core p) name + in_flight p name + summed (bumped ev) name"
proof (cases ev)
  case Begin
  then show ?thesis
    using assms by (auto simp: start_task_def proc_ok_def in_flight_def split: if_splits)
next
  case (Bump n v)
  then show ?thesis
    using assms by (auto simp: bump_core_def proc_ok_def in_flight_def count_incr intro: inv_intros)
next
  case Wake
  have "metrics_ok (mp_core p)" using assms(3) by (simp add: proc_ok_def)
  then have "local_count (mp_core p) name = summed (counts (mp_core p)) name"
    by (simp add: metrics_ok_def local_count_def summed_distinct)
  then show ?thesis
    using assms Wake by (auto simp: wake_task_def proc_ok_def in_flight_def local_count_def metrics_ok_def
        split: if_splits)
next
  case (Finish k answered)
  show ?thesis
  proof (cases "\<exists>pending. mp_task p = Flushing pending")
    case True
    then obtain pending where pend: "mp_task p = Flushing pending" "\<forall>(n, v) \<in> set pending. 0 \<le> v"
      using assms(3) by (auto simp: proc_ok_def)
    have "metrics_ok ((mp_core p)\<lparr>counts := fold_back pending (counts (mp_core p))\<rparr>)"
      using metrics_ok_fold_back assms(3) pend(2) by (simp add: proc_ok_def)
    then show ?thesis
      using assms Finish pend
      by (auto simp: finish_flush_def proc_ok_def in_flight_def pipe_summed local_count_def fold_back_get split: if_splits)
  next
    case False
    then show ?thesis
      using assms Finish by (auto simp: finish_flush_def split: flush_task.splits)
  qed
next
  case (Halt k out during)
  then show ?thesis using assms by simp
qed

lemma smooth_run:
  assumes "fold (task_step R) evs (p, s) = (p', s')" "\<forall>ev \<in> set evs. smooth ev" "proc_ok p"
  shows "proc_ok p' \<and> H s' METRICS_KEY name + local_count (mp_core p') name + in_flight p' name
    = H s METRICS_KEY name + local_count (mp_core p) name + in_flight p name + summed (concat (map bumped evs)) name"
  using assms
proof (induction evs arbitrary: p s)
  case (Cons ev evs)
  obtain p1 s1 where st: "task_step R ev (p, s) = (p1, s1)" by fastforce
  have "smooth ev" "\<forall>ev \<in> set evs. smooth ev" "fold (task_step R) evs (p1, s1) = (p', s')"
    using Cons.prems st by simp_all
  then show ?case
    using Cons.IH [of p1 s1] smooth_step [OF st _ Cons.prems(3)] by simp
qed simp

end

section \<open>Properties\<close>

text \<open>C31 (metrics_task_refines): The background task of the metrics, whose flush takes the deltas and awaits Redis while increments go on, and which stop cancels wherever it is, amounts to the atomic flush: whenever no flush is under way, the counters and Redis are what some sequence of single increments and whole flushes gives, one that counts the same in the same order.\<close>

theorem metrics_task_refines:
  assumes "fold (task_step R) evs (new_proc m, s) = (p, s')" and "\<forall>pending. mp_task p \<noteq> Flushing pending"
  shows "\<exists>mevs. fold (metric_step R) mevs (m, s) = (mp_core p, s')
    \<and> concat (map counted mevs) = concat (map bumped evs)"
proof -
  obtain mevs since where "stands_for R (m, s) mevs since (p, s')" "concat (map counted mevs) @ since = concat (map bumped evs)"
    using stands_for_run [of R "(m, s)" evs] assms(1) by auto
  then show ?thesis
    using assms(2) by (intro exI [of _ mevs]) (auto simp: stands_for_def split: prod.splits flush_task.splits)
qed

theorem metrics_task_refines_witness:
  "\<exists>p s' mevs. fold (task_step ref_redis) [Begin, Bump STORED 5, Wake, Bump STORED 2, Halt 0 Flushed []]
        (new_proc fresh_metrics, empty_store) = (p, s')
    \<and> fold (metric_step ref_redis) mevs (fresh_metrics, empty_store) = (mp_core p, s')
    \<and> concat (map counted mevs) = [(STORED, 5), (STORED, 2)]"
proof -
  obtain p s' where run: "fold (task_step ref_redis) [Begin, Bump STORED 5, Wake, Bump STORED 2, Halt 0 Flushed []]
        (new_proc fresh_metrics, empty_store) = (p, s')" by fastforce
  then have "mp_task p = NoTask" by (auto simp: stop_task_def split: prod.splits)
  then show ?thesis using metrics_task_refines [OF run] run by auto
qed

text \<open>Also (metrics_clean_stop): A process that stops while its task sleeps leaves nothing behind: when every flush before was answered or ran no command, and the last one is answered, Redis holds everything that was counted, and the process nothing.\<close>

theorem metrics_clean_stop:
  assumes "redis_hashes R H" and "metrics_ok m" and "has_redis m" and "\<forall>ev \<in> set evs. smooth ev"
    and "fold (task_step R) evs (new_proc m, s) = (p, s')" and "\<forall>pending. mp_task p \<noteq> Flushing pending"
    and "stop_task R k Flushed [] (p, s') = (p2, s2)"
  shows "H s2 METRICS_KEY name = H s METRICS_KEY name + local_count m name + summed (concat (map bumped evs)) name
    \<and> local_count (mp_core p2) name = 0"
proof -
  have start: "proc_ok (new_proc m)" using assms(2,3) by (simp add: proc_ok_def new_proc_def)
  note run = redis_hashes.smooth_run [OF assms(1,5,4) start, of name]
  have ok: "metrics_ok (mp_core p)" "has_redis (mp_core p)" using run by (auto simp: proc_ok_def)
  have none: "in_flight p name = 0" "in_flight (new_proc m) name = 0"
    using assms(6) by (auto simp: in_flight_def new_proc_def split: flush_task.splits)
  have stop: "flush R Flushed [] (mp_core p) s' = (mp_core p2, s2)"
    using assms(6,7) by (auto simp: stop_task_def split: flush_task.splits prod.splits)
  have "local_count (mp_core p2) name = 0"
    using stop [symmetric] ok(2) by (auto simp: flush_def Let_def local_count_def split: if_splits)
  then show ?thesis
    using redis_hashes.flush_balance [OF assms(1) ok, of Flushed "[]" s' name] stop run none
    by (simp add: new_proc_def)
qed

theorem metrics_clean_stop_witness:
  "\<exists>p2 s2. stop_task ref_redis 0 Flushed [] (fold (task_step ref_redis) [Begin, Bump STORED 5, Wake, Bump STORED 2, Finish 0 False]
        (new_proc fresh_metrics, empty_store)) = (p2, s2)
    \<and> ref_hash s2 METRICS_KEY STORED = 7"
proof -
  let ?evs = "[Begin, Bump STORED 5, Wake, Bump STORED 2, Finish 0 False]"
  obtain p s' where run: "fold (task_step ref_redis) ?evs (new_proc fresh_metrics, empty_store) = (p, s')" by fastforce
  obtain p2 s2 where stop: "stop_task ref_redis 0 Flushed [] (p, s') = (p2, s2)" by fastforce
  have "mp_task p = Asleep"
    using run by (auto simp: new_proc_def start_task_def bump_core_def wake_task_def finish_flush_def fresh_metrics_def
        incr_def count_add_def dict_set_def split: if_splits)
  then show ?thesis
    using metrics_clean_stop [OF ref_hashes_ok _ _ _ run _ stop, of STORED] stop run
    by (simp add: local_count_def) (simp add: fresh_metrics_def)
qed

end
