(* ===== verification/Flusher.thy ===== *)
theory Flusher
  imports Receiver Metrics_Task
begin

text \<open>
  \<open>Ingest.run_flusher\<close> and the whole of \<open>_check_backpressure\<close> in \<open>backend/app/services/receiver.py\<close>: how often the depth of
  the queue is looked at, and whether the shedding of load lapses between two looks.
\<close>

section \<open>The loop\<close>

text \<open>
  \<open>max(1, int(2.0 / interval))\<close>, with the interval in milliseconds. The division of floats gives the same number for
  every interval that the configuration admits.
\<close>

definition check_every :: "int \<Rightarrow> nat" where
  "check_every ms = nat (max 1 (2000 div ms))"

text \<open>The look at the queue: \<open>now\<close> is the time ends the gauge has been written, \<open>hset\<close> the \<open>HSET\<close> of the client.\<close>

definition look_at_depth ::
    "'r redis \<Rightarrow> (rkey \<Rightarrow> string \<Rightarrow> pystr \<Rightarrow> 'r \<Rightarrow> 'r) \<Rightarrow> LogQueue \<Rightarrow> net \<Rightarrow> net \<Rightarrow> rat \<Rightarrow> Ingest \<times> 'r \<Rightarrow> Ingest \<times> 'r" where
  "look_at_depth R hset q n1 n2 now x =
     (case x of (g, s) \<Rightarrow>
        (let depth = queue_length R q n1 s
         in if depth < 0 then (g, s)
            else (let s = set_gauge (has_redis (metrics g)) hset n2 ''redis_queue_length'' (py_str_int depth) s
                  in if depth > max_len q then (g\<lparr>paused_until := now + 5\<rparr>, s) else (g, s))))"

text \<open>One round, from the end of the sleep to its next.\<close>

definition flusher_round ::
    "'r redis \<Rightarrow> (rkey \<Rightarrow> string \<Rightarrow> pystr \<Rightarrow> 'r \<Rightarrow> 'r) \<Rightarrow> LogQueue \<Rightarrow> int \<Rightarrow> net \<Rightarrow> net \<Rightarrow> rat \<Rightarrow> Ingest \<times> 'r \<Rightarrow> Ingest \<times> 'r" where
  "flusher_round R hset q ms n1 n2 now x =
     (case x of (g, s) \<Rightarrow>
        (case flusher_tick (check_every ms) g of
           (g, due) \<Rightarrow> if due then look_at_depth R hset q n1 n2 now (g, s) else (g, s)))"

section \<open>Lemmas\<close>

lemma look_at_depth_view:
  "fst (look_at_depth R hset q n1 n2 now (g, s)) = check_backpressure R q n1 now g s"
  by (simp add: look_at_depth_def check_backpressure_def Let_def)

lemma flusher_round_fields:
  "tick (fst (flusher_round R hset q ms n1 n2 now (g, s))) = tick g + 1"
  "paused_until (fst (flusher_round R hset q ms n1 n2 now (g, s)))
    = (if (tick g + 1) mod check_every ms = 0 \<and> queue_length R q n1 s > max_len q \<and> 0 \<le> queue_length R q n1 s
       then now + 5 else paused_until g)"
  by (auto simp: flusher_round_def flusher_tick_def Let_def look_at_depth_def schedule_flush_def split: if_splits)

text \<open>Two looks are two seconds apart, or one interval when that is longer.\<close>

lemma check_every_span:
  assumes "0 < ms"
  shows "0 < check_every ms" "int (check_every ms) * ms \<le> max 2000 ms" "2000 < int (check_every ms) * ms + ms"
proof -
  have d: "2000 div ms * ms \<le> 2000" "2000 < 2000 div ms * ms + ms"
    using assms div_mult_mod_eq [of 2000 ms] pos_mod_sign [OF assms, of 2000] pos_mod_bound [OF assms, of 2000] by linarith+
  show "0 < check_every ms" by (simp add: check_every_def)
  show "int (check_every ms) * ms \<le> max 2000 ms"
  proof (cases "1 \<le> 2000 div ms")
    case True
    then show ?thesis using d(1) by (simp add: check_every_def)
  qed (simp add: check_every_def)
  have "2000 div ms * ms \<le> int (check_every ms) * ms"
    using assms by (intro mult_right_mono) (auto simp: check_every_def)
  then show "2000 < int (check_every ms) * ms + ms" using d(2) by linarith
qed

text \<open>
  A process with its flusher: between two rounds, anything may happen to it that does not touch the flusher's own counter
  and deadline; the queue is too long at each look, and the look gets its answer.
\<close>

definition flusher_runs ::
    "'r redis \<Rightarrow> (rkey \<Rightarrow> string \<Rightarrow> pystr \<Rightarrow> 'r \<Rightarrow> 'r) \<Rightarrow> LogQueue \<Rightarrow> int \<Rightarrow> (nat \<Rightarrow> rat) \<Rightarrow> (nat \<Rightarrow> net)
      \<Rightarrow> (nat \<Rightarrow> Ingest \<times> 'r) \<Rightarrow> (nat \<Rightarrow> Ingest \<times> 'r) \<Rightarrow> bool" where
  "flusher_runs R hset q ms clock n2 starts ends \<longleftrightarrow> tick (fst (starts 0)) = 0 \<and>
     (\<forall>k. ends k = flusher_round R hset q ms Reply (n2 k) (clock k) (starts k)
       \<and> tick (fst (starts (Suc k))) = tick (fst (ends k))
       \<and> paused_until (fst (starts (Suc k))) = paused_until (fst (ends k)))"

definition too_long :: "'r redis \<Rightarrow> LogQueue \<Rightarrow> (nat \<Rightarrow> Ingest \<times> 'r) \<Rightarrow> bool" where
  "too_long R q starts \<longleftrightarrow> (\<forall>k. 0 \<le> queue_length R q Reply (snd (starts k)) \<and> max_len q < queue_length R q Reply (snd (starts k)))"

lemma flusher_runs_tick: "flusher_runs R hset q ms clock n2 starts ends \<Longrightarrow> tick (fst (starts k)) = k"
proof (induction k)
  case (Suc k)
  then show ?case
    using flusher_round_fields(1) [of R hset q ms Reply "n2 k" "clock k" "fst (starts k)" "snd (starts k)"]
    by (simp add: flusher_runs_def)
qed (simp add: flusher_runs_def)

text \<open>The deadline after round \<open>k\<close> is that of the last look, which was in the last round whose number the cadence divides.\<close>

lemma flusher_runs_paused:
  assumes "flusher_runs R hset q ms clock n2 starts ends" "too_long R q starts" "check_every ms \<le> Suc k"
  shows "paused_until (fst (ends k)) = clock (Suc k div check_every ms * check_every ms - 1) + 5"
  using assms(3)
proof (induction k)
  let ?c = "check_every ms"
  have pos: "0 < ?c" by (simp add: check_every_def)
  have now: "paused_until (fst (ends k)) = (if Suc k mod ?c = 0 then clock k + 5 else paused_until (fst (starts k)))" for k
  proof -
    have "ends k = flusher_round R hset q ms Reply (n2 k) (clock k) (fst (starts k), snd (starts k))"
      using assms(1) by (simp add: flusher_runs_def)
    moreover have "0 \<le> queue_length R q Reply (snd (starts k)) \<and> max_len q < queue_length R q Reply (snd (starts k))"
      using assms(2) by (simp add: too_long_def)
    ultimately show ?thesis using flusher_runs_tick [OF assms(1), of k]
      by (cases "starts k") (simp add: flusher_round_fields)
  qed
  {
    case 0
    then have "?c = 1" using pos by simp
    then show ?case using now [of 0] by simp
  next
    case (Suc k)
    show ?case
    proof (cases "Suc (Suc k) mod ?c = 0")
      case True
      then have "Suc (Suc k) div ?c * ?c = Suc (Suc k)" by auto
      then show ?thesis using now [of "Suc k"] True by simp
    next
      case False
      then have "?c \<le> Suc k" using Suc.prems by (cases "?c = Suc (Suc k)") auto
      moreover have "Suc (Suc k) div ?c = Suc k div ?c" using False by (simp add: div_Suc)
      moreover have "paused_until (fst (starts (Suc k))) = paused_until (fst (ends k))"
        using assms(1) by (simp add: flusher_runs_def)
      ultimately show ?thesis using now [of "Suc k"] False Suc.IH by simp
    qed
  }
qed

section \<open>Properties\<close>

text \<open>C39 (shedding_does_not_lapse): The depth is looked at every two seconds at most, or every round when a round is longer; and while the queue stays too long and the rounds from one look to the next take less than the five seconds of a pause, there is no moment after the first look at which a push that starts is not shed.\<close>

theorem shedding_does_not_lapse:
  assumes "0 < ms" and "flusher_runs R hset q ms clock n2 starts ends" and "too_long R q starts"
    and "\<And>k. clock (Suc k) \<le> clock k + d" and "0 \<le> d" and "of_nat (check_every ms) * d < 5"
    and "check_every ms \<le> Suc k" and "t \<le> clock (Suc k)"
    and "paused_until g = paused_until (fst (ends k))" and "buffer g \<noteq> []"
  shows "int (check_every ms) * ms \<le> max 2000 ms \<and> 2000 < int (check_every ms) * ms + ms
    \<and> tally (push_start t g) DROPPED_BACKPRESSURE = tally g DROPPED_BACKPRESSURE + int (length (buffer g))
    \<and> awaiting (push_start t g) = awaiting g \<and> buffer (push_start t g) = []"
proof -
  let ?c = "check_every ms"
  let ?j = "Suc k div ?c * ?c - 1"
  have pos: "0 < ?c" by (rule check_every_span(1) [OF assms(1)])
  have far: "clock (j + n) \<le> clock j + of_nat n * d" for j n
  proof (induction n)
    case (Suc n)
    then show ?case using assms(4) [of "j + n"] by (simp add: algebra_simps)
  qed simp
  have one: "1 \<le> Suc k div ?c" using assms(7) pos by (simp add: div_greater_zero_iff Suc_le_eq)
  then have "1 \<le> Suc k div ?c * ?c" using pos by (metis One_nat_def Suc_leI nat_0_less_mult_iff less_eq_Suc_le)
  then have n: "Suc k = ?j + Suc (Suc k mod ?c)"
    using div_mult_mod_eq [of "Suc k" ?c] by linarith
  have "clock (Suc k) \<le> clock ?j + of_nat (Suc (Suc k mod ?c)) * d" using far [of ?j "Suc (Suc k mod ?c)"] n by simp
  also have "\<dots> \<le> clock ?j + of_nat ?c * d"
    using pos assms(5) mod_less_divisor [OF pos, of "Suc k"] by (intro add_left_mono mult_right_mono) (simp_all only: of_nat_le_iff Suc_le_eq)
  also have "\<dots> < clock ?j + 5" using assms(6) by simp
  finally have "t < paused_until g"
    using flusher_runs_paused [OF assms(2,3,7)] assms(8,9) by simp
  then show ?thesis
    using check_every_span [OF assms(1)] assms(10) by (simp add: push_start_def Let_def)
qed

text \<open>The witness: a look every round, a queue of two records with a bound of one.\<close>

definition short_queue :: LogQueue where
  "short_queue = default_queue\<lparr>max_len := 1\<rparr>"

definition long_store :: ref_store where
  "long_store = put_list ''nls:queue'' [''a'', ''b''] empty_store"

fun demo_flush :: "nat \<Rightarrow> Ingest \<times> ref_store" where
  "demo_flush 0 = (new_ingest fresh_metrics, long_store)"
| "demo_flush (Suc k) = flusher_round ref_redis (\<lambda>k f v s. s) short_queue 1000 Reply Reply (of_nat k) (demo_flush k)"

lemma demo_flush_store: "snd (demo_flush k) = long_store"
  by (induction k)
     (auto simp: flusher_round_def flusher_tick_def look_at_depth_def set_gauge_def Let_def split: prod.splits if_splits)

lemma demo_flush_long: "queue_length ref_redis short_queue Reply long_store = 2"

  by (simp add: queue_length_def short_queue_def default_queue_def long_store_def ref_redis_def)

theorem shedding_does_not_lapse_witness:
  "tally (push_start 2 ((fst (demo_flush 2))\<lparr>buffer := [''r'']\<rparr>)) DROPPED_BACKPRESSURE
    = tally ((fst (demo_flush 2))\<lparr>buffer := [''r'']\<rparr>) DROPPED_BACKPRESSURE + 1"
proof -
  have c: "check_every 1000 = 2" by (simp add: check_every_def)
  have "flusher_runs ref_redis (\<lambda>k f v s. s) short_queue 1000 of_nat (\<lambda>k. Reply) demo_flush (\<lambda>k. demo_flush (Suc k))"
    by (simp add: flusher_runs_def new_ingest_def)
  moreover have "too_long ref_redis short_queue demo_flush"
    by (simp add: too_long_def demo_flush_store demo_flush_long) (simp add: short_queue_def)
  ultimately show ?thesis
    using shedding_does_not_lapse [of 1000 ref_redis "\<lambda>k f v s. s" short_queue of_nat "\<lambda>k. Reply" demo_flush
        "\<lambda>k. demo_flush (Suc k)" 1 1 2 "(fst (demo_flush 2))\<lparr>buffer := [''r'']\<rparr>"] c
    by (simp add: numeral_2_eq_2 del: demo_flush.simps)
qed

end
