(* ===== verification/Meta_Tx.thy ===== *)
theory Meta_Tx
  imports Meta_Store
begin

text \<open>
  The connections of \<open>backend/app/database/meta.py\<close>: \<open>connect\<close> gives every thread one of its own, an operation runs its
  statements on it, commits, and rolls back when anything is raised. The processes of the system share one file, so the
  statements of their operations interleave. The operations of \<open>Meta_Store\<close> are what they amount to.

  Of SQLite the model has what the code relies on: a statement that changes something opens a transaction, which only one
  connection can have; a statement that violates a constraint changes nothing and leaves the transaction open; what is not
  committed is seen by nobody else and does not survive the process.
\<close>

section \<open>The statements of an operation\<close>

type_synonym stmt = "meta \<Rightarrow> meta result"

definition sets :: "(meta \<Rightarrow> meta) \<Rightarrow> stmt" where "sets f m = Inr (f m)"

definition keeps_error :: "('a result \<times> meta) \<Rightarrow> meta result" where
  "keeps_error x = (case x of (Inl e, m) \<Rightarrow> Inl e | (Inr v, m) \<Rightarrow> Inr m)"

definition insert_or_ignore :: "pystr \<times> pystr \<Rightarrow> meta \<Rightarrow> meta" where
  "insert_or_ignore kv m = (if fst kv \<in> fst ` set (settings m) then m else m\<lparr>settings := settings m @ [kv]\<rparr>)"

text \<open>
  What is raised before the connection is asked for, or the statements. \<open>init_schema\<close> creates its tables with
  \<open>IF NOT EXISTS\<close>, each at once, and then inserts the default settings in one transaction.
\<close>

fun statements :: "ucd \<Rightarrow> meta_op \<Rightarrow> stmt list result" where
  "statements U InitSchema = Inr (map (\<lambda>kv. sets (insert_or_ignore kv)) DEFAULT_SETTINGS)"
| "statements U (CreateUser now name hash must) = Inr [\<lambda>m. keeps_error (create_user now name hash must m)]"
| "statements U (SetPassword name hash) = Inr [sets (set_password name hash)]"
| "statements U (TouchLogin now name) = Inr [sets (touch_login now name)]"
| "statements U (AddRouter now name ip descr en) =
     (case normalise_ip U ip of
        Inl e \<Rightarrow> Inl e
      | Inr addr \<Rightarrow> Inr [\<lambda>m. keeps_error (add_router U now name ip descr en m)])"
| "statements U (UpdateRouter now i p) =
     (case (case p_ip p of None \<Rightarrow> Inr None | Some v \<Rightarrow> map_sum id Some (normalise_ip U v)) of
        Inl e \<Rightarrow> Inl e
      | Inr addr \<Rightarrow>
          if p_name p = None \<and> addr = None \<and> p_descr p = None \<and> p_enabled p = None then Inr []
          else Inr [\<lambda>m. keeps_error (update_router U now i p m)])"
| "statements U (DeleteRouter i) = Inr [sets (\<lambda>m. snd (delete_router i m))]"
| "statements U (SetSetting key v) = Inr [sets (set_setting key v)]"
| "statements U (StartArchive now part) = Inr [sets (\<lambda>m. snd (start_archive now part m))]"
| "statements U (FinishArchive now i status nrows nbytes path msg) =
     Inr [sets (finish_archive now i status nrows nbytes path msg)]"

fun run_stmts :: "stmt list \<Rightarrow> stmt" where
  "run_stmts [] m = Inr m"
| "run_stmts (s # ss) m = (case s m of Inl e \<Rightarrow> Inl e | Inr m \<Rightarrow> run_stmts ss m)"

section \<open>Connections\<close>

text \<open>
  \<open>Idle\<close>: outside of every \<open>with\<close> block. \<open>Running op ss held\<close>: statements still to run, and the transaction when one is
  open. \<open>Reading op\<close>: committed, with a row still to be read back. \<open>Failing op e held\<close>: an exception is on its way to the
  handler of \<open>connect\<close>.
\<close>

datatype conn =
    Idle
  | Running meta_op "stmt list" "meta option"
  | Reading meta_op
  | Failing meta_op exn "meta option"

fun reads_back :: "meta_op \<Rightarrow> bool" where
  "reads_back (AddRouter now name ip descr en) = True"
| "reads_back (UpdateRouter now i p) = True"
| "reads_back op = False"

definition committed :: "meta_op \<Rightarrow> conn" where
  "committed op = (if reads_back op then Reading op else Idle)"

record db =
  db_main :: meta
  db_conn :: "nat \<Rightarrow> conn"

fun held :: "conn \<Rightarrow> meta option" where
  "held Idle = None"
| "held (Running op ss tx) = tx"
| "held (Reading op) = None"
| "held (Failing op e tx) = tx"

datatype db_event =
    Enter nat meta_op
  | Execute nat
  | Locked nat
  | DiskFails nat exn
  | Commit nat
  | ReadBack nat
  | ReadFails nat exn
  | Rollback nat
  | Perish nat

text \<open>What a step tells: an operation that took effect, or one that raised.\<close>

datatype outcome = Quiet | Took_effect meta_op | Raised_by meta_op exn

definition put_conn :: "nat \<Rightarrow> conn \<Rightarrow> db \<Rightarrow> db" where
  "put_conn i c d = d\<lparr>db_conn := (db_conn d)(i := c)\<rparr>"

text \<open>
  \<open>Locked\<close>: another connection has kept its transaction for the ten seconds of the timeout. \<open>DiskFails\<close>: a statement or
  the commit raises for a reason of its own. \<open>Perish\<close>: the process of the connection ends.
\<close>

inductive db_step :: "ucd \<Rightarrow> db_event \<Rightarrow> db \<Rightarrow> outcome \<Rightarrow> db \<Rightarrow> bool" for U :: ucd where
  enter_raises: "db_conn d i = Idle \<Longrightarrow> statements U op = Inl e \<Longrightarrow>
    db_step U (Enter i op) d (Raised_by op e) d"
| enter: "db_conn d i = Idle \<Longrightarrow> statements U op = Inr ss \<Longrightarrow>
    db_step U (Enter i op) d Quiet (put_conn i (Running op ss None) d)"
| execute_first: "db_conn d i = Running op (s # ss) None \<Longrightarrow> (\<And>j. held (db_conn d j) = None) \<Longrightarrow> s (db_main d) = Inr m \<Longrightarrow>
    db_step U (Execute i) d Quiet (put_conn i (Running op ss (Some m)) d)"
| execute_first_raises: "db_conn d i = Running op (s # ss) None \<Longrightarrow> (\<And>j. held (db_conn d j) = None) \<Longrightarrow> s (db_main d) = Inl e \<Longrightarrow>
    db_step U (Execute i) d Quiet (put_conn i (Failing op e (Some (db_main d))) d)"
| execute: "db_conn d i = Running op (s # ss) (Some m) \<Longrightarrow> s m = Inr m' \<Longrightarrow>
    db_step U (Execute i) d Quiet (put_conn i (Running op ss (Some m')) d)"
| execute_raises: "db_conn d i = Running op (s # ss) (Some m) \<Longrightarrow> s m = Inl e \<Longrightarrow>
    db_step U (Execute i) d Quiet (put_conn i (Failing op e (Some m)) d)"
| locked: "db_conn d i = Running op (s # ss) None \<Longrightarrow> j \<noteq> i \<Longrightarrow> held (db_conn d j) \<noteq> None \<Longrightarrow>
    db_step U (Locked i) d Quiet (put_conn i (Failing op RuntimeError None) d)"
| disk_fails: "db_conn d i = Running op ss tx \<Longrightarrow>
    db_step U (DiskFails i e) d Quiet (put_conn i (Failing op e tx) d)"
| commit: "db_conn d i = Running op [] (Some m) \<Longrightarrow>
    db_step U (Commit i) d (Took_effect op) (put_conn i (committed op) (d\<lparr>db_main := m\<rparr>))"
| commit_nothing: "db_conn d i = Running op [] None \<Longrightarrow>
    db_step U (Commit i) d (Took_effect op) (put_conn i (committed op) d)"
| read_back: "db_conn d i = Reading op \<Longrightarrow>
    db_step U (ReadBack i) d Quiet (put_conn i Idle d)"
| read_fails: "db_conn d i = Reading op \<Longrightarrow>
    db_step U (ReadFails i e) d Quiet (put_conn i (Failing op e None) d)"
| rollback: "db_conn d i = Failing op e tx \<Longrightarrow>
    db_step U (Rollback i) d (Raised_by op e) (put_conn i Idle d)"
| perish: "db_step U (Perish i) d Quiet (put_conn i Idle d)"

inductive db_run :: "ucd \<Rightarrow> db \<Rightarrow> outcome list \<Rightarrow> db \<Rightarrow> bool" for U :: ucd where
  db_none: "db_run U d [] d"
| db_more: "db_run U d outs d1 \<Longrightarrow> db_step U ev d1 out d2 \<Longrightarrow> db_run U d (outs @ [out]) d2"

definition took_effect :: "outcome list \<Rightarrow> meta_op list" where
  "took_effect outs = concat (map (\<lambda>x. case x of Took_effect op \<Rightarrow> [op] | _ \<Rightarrow> []) outs)"

section \<open>Lemmas\<close>

lemma run_sets: "run_stmts (map (\<lambda>x. sets (f x)) xs) m = Inr (fold f xs m)"
  by (induction xs arbitrary: m) (auto simp: sets_def)

lemma run_stmts_append: "run_stmts (a @ b) m = (case run_stmts a m of Inl e \<Rightarrow> Inl e | Inr m \<Rightarrow> run_stmts b m)"
  by (induction a arbitrary: m) (auto split: sum.splits)

lemma fold_insert_or_ignore:
  "fold insert_or_ignore kvs m
    = m\<lparr>settings := fold (\<lambda>(k, v) st. if k \<in> fst ` set st then st else st @ [(k, v)]) kvs (settings m)\<rparr>"
  by (induction kvs arbitrary: m) (simp_all add: insert_or_ignore_def case_prod_beta)

text \<open>The statements of an operation, all of them, are the operation.\<close>

lemma statements_meta_step:
  assumes "statements U op = Inr ss" "run_stmts ss m = Inr m'"
  shows "m' = meta_step U op m"
proof (cases op)
  case InitSchema
  then show ?thesis using assms by (auto simp: run_sets init_schema_def fold_insert_or_ignore)
next
  case (CreateUser now name hash must)
  then show ?thesis using assms by (auto simp: keeps_error_def split: prod.splits sum.splits)
next
  case (AddRouter now name ip descr en)
  then show ?thesis using assms by (auto simp: keeps_error_def split: prod.splits sum.splits)
next
  case (UpdateRouter now i p)
  then show ?thesis using assms
    by (auto simp: keeps_error_def update_router_def Let_def split: prod.splits sum.splits if_splits)
qed (use assms in \<open>auto simp: sets_def\<close>)

text \<open>What holds of every state: one transaction at a time, each being what its statements make of the committed state.\<close>

definition conn_ok :: "ucd \<Rightarrow> meta \<Rightarrow> conn \<Rightarrow> bool" where
  "conn_ok U m c =
     (case c of
        Running op ss tx \<Rightarrow> (\<exists>ran. statements U op = Inr (ran @ ss)
          \<and> (case tx of None \<Rightarrow> ran = [] | Some m' \<Rightarrow> run_stmts ran m = Inr m'))
      | _ \<Rightarrow> True)"

definition db_ok :: "ucd \<Rightarrow> db \<Rightarrow> bool" where
  "db_ok U d \<longleftrightarrow> (\<forall>i j. held (db_conn d i) \<noteq> None \<longrightarrow> held (db_conn d j) \<noteq> None \<longrightarrow> i = j)
     \<and> (\<forall>i. conn_ok U (db_main d) (db_conn d i))"

lemma conn_ok_moves: "conn_ok U m c \<Longrightarrow> held c = None \<Longrightarrow> conn_ok U m' c"
  by (cases c) (auto simp: conn_ok_def)

lemma conn_ok_simps [simp]:
  "conn_ok U m Idle" "conn_ok U m (Failing op e tx)" "conn_ok U m (committed op)" "held (committed op) = None"
  by (simp_all add: conn_ok_def committed_def)

lemma put_conn_simps [simp]:
  "db_main (put_conn i c d) = db_main d" "db_conn (put_conn i c d) = (db_conn d)(i := c)"
  by (simp_all add: put_conn_def)

lemma put_conn_ok:
  assumes "db_ok U d" "conn_ok U (db_main d) c" "held c \<noteq> None \<Longrightarrow> held (db_conn d i) \<noteq> None \<or> (\<forall>j. held (db_conn d j) = None)"
  shows "db_ok U (put_conn i c d)"
proof -
  have u: "a = b" if "held (db_conn d a) \<noteq> None" "held (db_conn d b) \<noteq> None" for a b
    using assms(1) that unfolding db_ok_def by blast
  have one_tx: "j = k" if "held (((db_conn d)(i := c)) j) \<noteq> None" "held (((db_conn d)(i := c)) k) \<noteq> None" for j k
  proof (cases "held c = None")
    case True
    then have "j \<noteq> i" "k \<noteq> i" using that by auto
    then show ?thesis using that u by auto
  next
    case False
    have one: "x = i" if x: "held (((db_conn d)(i := c)) x) \<noteq> None" for x
    proof (rule ccontr)
      assume "x \<noteq> i"
      then have "held (db_conn d x) \<noteq> None" using x by simp
      then show False using assms(3) [OF False] u [of x i] \<open>x \<noteq> i\<close> by auto
    qed
    from one [OF that(1)] one [OF that(2)] show ?thesis by simp
  qed
  show ?thesis
    unfolding db_ok_def
  proof (intro conjI allI impI)
    fix a b
    assume "held (db_conn (put_conn i c d) a) \<noteq> None" "held (db_conn (put_conn i c d) b) \<noteq> None"
    then show "a = b" using one_tx [of a b] by simp
  next
    fix a
    show "conn_ok U (db_main (put_conn i c d)) (db_conn (put_conn i c d) a)" using assms(1,2) by (simp add: db_ok_def)
  qed
qed

lemma db_step_ok:
  assumes "db_step U ev d out d'" "db_ok U d"
  shows "db_ok U d' \<and> db_main d' = fold (meta_step U) (took_effect [out]) (db_main d)"
  using assms
proof cases
  case (commit i op m)
  have ok: "conn_ok U (db_main d) (Running op [] (Some m))" using assms(2) commit by (metis db_ok_def)
  then have m: "m = meta_step U op (db_main d)"
    using statements_meta_step by (auto simp: conn_ok_def)
  have free: "held (db_conn d j) = None" if "j \<noteq> i" for j
    using assms(2) commit that by (fastforce simp: db_ok_def)
  have "conn_ok U m (db_conn d j)" if "j \<noteq> i" for j
  proof (rule conn_ok_moves [OF _ free [OF that]])
    show "conn_ok U (db_main d) (db_conn d j)" using assms(2) by (simp add: db_ok_def)
  qed
  then show ?thesis using commit m free by (auto simp: db_ok_def took_effect_def)
next
  case (commit_nothing i op)
  have "conn_ok U (db_main d) (Running op [] None)" using assms(2) commit_nothing by (metis db_ok_def)
  then have "meta_step U op (db_main d) = db_main d"
    using statements_meta_step [of U op "[]" "db_main d" "db_main d"] by (auto simp: conn_ok_def)
  then show ?thesis using commit_nothing assms(2) by (auto simp: took_effect_def intro!: put_conn_ok)
next
  case (execute_first i op s ss m)
  have "conn_ok U (db_main d) (Running op (s # ss) None)" using assms(2) execute_first by (metis db_ok_def)
  then have "conn_ok U (db_main d) (Running op ss (Some m))"
    using execute_first by (auto simp: conn_ok_def intro: exI [of _ "[s]"])
  then show ?thesis using execute_first assms(2) by (auto simp: took_effect_def intro!: put_conn_ok)
next
  case (execute i op s ss m m')
  have "conn_ok U (db_main d) (Running op (s # ss) (Some m))" using assms(2) execute by (metis db_ok_def)
  then obtain ran where "statements U op = Inr (ran @ s # ss)" "run_stmts ran (db_main d) = Inr m"
    by (auto simp: conn_ok_def)
  then have "conn_ok U (db_main d) (Running op ss (Some m'))"
    using execute by (auto simp: conn_ok_def run_stmts_append intro!: exI [of _ "ran @ [s]"])
  then show ?thesis using execute assms(2) by (auto simp: took_effect_def intro!: put_conn_ok)
qed (use assms(2) in \<open>auto simp: took_effect_def conn_ok_def intro!: put_conn_ok\<close>)

lemma db_run_ok:
  assumes "db_run U d outs d'" "db_ok U d"
  shows "db_ok U d' \<and> db_main d' = fold (meta_step U) (took_effect outs) (db_main d)"
  using assms
proof (induction rule: db_run.induct)
  case (db_more d outs d1 ev out d2)
  then show ?case using db_step_ok [OF db_more.hyps(2)] by (auto simp: took_effect_def)
qed (simp add: took_effect_def)

section \<open>Properties\<close>

definition opened :: "meta \<Rightarrow> db" where
  "opened m = \<lparr>db_main = m, db_conn = \<lambda>i. Idle\<rparr>"

text \<open>C21 (meta_transactions): However the statements of any number of connections interleave, fail, wait for each other in vain or end with their process, the committed tables are at any time those that the operations of the store make, one after the other in the order of their commits; an operation whose statements or commit raise, or whose process ends before the commit, has no part in them, and no two connections hold a transaction at once. The tables stay well-formed.\<close>

theorem meta_transactions:
  assumes "db_run U (opened m) outs d"
  shows "db_main d = fold (meta_step U) (took_effect outs) m
    \<and> (meta_ok m \<longrightarrow> meta_ok (db_main d))
    \<and> (held (db_conn d i) \<noteq> None \<and> held (db_conn d j) \<noteq> None \<longrightarrow> i = j)"
proof -
  have "db_ok U (opened m)" by (simp add: db_ok_def opened_def)
  note ok = db_run_ok [OF assms this]
  have "meta_ok m \<Longrightarrow> meta_ok (fold (meta_step U) ops m)" for ops
    by (induction ops arbitrary: m) (auto intro: meta_step_ok)
  then show ?thesis using ok by (auto simp: db_ok_def opened_def)
qed

text \<open>The witness: two connections, of which the second finds the database locked.\<close>

definition demo_hot :: meta_op where
  "demo_hot = SetSetting (lit ''hot_days'') (lit ''7'')"

lemma demo_db_run:
  "db_run ascii_only (opened empty_meta) [Quiet, Quiet, Quiet, Quiet, Raised_by demo_hot RuntimeError, Took_effect demo_hot]
     (opened (set_setting (lit ''hot_days'') (lit ''7'') empty_meta))"
proof -
  let ?st = "sets (set_setting (lit ''hot_days'') (lit ''7''))" and ?m = "set_setting (lit ''hot_days'') (lit ''7'') empty_meta"
  let ?d = "\<lambda>c0 c1. \<lparr>db_main = empty_meta, db_conn = (\<lambda>i. Idle)(0 := c0, 1 := c1)\<rparr>"
  let ?r = "Running demo_hot" and ?U = ascii_only
  have s: "db_step ?U (Enter 0 demo_hot) (?d Idle Idle) Quiet (?d (?r [?st] None) Idle)"
    "db_step ?U (Enter 1 demo_hot) (?d (?r [?st] None) Idle) Quiet (?d (?r [?st] None) (?r [?st] None))"
    "db_step ?U (Execute 0) (?d (?r [?st] None) (?r [?st] None)) Quiet (?d (?r [] (Some ?m)) (?r [?st] None))"
    "db_step ?U (Locked 1) (?d (?r [] (Some ?m)) (?r [?st] None)) Quiet (?d (?r [] (Some ?m)) (Failing demo_hot RuntimeError None))"
    "db_step ?U (Rollback 1) (?d (?r [] (Some ?m)) (Failing demo_hot RuntimeError None)) (Raised_by demo_hot RuntimeError)
       (?d (?r [] (Some ?m)) Idle)"
    "db_step ?U (Commit 0) (?d (?r [] (Some ?m)) Idle) (Took_effect demo_hot) (opened ?m)"
    by (auto simp: db_step.simps demo_hot_def put_conn_def sets_def opened_def committed_def fun_upd_twist fun_eq_iff)
  have start: "opened empty_meta = ?d Idle Idle" by (simp add: opened_def fun_eq_iff)
  have "db_run ?U (?d Idle Idle) ([] @ [Quiet] @ [Quiet] @ [Quiet] @ [Quiet] @ [Raised_by demo_hot RuntimeError]
      @ [Took_effect demo_hot]) (opened ?m)"
    unfolding append_assoc [symmetric] by (intro db_more [OF _ s(6)] db_more [OF _ s(5)] db_more [OF _ s(4)] db_more [OF _ s(3)]
        db_more [OF _ s(2)] db_more [OF _ s(1)] db_none)
  then show ?thesis unfolding start by simp
qed

theorem meta_transactions_witness:
  "\<exists>outs d. db_run ascii_only (opened empty_meta) outs d \<and> Raised_by demo_hot RuntimeError \<in> set outs
    \<and> db_main d = meta_step ascii_only demo_hot empty_meta \<and> meta_ok (db_main d)"
proof -
  let ?d = "opened (set_setting (lit ''hot_days'') (lit ''7'') empty_meta)"
  have d: "db_main ?d = meta_step ascii_only demo_hot empty_meta" "meta_ok (db_main ?d)"
    using meta_transactions [OF demo_db_run, of 0 0] empty_meta_ok by (simp_all only: took_effect_def) auto
  show ?thesis
    by (intro exI [of _ "[Quiet, Quiet, Quiet, Quiet, Raised_by demo_hot RuntimeError, Took_effect demo_hot]"] exI [of _ ?d] conjI,
        rule demo_db_run, simp, rule d(1), rule d(2))
qed

end
