(* ===== verification/Receiver_Main.thy ===== *)
theory Receiver_Main
  imports Receiver
begin

text \<open>
  \<open>main\<close> of \<open>backend/app/services/receiver.py\<close>: the processes that share the port, one that forks the others, serves
  like them and then ends them. A process of this tree is a receiver of \<open>Fleet\<close>.
\<close>

section \<open>The processes\<close>

text \<open>The number of processes: the configured one, or half of the processors, at least one.\<close>

definition worker_count :: "int \<Rightarrow> int option \<Rightarrow> int" where
  "worker_count asked cpus =
     (if asked \<noteq> 0 then asked
      else max 1 ((case cpus of None \<Rightarrow> 2 | Some n \<Rightarrow> if n = 0 then 2 else n) div 2))"

text \<open>
  A child serves, has been sent \<open>SIGTERM\<close>, has ended but is not waited for, or is gone. The parent forks the
  children still to come, serves, goes through the children with \<open>kill\<close> and then with \<open>waitpid\<close>, and ends.
\<close>

datatype child = Busy | Signalled | Zombie | Reaped

datatype how_ended = Returned | Raised

datatype parent =
    Forks nat
  | Serves
  | Kills "nat list" how_ended
  | Waits "nat list" how_ended
  | Over how_ended

record tree =
  tr_parent :: parent
  tr_children :: "nat list"
  tr_child :: "nat \<Rightarrow> child"

definition tree_start :: "int \<Rightarrow> bool \<Rightarrow> tree" where
  "tree_start workers reuse_port =
     \<lparr>tr_parent = (if 1 < workers \<and> reuse_port then Forks (nat (workers - 1)) else Serves),
      tr_children = [], tr_child = \<lambda>pid. Reaped\<rparr>"

text \<open>The events: the calls of the parent in its order, and children that end, by themselves or by a signal.\<close>

datatype tree_event =
    ForkOk nat
  | ForkFails
  | AllForked
  | ServeEnds how_ended
  | KillNext
  | AllKilled
  | WaitNext
  | AllWaited
  | ChildEnds nat

text \<open>
  \<open>os.kill\<close> on a child that has ended and was not waited for does nothing; \<open>waitpid\<close> returns when its child has
  ended. The pid that a fork returns is not that of a child which is not yet waited for.
\<close>

inductive tree_step :: "tree_event \<Rightarrow> tree \<Rightarrow> tree \<Rightarrow> bool" where
  fork_ok: "tr_parent t = Forks (Suc n) \<Longrightarrow> pid \<notin> set (tr_children t) \<Longrightarrow>
    tree_step (ForkOk pid) t
      (t\<lparr>tr_parent := Forks n, tr_children := tr_children t @ [pid], tr_child := (tr_child t)(pid := Busy)\<rparr>)"
| fork_fails: "tr_parent t = Forks (Suc n) \<Longrightarrow> tree_step ForkFails t (t\<lparr>tr_parent := Over Raised\<rparr>)"
| all_forked: "tr_parent t = Forks 0 \<Longrightarrow> tree_step AllForked t (t\<lparr>tr_parent := Serves\<rparr>)"
| serve_ends: "tr_parent t = Serves \<Longrightarrow>
    tree_step (ServeEnds how) t (t\<lparr>tr_parent := Kills (tr_children t) how\<rparr>)"
| kill_next: "tr_parent t = Kills (pid # pids) how \<Longrightarrow>
    tree_step KillNext t (t\<lparr>tr_parent := Kills pids how,
      tr_child := (tr_child t)(pid := (if tr_child t pid = Busy then Signalled else tr_child t pid))\<rparr>)"
| all_killed: "tr_parent t = Kills [] how \<Longrightarrow>
    tree_step AllKilled t (t\<lparr>tr_parent := Waits (tr_children t) how\<rparr>)"
| wait_next: "tr_parent t = Waits (pid # pids) how \<Longrightarrow> tr_child t pid = Zombie \<Longrightarrow>
    tree_step WaitNext t (t\<lparr>tr_parent := Waits pids how, tr_child := (tr_child t)(pid := Reaped)\<rparr>)"
| all_waited: "tr_parent t = Waits [] how \<Longrightarrow> tree_step AllWaited t (t\<lparr>tr_parent := Over how\<rparr>)"
| child_ends: "pid \<in> set (tr_children t) \<Longrightarrow> tr_child t pid \<in> {Busy, Signalled} \<Longrightarrow>
    tree_step (ChildEnds pid) t (t\<lparr>tr_child := (tr_child t)(pid := Zombie)\<rparr>)"

inductive tree_run :: "tree_event list \<Rightarrow> tree \<Rightarrow> tree \<Rightarrow> bool" where
  tree_none: "tree_run [] t t"
| tree_more: "tree_run evs t t1 \<Longrightarrow> tree_step ev t1 t2 \<Longrightarrow> tree_run (evs @ [ev]) t t2"

section \<open>The invariant\<close>

text \<open>Which children the parent has dealt with, by where it is.\<close>

definition tree_ok :: "nat \<Rightarrow> tree \<Rightarrow> bool" where
  "tree_ok n t \<longleftrightarrow> distinct (tr_children t) \<and>
     (case tr_parent t of
        Forks k \<Rightarrow> length (tr_children t) + k = n \<and> (\<forall>p \<in> set (tr_children t). tr_child t p \<in> {Busy, Zombie})
      | Serves \<Rightarrow> length (tr_children t) = n \<and> (\<forall>p \<in> set (tr_children t). tr_child t p \<in> {Busy, Zombie})
      | Kills pids how \<Rightarrow> length (tr_children t) = n \<and> (\<exists>done. tr_children t = done @ pids
          \<and> (\<forall>p \<in> set done. tr_child t p \<in> {Signalled, Zombie}) \<and> (\<forall>p \<in> set pids. tr_child t p \<in> {Busy, Zombie}))
      | Waits pids how \<Rightarrow> length (tr_children t) = n \<and> (\<exists>done. tr_children t = done @ pids
          \<and> (\<forall>p \<in> set done. tr_child t p = Reaped) \<and> (\<forall>p \<in> set pids. tr_child t p \<in> {Signalled, Zombie}))
      | Over how \<Rightarrow> (length (tr_children t) = n \<and> (\<forall>p \<in> set (tr_children t). tr_child t p = Reaped))
          \<or> (how = Raised \<and> length (tr_children t) < n))"

lemma tree_start_ok: "tree_ok (if 1 < workers \<and> reuse_port then nat (workers - 1) else 0) (tree_start workers reuse_port)"
  by (simp add: tree_ok_def tree_start_def)

lemma tree_step_ok:
  assumes "tree_step ev t t'" "tree_ok n t"
  shows "tree_ok n t'"
  using assms
proof cases
  case (kill_next pid pids how)
  then obtain dn where d: "tr_children t = dn @ pid # pids" "\<forall>p \<in> set dn. tr_child t p \<in> {Signalled, Zombie}"
    "\<forall>p \<in> set (pid # pids). tr_child t p \<in> {Busy, Zombie}" "distinct (tr_children t)" "length (tr_children t) = n"
    using assms(2) by (auto simp: tree_ok_def)
  then show ?thesis using kill_next
    by (auto simp: tree_ok_def intro!: exI [of _ "dn @ [pid]"])
next
  case (wait_next pid pids how)
  then obtain dn where d: "tr_children t = dn @ pid # pids" "\<forall>p \<in> set dn. tr_child t p = Reaped"
    "\<forall>p \<in> set (pid # pids). tr_child t p \<in> {Signalled, Zombie}" "distinct (tr_children t)" "length (tr_children t) = n"
    using assms(2) by (auto simp: tree_ok_def)
  then show ?thesis using wait_next
    by (auto simp: tree_ok_def intro!: exI [of _ "dn @ [pid]"])
next
  case (child_ends pid)
  show ?thesis
  proof (cases "tr_parent t")
    case (Kills pids how)
    then obtain dn where "tr_children t = dn @ pids" "\<forall>p \<in> set dn. tr_child t p \<in> {Signalled, Zombie}"
      "\<forall>p \<in> set pids. tr_child t p \<in> {Busy, Zombie}" using assms(2) by (auto simp: tree_ok_def)
    then show ?thesis using child_ends assms(2) Kills by (auto simp: tree_ok_def intro!: exI [of _ dn])
  next
    case (Waits pids how)
    then obtain dn where "tr_children t = dn @ pids" "\<forall>p \<in> set dn. tr_child t p = Reaped"
      "\<forall>p \<in> set pids. tr_child t p \<in> {Signalled, Zombie}" using assms(2) by (auto simp: tree_ok_def)
    then show ?thesis using child_ends assms(2) Waits by (auto simp: tree_ok_def intro!: exI [of _ dn])
  qed (use child_ends assms(2) in \<open>auto simp: tree_ok_def\<close>)
qed (auto simp: tree_ok_def intro!: exI [of _ "[]"])

lemma tree_run_ok: "tree_run evs t t' \<Longrightarrow> tree_ok n t \<Longrightarrow> tree_ok n t'"
  by (induction rule: tree_run.induct) (auto intro: tree_step_ok)

lemma tree_run_append: "tree_run b t1 t2 \<Longrightarrow> tree_run a t t1 \<Longrightarrow> tree_run (a @ b) t t2"
  by (induction rule: tree_run.induct) (auto intro: tree_more simp flip: append_assoc)

lemma tree_run_one: "tree_step ev t t' \<Longrightarrow> tree_run [ev] t t'"
  using tree_more [OF tree_none] by fastforce

text \<open>Steps that the parent still has to make, and children that have not ended.\<close>

definition awake :: "(nat \<Rightarrow> child) \<Rightarrow> nat list \<Rightarrow> nat" where
  "awake f ps = card {p \<in> set ps. f p \<in> {Busy, Signalled}}"

lemma awake_le: "(\<And>p. g p \<in> {Busy, Signalled} \<Longrightarrow> f p \<in> {Busy, Signalled}) \<Longrightarrow> awake g ps \<le> awake f ps"
  unfolding awake_def by (intro card_mono) auto

lemma awake_less: "pid \<in> set ps \<Longrightarrow> f pid \<in> {Busy, Signalled} \<Longrightarrow> awake (f(pid := Zombie)) ps < awake f ps"
  unfolding awake_def by (intro psubset_card_mono) auto

fun parent_left :: "nat \<Rightarrow> parent \<Rightarrow> nat" where
  "parent_left n (Kills pids how) = length pids + n + 3"
| "parent_left n (Waits pids how) = length pids + 2"
| "parent_left n wherever = 0"

fun ending :: "parent \<Rightarrow> bool" where
  "ending (Kills pids how) = True"
| "ending (Waits pids how) = True"
| "ending wherever = False"

definition tree_left :: "tree \<Rightarrow> nat" where
  "tree_left t = parent_left (length (tr_children t)) (tr_parent t) + awake (tr_child t) (tr_children t)"

text \<open>While it ends the tree, the parent can always go on as long as its children end when they are told to.\<close>

lemma tree_goes_on:
  assumes "tree_ok n t" "ending (tr_parent t)"
  shows "\<exists>ev t'. tree_step ev t t' \<and> tree_left t' < tree_left t
    \<and> (ending (tr_parent t') \<or> (\<exists>how. tr_parent t' = Over how))"
proof -
  obtain pids how where "tr_parent t = Kills pids how \<or> tr_parent t = Waits pids how"
    using assms(2) by (cases "tr_parent t") auto
  then consider (kill) pid pids how where "tr_parent t = Kills (pid # pids) how"
    | (killed) how where "tr_parent t = Kills [] how"
    | (wait) pid pids how where "tr_parent t = Waits (pid # pids) how"
    | (waited) how where "tr_parent t = Waits [] how"
    by (cases pids) auto
  then show ?thesis
  proof cases
    case kill
    have le: "awake ((tr_child t)(pid := (if tr_child t pid = Busy then Signalled else tr_child t pid))) (tr_children t)
        \<le> awake (tr_child t) (tr_children t)" by (rule awake_le) (auto split: if_splits)
    show ?thesis
      by (intro exI conjI, rule tree_step.kill_next [OF kill]) (use le in \<open>simp_all add: tree_left_def kill\<close>)
  next
    case killed
    show ?thesis
      by (intro exI conjI, rule tree_step.all_killed [OF killed]) (simp_all add: tree_left_def killed)
  next
    case waited
    show ?thesis
      by (intro exI conjI, rule tree_step.all_waited [OF waited]) (simp_all add: tree_left_def waited)
  next
    case wait
    then have kid: "pid \<in> set (tr_children t)" "tr_child t pid \<in> {Signalled, Zombie}"
      using assms(1) by (auto simp: tree_ok_def)
    show ?thesis
    proof (cases "tr_child t pid = Zombie")
      case True
      have le: "awake ((tr_child t)(pid := Reaped)) (tr_children t) \<le> awake (tr_child t) (tr_children t)"
        by (rule awake_le) (auto split: if_splits)
      show ?thesis
        by (intro exI conjI, rule tree_step.wait_next [OF wait True]) (use le in \<open>simp_all add: tree_left_def wait\<close>)
    next
      case False
      then have ends: "tr_child t pid \<in> {Busy, Signalled}" using kid(2) by auto
      show ?thesis
        by (intro exI conjI, rule tree_step.child_ends [OF kid(1) ends])
           (simp_all add: tree_left_def wait awake_less [where f = "tr_child t", OF kid(1) ends])
    qed
  qed
qed

lemma tree_reaches_end:
  assumes "tree_ok n t" "ending (tr_parent t)"
  shows "\<exists>evs t' how. tree_run evs t t' \<and> tr_parent t' = Over how"
  using assms
proof (induction "tree_left t" arbitrary: t rule: less_induct)
  case less
  obtain ev t1 where t1: "tree_step ev t t1" "tree_left t1 < tree_left t"
    "ending (tr_parent t1) \<or> (\<exists>how. tr_parent t1 = Over how)"
    using tree_goes_on [OF less.prems] by blast
  show ?case
  proof (cases "ending (tr_parent t1)")
    case True
    then obtain evs t2 how where "tree_run evs t1 t2" "tr_parent t2 = Over how"
      using less.hyps [OF t1(2) tree_step_ok [OF t1(1) less.prems(1)]] by blast
    then show ?thesis using tree_run_append [OF _ tree_run_one [OF t1(1)]] by blast
  next
    case False
    then show ?thesis using t1(3) tree_run_one [OF t1(1)] by blast
  qed
qed

lemma tree_over:
  assumes "tree_run evs t0 t" "tree_ok n t0" "\<And>h. tr_parent t0 \<noteq> Over h" "ForkFails \<notin> set evs" "tr_parent t = Over how"
  shows "p \<in> set (tr_children t) \<Longrightarrow> tr_child t p = Reaped"
  using assms
proof (induction arbitrary: p how rule: tree_run.induct)
  case (tree_more evs t t1 ev t2)
  have ok: "tree_ok n t1" using tree_run_ok [OF tree_more.hyps(1) tree_more.prems(2)] .
  from tree_more.hyps(2) show ?case
  proof cases
    case (all_waited h)
    then show ?thesis using ok tree_more.prems(1) by (auto simp: tree_ok_def)
  next
    case (child_ends pid)
    then have "tr_child t1 pid = Reaped" using tree_more.IH [of pid how] tree_more.prems by auto
    then show ?thesis using child_ends by auto
  qed (use tree_more.prems in auto)
qed auto

section \<open>Properties\<close>

text \<open>Also (no_child_left): However the parent's own service ends, by return or by an exception, the program ends only after every child has been told to end, has ended and was waited for; the one exception is a fork that fails, which ends the program with the children forked so far still serving. While it serves there are as many processes as were asked for, less those that ended by themselves, which nothing replaces.\<close>

theorem no_child_left:
  assumes "tree_run evs (tree_start workers reuse_port) t"
  shows "(tr_parent t = Over how \<and> (how = Returned \<or> ForkFails \<notin> set evs) \<longrightarrow>
        (\<forall>p \<in> set (tr_children t). tr_child t p = Reaped))
    \<and> (ending (tr_parent t) \<longrightarrow> (\<exists>evs' t' how'. tree_run evs' t t' \<and> tr_parent t' = Over how'))
    \<and> (tr_parent t = Serves \<longrightarrow> int (length (tr_children t)) = (if 1 < workers \<and> reuse_port then workers - 1 else 0)
        \<and> (\<forall>p \<in> set (tr_children t). tr_child t p \<in> {Busy, Zombie}))"
proof (intro conjI impI)
  note start = tree_start_ok [of workers reuse_port]
  note ok = tree_run_ok [OF assms start]
  have not_over: "tr_parent (tree_start workers reuse_port) \<noteq> Over h" for h by (simp add: tree_start_def)
  assume "tr_parent t = Over how \<and> (how = Returned \<or> ForkFails \<notin> set evs)"
  then show "\<forall>p \<in> set (tr_children t). tr_child t p = Reaped"
    using ok tree_over [OF assms start not_over] by (auto simp: tree_ok_def)
next
  assume "ending (tr_parent t)"
  then show "\<exists>evs' t' how'. tree_run evs' t t' \<and> tr_parent t' = Over how'"
    by (rule tree_reaches_end [OF tree_run_ok [OF assms tree_start_ok]])
qed (use tree_run_ok [OF assms tree_start_ok] in \<open>auto simp: tree_ok_def split: if_splits\<close>)

text \<open>The witness: two processes, the child ends when it is told to.\<close>

definition demo_tree :: "parent \<Rightarrow> child \<Rightarrow> tree" where
  "demo_tree par c = \<lparr>tr_parent = par, tr_children = [7], tr_child = (\<lambda>pid. Reaped)(7 := c)\<rparr>"

lemma demo_tree_run:
  "tree_run [ForkOk 7, AllForked, ServeEnds Returned, KillNext, AllKilled, ChildEnds 7, WaitNext, AllWaited]
     (tree_start 2 True) (demo_tree (Over Returned) Reaped)"
proof -
  have s: "tree_step (ForkOk 7) (tree_start 2 True) (demo_tree (Forks 0) Busy)"
    "tree_step AllForked (demo_tree (Forks 0) Busy) (demo_tree Serves Busy)"
    "tree_step (ServeEnds Returned) (demo_tree Serves Busy) (demo_tree (Kills [7] Returned) Busy)"
    "tree_step KillNext (demo_tree (Kills [7] Returned) Busy) (demo_tree (Kills [] Returned) Signalled)"
    "tree_step AllKilled (demo_tree (Kills [] Returned) Signalled) (demo_tree (Waits [7] Returned) Signalled)"
    "tree_step (ChildEnds 7) (demo_tree (Waits [7] Returned) Signalled) (demo_tree (Waits [7] Returned) Zombie)"
    "tree_step WaitNext (demo_tree (Waits [7] Returned) Zombie) (demo_tree (Waits [] Returned) Reaped)"
    "tree_step AllWaited (demo_tree (Waits [] Returned) Reaped) (demo_tree (Over Returned) Reaped)"
    by (auto simp: tree_step.simps demo_tree_def tree_start_def)
  have "tree_run ([] @ [ForkOk 7] @ [AllForked] @ [ServeEnds Returned] @ [KillNext] @ [AllKilled] @ [ChildEnds 7]
      @ [WaitNext] @ [AllWaited]) (tree_start 2 True) (demo_tree (Over Returned) Reaped)"
    unfolding append_assoc [symmetric] by (intro tree_more [OF _ s(8)] tree_more [OF _ s(7)] tree_more [OF _ s(6)]
        tree_more [OF _ s(5)] tree_more [OF _ s(4)] tree_more [OF _ s(3)] tree_more [OF _ s(2)] tree_more [OF _ s(1)] tree_none)
  then show ?thesis by simp
qed

theorem no_child_left_witness:
  "tr_parent (demo_tree (Over Returned) Reaped) = Over Returned
    \<and> (\<forall>p \<in> set (tr_children (demo_tree (Over Returned) Reaped)). tr_child (demo_tree (Over Returned) Reaped) p = Reaped)"
  using no_child_left [OF demo_tree_run, of Returned] by (simp add: demo_tree_def)

end
