(* ===== verification/Listeners.thy ===== *)
theory Listeners
  imports Config Receiver_Main
begin

text \<open>
  The sockets of a receiver process, \<open>_udp_socket\<close> and the endpoints of \<open>_serve\<close> in \<open>backend/app/services/receiver.py\<close>, and
  why the processes that \<open>main\<close> forks can all have them. Which sockets the system lets be bound next to each other is a
  parameter.
\<close>

section \<open>Endpoints\<close>

datatype transport = Udp | Stream

record listener =
  li_transport :: transport
  li_host :: pystr
  li_port :: int
  li_reuse_address :: bool
  li_reuse_port :: bool
  li_rcvbuf :: "int option"
  li_backlog :: "int option"

text \<open>\<open>buf_ok\<close>: the system grants the size of the receive buffer; otherwise a warning is written and its own stays.\<close>

definition udp_socket :: "bool \<Rightarrow> bool \<Rightarrow> ReceiverConfig \<Rightarrow> listener" where
  "udp_socket reuse_port buf_ok c =
     \<lparr>li_transport = Udp, li_host = rc_bind_address c, li_port = rc_udp_port c, li_reuse_address = True,
      li_reuse_port = reuse_port, li_rcvbuf = (if buf_ok then Some (rc_so_rcvbuf c) else None), li_backlog = None\<rparr>"

definition tcp_server :: "bool \<Rightarrow> ReceiverConfig \<Rightarrow> listener" where
  "tcp_server reuse_port c =
     \<lparr>li_transport = Stream, li_host = rc_bind_address c, li_port = rc_tcp_port c, li_reuse_address = True,
      li_reuse_port = reuse_port, li_rcvbuf = None, li_backlog = Some 512\<rparr>"

definition endpoints :: "bool \<Rightarrow> bool \<Rightarrow> ReceiverConfig \<Rightarrow> listener list" where
  "endpoints reuse_port buf_ok c =
     (if rc_udp_enabled c then [udp_socket reuse_port buf_ok c] else [])
     @ (if rc_tcp_enabled c then [tcp_server reuse_port c] else [])"

section \<open>Sharing the ports\<close>

text \<open>Binding one after the other, each next to those that are bound already.\<close>

fun binds :: "(listener list \<Rightarrow> listener \<Rightarrow> bool) \<Rightarrow> listener list \<Rightarrow> listener list \<Rightarrow> bool" where
  "binds may_bind bound [] = True"
| "binds may_bind bound (l # ls) = (may_bind bound l \<and> binds may_bind (bound @ [l]) ls)"

text \<open>Two sockets can be bound side by side when they differ in transport or when both have \<open>SO_REUSEPORT\<close> set.\<close>

locale port_sharing =
  fixes may_bind :: "listener list \<Rightarrow> listener \<Rightarrow> bool"
  assumes shared: "(\<And>b. b \<in> set bound \<Longrightarrow> li_transport b \<noteq> li_transport l \<or> (li_reuse_port b \<and> li_reuse_port l))
    \<Longrightarrow> may_bind bound l"
begin

lemma all_reuse: "(\<And>l. l \<in> set (bound @ ls) \<Longrightarrow> li_reuse_port l) \<Longrightarrow> binds may_bind bound ls"
proof (induction ls arbitrary: bound)
  case (Cons l ls)
  have "may_bind bound l" using Cons.prems by (intro shared) auto
  moreover have "binds may_bind (bound @ [l]) ls" using Cons.prems by (intro Cons.IH) auto
  ultimately show ?case by simp
qed simp

lemma all_different: "distinct (map li_transport (bound @ ls)) \<Longrightarrow> binds may_bind bound ls"
proof (induction ls arbitrary: bound)
  case (Cons l ls)
  have "li_transport b \<noteq> li_transport l" if "b \<in> set bound" for b
  proof
    assume "li_transport b = li_transport l"
    then have "li_transport l \<in> li_transport ` set bound" using that by (metis imageI)
    then show False using Cons.prems by auto
  qed
  then have "may_bind bound l" by (intro shared) auto
  moreover have "binds may_bind (bound @ [l]) ls" using Cons.prems by (intro Cons.IH) auto
  ultimately show ?case by simp
qed simp

end

text \<open>The rule of Linux for one address, with the ports compared as well.\<close>

definition linux_bind :: "listener list \<Rightarrow> listener \<Rightarrow> bool" where
  "linux_bind bound l \<longleftrightarrow> (\<forall>b \<in> set bound. li_transport b \<noteq> li_transport l \<or> li_port b \<noteq> li_port l
     \<or> li_reuse_port b \<and> li_reuse_port l)"

interpretation linux_ports: port_sharing linux_bind
  by unfold_locales (auto simp: linux_bind_def)

lemma endpoints_reuse: "l \<in> set (endpoints reuse_port ok c) \<Longrightarrow> li_reuse_port l = reuse_port"
  by (auto simp: endpoints_def udp_socket_def tcp_server_def split: if_splits)

lemma endpoints_distinct: "distinct (map li_transport (endpoints reuse_port ok c))"
  by (simp add: endpoints_def udp_socket_def tcp_server_def)

section \<open>Properties\<close>

text \<open>Also (ports_shared): However many processes are configured and with whatever the system offers, once the parent serves, all its processes can bind their endpoints, in any order: more than one are forked only where every socket is set to share its port.\<close>

theorem ports_shared:
  assumes "port_sharing may_bind" and "tree_run evs (tree_start workers reuse_port) t" and "tr_parent t = Serves"
    and "mset ls = mset (concat (replicate (Suc (length (tr_children t))) (endpoints reuse_port buf_ok c)))"
  shows "binds may_bind [] ls"
proof (cases reuse_port)
  case True
  have "set ls = set (concat (replicate (Suc (length (tr_children t))) (endpoints reuse_port buf_ok c)))"
    using assms(4) by (metis set_mset_mset)
  then have "li_reuse_port l" if "l \<in> set ls" for l
    using that endpoints_reuse True by (auto split: if_splits)
  then show ?thesis by (intro port_sharing.all_reuse [OF assms(1)]) simp
next
  case False
  have "tree_ok 0 t" using tree_run_ok [OF assms(2)] tree_start_ok [of workers reuse_port] False by simp
  then have "length (tr_children t) = 0" using assms(3) by (simp add: tree_ok_def)
  then have "mset (map li_transport ls) = mset (map li_transport (endpoints reuse_port buf_ok c))"
    using assms(4) by simp
  then have "distinct (map li_transport ls)" using endpoints_distinct by (metis mset_eq_imp_distinct_iff)
  then show ?thesis by (intro port_sharing.all_different [OF assms(1)]) simp
qed

text \<open>The witness: two processes on Linux.\<close>

definition demo_receiver :: ReceiverConfig where
  "demo_receiver = \<lparr>rc_udp_enabled = True, rc_tcp_enabled = True, rc_bind_address = lit ''0.0.0.0'', rc_udp_port = 514,
     rc_tcp_port = 514, rc_workers = 2, rc_so_rcvbuf = 16777216, rc_max_datagram = 4096, rc_push_batch = 500,
     rc_push_interval_ms = 200, rc_router_refresh_seconds = 15\<rparr>"

theorem ports_shared_witness:
  "binds linux_bind [] (endpoints True True demo_receiver @ endpoints True True demo_receiver)"
proof -
  have "tree_run ([] @ [ForkOk 7] @ [AllForked]) (tree_start 2 True) (demo_tree Serves Busy)"
    unfolding append_assoc [symmetric]
    by (intro tree_more [of _ _ "demo_tree (Forks 0) Busy"] tree_more [of _ _ "tree_start 2 True"] tree_none)
       (auto simp: tree_step.simps demo_tree_def tree_start_def)
  from ports_shared [OF linux_ports.port_sharing_axioms this, of _ True demo_receiver] show ?thesis
    by (simp add: demo_tree_def)
qed

end
