(* ===== verification/Worker.thy ===== *)
theory Worker
  imports Redis_Queue Metrics Complex_Main
begin

text \<open>
  \<open>backend/app/services/worker.py\<close>: the batch writer as a program counter per worker process,
  stepped by events that carry the outcome of each remote call. Any number of workers share the
  queue with producers and with the recovery of dead workers' claims; a process can be killed
  at any point and started again. ClickHouse is a parameter with the law of an insert.
\<close>

section \<open>Decoding a claim\<close>

text \<open>
  A row ready for the insert: the event time (local time, identified with its epoch second) and
  the remaining ten columns. \<open>ts_ok\<close> is the range \<open>datetime\<close> covers, shifted by the local
  zone.
\<close>

type_synonym crow = "int \<times> mval list"

definition fromtimestamp :: "(int \<Rightarrow> bool) \<Rightarrow> mval \<Rightarrow> int result" where
  "fromtimestamp ts_ok v =
     (case v of
        MInt n \<Rightarrow> if ts_ok n then Inr n else Inl ValueError
      | MBool b \<Rightarrow> (let n = (if b then 1 else 0) in if ts_ok n then Inr n else Inl ValueError)
      | MFloat (Some n) \<Rightarrow> if ts_ok n then Inr n else Inl ValueError
      | MFloat None \<Rightarrow> Inl ValueError
      | _ \<Rightarrow> Inl TypeError)"

text \<open>The loop of \<open>_decode\<close>; an exception of \<open>fromtimestamp\<close> escapes it.\<close>

fun decode_rows ::
    "(pybytes \<Rightarrow> mval result) \<Rightarrow> (int \<Rightarrow> bool) \<Rightarrow> pybytes list \<Rightarrow> crow list \<Rightarrow> nat
      \<Rightarrow> (crow list \<times> nat) result" where
  "decode_rows unpack ts_ok [] rows bad = Inr (rows, bad)"
| "decode_rows unpack ts_ok (payload # claimed) rows bad =
     (case decode unpack payload of
        None \<Rightarrow> decode_rows unpack ts_ok claimed rows (bad + 1)
      | Some row \<Rightarrow>
          (case fromtimestamp ts_ok (hd row) of
             Inl e \<Rightarrow> Inl e
           | Inr t \<Rightarrow> decode_rows unpack ts_ok claimed (rows @ [(t, tl row)]) bad))"

section \<open>Processes\<close>

text \<open>
  Where a worker is: \<open>Inserting\<close> and \<open>Acking\<close> remember the claimed payloads and their rows,
  \<open>Inserting\<close> also the backoff and the attempts made. \<open>Down\<close> is a process that does not run.
\<close>

datatype proc =
    Down
  | Booting
  | Looping
  | Inserting "pybytes list" "crow list" rat nat
  | Acking "pybytes list" "crow list"
  | Returning
  | Draining

definition MAX_BACKOFF :: rat where "MAX_BACKOFF = 30"

record ('r, 'c) worker_env =
  w_redis :: "'r redis"
  w_lim :: nat
  w_queue :: LogQueue
  w_batch :: nat
  w_unpack :: "pybytes \<Rightarrow> mval result"
  w_ts_ok :: "int \<Rightarrow> bool"
  w_insert :: "crow list \<Rightarrow> 'c \<Rightarrow> 'c"      \<comment> \<open>an insert the server has carried out\<close>

record ('r, 'c) sys =
  sys_redis :: 'r
  sys_ch :: 'c
  procs :: "string \<Rightarrow> proc"
  stops :: "string \<Rightarrow> bool"
  stats :: "string \<Rightarrow> Metrics"

text \<open>
  An insert is acknowledged, or fails after any number of its rows were stored; closing the
  pooled connection after a failure can itself raise.
\<close>

datatype insert_end = Inserted | InsertFailed nat bool

datatype wevent =
    Start "nat \<Rightarrow> bool"
  | Boot net
  | SetStop
  | DoClaim net
  | DoInsert insert_end
  | DoAck net
  | DoReturn net
  | DoDrain net
  | Kill

definition set_proc :: "string \<Rightarrow> proc \<Rightarrow> ('r, 'c) sys \<Rightarrow> ('r, 'c) sys" where
  "set_proc w p st = st\<lparr>procs := (procs st)(w := p)\<rparr>"

definition count_stat :: "string \<Rightarrow> string \<Rightarrow> int \<Rightarrow> ('r, 'c) sys \<Rightarrow> ('r, 'c) sys" where
  "count_stat w name v st = st\<lparr>stats := (stats st)(w := incr name v (stats st w))\<rparr>"

text \<open>The start of \<open>run\<close>: wait for Redis (30 attempts), then requeue one's own old claim.\<close>

definition do_start :: "string \<Rightarrow> (nat \<Rightarrow> bool) \<Rightarrow> ('r, 'c) sys \<Rightarrow> ('r, 'c) sys" where
  "do_start w pings st =
     (if wait_for_redis pings 30 then set_proc w Booting (st\<lparr>stops := (stops st)(w := False)\<rparr>) else st)"

definition do_boot :: "('r, 'c) worker_env \<Rightarrow> string \<Rightarrow> net \<Rightarrow> ('r, 'c) sys \<Rightarrow> ('r, 'c) sys" where
  "do_boot E w net st =
     (case release (w_redis E) (w_lim E) (w_queue E) net (inflight_key w) (sys_redis st) of
        (Inl _, r) \<Rightarrow> set_proc w Down (st\<lparr>sys_redis := r\<rparr>)
      | (Inr _, r) \<Rightarrow> set_proc w Looping (st\<lparr>sys_redis := r\<rparr>))"

text \<open>One round of the main loop, up to the insert of what it claimed.\<close>

definition do_claim :: "('r, 'c) worker_env \<Rightarrow> string \<Rightarrow> net \<Rightarrow> ('r, 'c) sys \<Rightarrow> ('r, 'c) sys" where
  "do_claim E w net st =
     (if stops st w then set_proc w Draining st
      else
        (case claim (w_redis E) (w_lim E) (w_queue E) net (inflight_key w) (int (w_batch E))
                (sys_redis st) of
           (Inl _, r) \<Rightarrow> st\<lparr>sys_redis := r\<rparr>
         | (Inr claimed, r) \<Rightarrow>
             (let st = st\<lparr>sys_redis := r\<rparr>
              in if claimed = [] then st
                 else
                   (case decode_rows (w_unpack E) (w_ts_ok E) claimed [] 0 of
                      Inl _ \<Rightarrow> set_proc w Down st
                    | Inr (rows, bad) \<Rightarrow>
                        (let st = (if bad \<noteq> 0 then count_stat w PARSER_ERRORS (int bad) st else st)
                         in if rows = [] then set_proc w (Acking claimed []) st
                            else set_proc w (Inserting claimed rows 1 0) st)))))"

text \<open>One round of the retry loop.\<close>

definition do_insert ::
    "('r, 'c) worker_env \<Rightarrow> string \<Rightarrow> insert_end \<Rightarrow> pybytes list \<Rightarrow> crow list \<Rightarrow> rat \<Rightarrow> nat
      \<Rightarrow> ('r, 'c) sys \<Rightarrow> ('r, 'c) sys" where
  "do_insert E w out claimed rows backoff attempt st =
     (if stops st w then set_proc w Returning st
      else
        (case out of
           Inserted \<Rightarrow>
             set_proc w (Acking claimed rows) (st\<lparr>sys_ch := w_insert E rows (sys_ch st)\<rparr>)
         | InsertFailed k close_raises \<Rightarrow>
             (let st = count_stat w CH_INSERT_ERRORS 1
                         (st\<lparr>sys_ch := (if k = 0 then sys_ch st else w_insert E (take k rows) (sys_ch st))\<rparr>)
              in if close_raises then set_proc w Down st
                 else set_proc w (Inserting claimed rows (min (backoff * 2) MAX_BACKOFF) (attempt + 1)) st)))"

definition do_ack ::
    "('r, 'c) worker_env \<Rightarrow> string \<Rightarrow> net \<Rightarrow> crow list \<Rightarrow> ('r, 'c) sys \<Rightarrow> ('r, 'c) sys" where
  "do_ack E w net rows st =
     (case ack (w_redis E) net (inflight_key w) (sys_redis st) of
        (Inl _, r) \<Rightarrow> set_proc w Down (st\<lparr>sys_redis := r\<rparr>)
      | (Inr _, r) \<Rightarrow>
          (let st = set_proc w Looping (st\<lparr>sys_redis := r\<rparr>)
           in if rows = [] then st
              else count_stat w CH_INSERT_BATCHES 1 (count_stat w STORED (int (length rows)) st)))"

text \<open>The claim handed back when stopped while retrying, and the release of \<open>shutdown\<close>.\<close>

definition do_return :: "('r, 'c) worker_env \<Rightarrow> string \<Rightarrow> net \<Rightarrow> ('r, 'c) sys \<Rightarrow> ('r, 'c) sys" where
  "do_return E w net st =
     (case release (w_redis E) (w_lim E) (w_queue E) net (inflight_key w) (sys_redis st) of
        (Inl _, r) \<Rightarrow> set_proc w Down (st\<lparr>sys_redis := r\<rparr>)
      | (Inr _, r) \<Rightarrow> set_proc w Looping (st\<lparr>sys_redis := r\<rparr>))"

definition do_drain :: "('r, 'c) worker_env \<Rightarrow> string \<Rightarrow> net \<Rightarrow> ('r, 'c) sys \<Rightarrow> ('r, 'c) sys" where
  "do_drain E w net st =
     set_proc w Down (st\<lparr>sys_redis :=
       snd (release (w_redis E) (w_lim E) (w_queue E) net (inflight_key w) (sys_redis st))\<rparr>)"

text \<open>An event does something only where the process is waiting for it.\<close>

fun worker_step ::
    "('r, 'c) worker_env \<Rightarrow> string \<Rightarrow> wevent \<Rightarrow> ('r, 'c) sys \<Rightarrow> ('r, 'c) sys" where
  "worker_step E w (Start pings) st = (if procs st w = Down then do_start w pings st else st)"
| "worker_step E w (Boot net) st = (if procs st w = Booting then do_boot E w net st else st)"
| "worker_step E w SetStop st = st\<lparr>stops := (stops st)(w := True)\<rparr>"
| "worker_step E w (DoClaim net) st = (if procs st w = Looping then do_claim E w net st else st)"
| "worker_step E w (DoInsert out) st =
     (case procs st w of
        Inserting claimed rows backoff attempt \<Rightarrow> do_insert E w out claimed rows backoff attempt st
      | _ \<Rightarrow> st)"
| "worker_step E w (DoAck net) st =
     (case procs st w of Acking claimed rows \<Rightarrow> do_ack E w net rows st | _ \<Rightarrow> st)"
| "worker_step E w (DoReturn net) st = (if procs st w = Returning then do_return E w net st else st)"
| "worker_step E w (DoDrain net) st = (if procs st w = Draining then do_drain E w net st else st)"
| "worker_step E w Kill st = set_proc w Down st"

text \<open>The pipeline: workers, producers, and the release of any worker's claim by maintenance.\<close>

datatype pevent =
    Work string wevent
  | Produce net "pybytes list"
  | Recover string net

fun pipe_step :: "('r, 'c) worker_env \<Rightarrow> pevent \<Rightarrow> ('r, 'c) sys \<Rightarrow> ('r, 'c) sys" where
  "pipe_step E (Work w ev) st = worker_step E w ev st"
| "pipe_step E (Produce net xs) st =
     st\<lparr>sys_redis := snd (push_many (w_redis E) (w_queue E) net xs (sys_redis st))\<rparr>"
| "pipe_step E (Recover w net) st =
     st\<lparr>sys_redis := snd (release (w_redis E) (w_lim E) (w_queue E) net (inflight_key w) (sys_redis st))\<rparr>"

definition pipe_run :: "('r, 'c) worker_env \<Rightarrow> pevent list \<Rightarrow> ('r, 'c) sys \<Rightarrow> ('r, 'c) sys" where
  "pipe_run E evs st = fold (pipe_step E) evs st"

section \<open>What a claim is worth\<close>

text \<open>The row of a payload that can be stored.\<close>

definition good_row :: "('r, 'c) worker_env \<Rightarrow> pybytes \<Rightarrow> crow option" where
  "good_row E p =
     (case decode (w_unpack E) p of
        None \<Rightarrow> None
      | Some row \<Rightarrow>
          (case fromtimestamp (w_ts_ok E) (hd row) of Inl _ \<Rightarrow> None | Inr t \<Rightarrow> Some (t, tl row)))"

definition good_rows :: "('r, 'c) worker_env \<Rightarrow> pybytes list \<Rightarrow> crow list" where
  "good_rows E ps = List.map_filter (good_row E) ps"

abbreviation goods :: "('r, 'c) worker_env \<Rightarrow> pybytes list \<Rightarrow> crow multiset" where
  "goods E ps \<equiv> mset (good_rows E ps)"

lemma good_rows_simps [simp]:
  "good_rows E [] = []"
  "good_rows E (p # ps) = (case good_row E p of None \<Rightarrow> [] | Some r \<Rightarrow> [r]) @ good_rows E ps"
  "good_rows E (a @ b) = good_rows E a @ good_rows E b"
  by (simp_all add: good_rows_def List.map_filter_def split: option.splits)

lemma goods_take_drop: "goods E (take n ps) + goods E (drop n ps) = goods E ps"
  by (metis append_take_drop_id good_rows_simps(3) mset_append)

text \<open>When \<open>_decode\<close> returns, its rows are the good ones, in order.\<close>

lemma decode_rows_Inr:
  "decode_rows (w_unpack E) (w_ts_ok E) ps rows bad = Inr (rows', bad') \<Longrightarrow> rows' = rows @ good_rows E ps"
proof (induction ps arbitrary: rows bad)
  case (Cons p ps)
  then show ?case by (auto simp: good_row_def dest: Cons.IH split: option.splits sum.splits)
qed simp

text \<open>A payload that \<open>_decode\<close> raises on.\<close>

definition poison :: "('r, 'c) worker_env \<Rightarrow> pybytes \<Rightarrow> bool" where
  "poison E p \<longleftrightarrow>
     (case decode (w_unpack E) p of
        None \<Rightarrow> False
      | Some row \<Rightarrow> (case fromtimestamp (w_ts_ok E) (hd row) of Inl _ \<Rightarrow> True | Inr _ \<Rightarrow> False))"

lemma decode_rows_total:
  "\<forall>p \<in> set ps. \<not> poison E p \<Longrightarrow>
     \<exists>bad'. decode_rows (w_unpack E) (w_ts_ok E) ps rows bad = Inr (rows @ good_rows E ps, bad')"
proof (induction ps arbitrary: rows bad)
  case (Cons p ps)
  have "\<exists>bad'. decode_rows (w_unpack E) (w_ts_ok E) ps r b = Inr (r @ good_rows E ps, bad')" for r b
    using Cons by simp
  note IH = this
  show ?case
  proof (cases "decode (w_unpack E) p")
    case None
    then show ?thesis using IH [of rows "bad + 1"] by (simp add: good_row_def)
  next
    case (Some row)
    obtain t where t: "fromtimestamp (w_ts_ok E) (hd row) = Inr t"
      using Cons.prems Some by (cases "fromtimestamp (w_ts_ok E) (hd row)") (simp_all add: poison_def)
    then show ?thesis
      using IH [of "rows @ [(t, tl row)]" bad] Some by (simp add: good_row_def)
  qed
qed simp

lemma decode_rows_poison:
  "p \<in> set ps \<Longrightarrow> poison E p \<Longrightarrow>
     \<exists>e. decode_rows (w_unpack E) (w_ts_ok E) ps rows bad = Inl e"
  by (induction ps arbitrary: rows bad) (auto simp: poison_def split: option.splits sum.splits)

section \<open>The invariant\<close>

text \<open>
  The interface of the table: the law of an insert that was carried out.
\<close>

locale row_store =
  fixes ins :: "crow list \<Rightarrow> 'c \<Rightarrow> 'c" and T :: "'c \<Rightarrow> crow multiset"
  assumes insert_law: "T (ins rows c) = T c + mset rows"

definition min_backoff :: "nat \<Rightarrow> rat" where
  "min_backoff attempt = min (2 ^ attempt) MAX_BACKOFF"

fun proc_ok :: "('r, 'c) worker_env \<Rightarrow> proc \<Rightarrow> pybytes list \<Rightarrow> bool" where
  "proc_ok E Looping held = (held = [])"
| "proc_ok E (Inserting claimed rows backoff attempt) held =
     (rows = good_rows E claimed \<and> goods E held \<subseteq># mset rows \<and> backoff = min_backoff attempt)"
| "proc_ok E p held = True"

fun is_acking :: "proc \<Rightarrow> bool" where
  "is_acking (Acking claimed rows) = True"
| "is_acking p = False"

lemma min_backoff_simps [simp]:
  "min_backoff 0 = 1"
  "min (min_backoff a * 2) MAX_BACKOFF = min_backoff (a + 1)"
  by (simp_all add: min_backoff_def MAX_BACKOFF_def min_def)

lemma min_backoff_bounds: "1 \<le> min_backoff a" "min_backoff a \<le> MAX_BACKOFF"
proof -
  have "(1::rat) \<le> 2 ^ a" by simp
  then show "1 \<le> min_backoff a" "min_backoff a \<le> MAX_BACKOFF"
    unfolding min_backoff_def MAX_BACKOFF_def by (simp_all add: min_le_iff_disj)
qed

fun event_worker :: "pevent \<Rightarrow> string option" where
  "event_worker (Work w ev) = Some w"
| "event_worker (Produce net xs) = None"
| "event_worker (Recover w net) = Some w"

fun claim_answered :: "wevent \<Rightarrow> bool" where
  "claim_answered (DoClaim net) = (net \<noteq> ReplyLost)"
| "claim_answered ev = True"

text \<open>No claim whose reply is lost.\<close>

fun event_ok :: "pevent \<Rightarrow> bool" where
  "event_ok (Work w ev) = claim_answered ev"
| "event_ok ev = True"

text \<open>What the producers got into the queue.\<close>

fun produced :: "pevent \<Rightarrow> pybytes list" where
  "produced (Produce net xs) = (if net = Refused then [] else xs)"
| "produced ev = []"

locale pipeline =
  fixes E :: "('r, 'c) worker_env" and V :: "'r \<Rightarrow> rkey \<Rightarrow> pybytes list" and T :: "'c \<Rightarrow> crow multiset"
  assumes queue_ok: "redis_log_queue (w_redis E) V (w_lim E) (w_queue E)"
    and store_ok: "row_store (w_insert E) T"
    and batch_ok: "0 < w_batch E"
begin

abbreviation Q :: rkey where "Q \<equiv> queue_key (w_queue E)"

lemma Q_neq [simp]: "inflight_key w \<noteq> Q" "Q \<noteq> inflight_key w"
  using plain_queue_neq [OF redis_log_queue.queue_plain [OF queue_ok]] by simp_all

lemma release_view:
  "V (snd (release (w_redis E) (w_lim E) (w_queue E) net (inflight_key w) r))
    = (if net = Refused then V r
       else (V r)(inflight_key w := [], Q := V r (inflight_key w) @ V r Q))"
  using redis_log_queue.release_reply(2) [OF queue_ok, of "inflight_key w" r]
  by (cases net) (simp_all add: release_def)

lemma release_fst:
  "fst (release (w_redis E) (w_lim E) (w_queue E) net (inflight_key w) r) = Inr n \<Longrightarrow> net = Reply"
  by (cases net) (simp_all add: release_def)

lemma claim_view:
  "V (snd (claim (w_redis E) (w_lim E) (w_queue E) net (inflight_key w) (int (w_batch E)) r))
    = (if net = Refused then V r
       else (V r)(Q := drop (w_batch E) (V r Q),
                  inflight_key w := V r (inflight_key w) @ take (w_batch E) (V r Q)))"
  using redis_log_queue.claim_reply(2) [OF queue_ok batch_ok, of w r]
  by (cases net) (simp_all add: claim_def)

lemma claim_fst:
  "fst (claim (w_redis E) (w_lim E) (w_queue E) net (inflight_key w) (int (w_batch E)) r)
    = (if net = Reply then Inr (take (w_batch E) (V r Q)) else Inl RedisError)"
  using redis_log_queue.claim_reply(1) [OF queue_ok batch_ok, of w r]
  by (cases net) (simp_all add: claim_def)

lemma ack_view:
  "V (snd (ack (w_redis E) net (inflight_key w) r))
    = (if net = Refused then V r else (V r)(inflight_key w := []))"
  using redis_log_queue.ack_reply [OF queue_ok, of "inflight_key w" r]
  by (cases net) (simp_all add: ack_def)

lemma ack_fst: "fst (ack (w_redis E) net (inflight_key w) r) = Inr u \<Longrightarrow> net = Reply"
  by (cases net) (simp_all add: ack_def)

lemma push_view:
  "V (snd (push_many (w_redis E) (w_queue E) net xs r))
    = (if net = Refused then V r else (V r)(Q := V r Q @ xs))"
  using redis_log_queue.push_reply [OF queue_ok, of xs r]
  by (cases net; cases "xs = []") (auto simp: push_many_def)

lemma insert_view: "T (w_insert E rows c) = T c + mset rows"
  by (rule row_store.insert_law [OF store_ok])

abbreviation held :: "('r, 'c) sys \<Rightarrow> string \<Rightarrow> pybytes list" where
  "held st w \<equiv> V (sys_redis st) (inflight_key w)"

abbreviation waiting :: "('r, 'c) sys \<Rightarrow> pybytes list" where
  "waiting st \<equiv> V (sys_redis st) Q"

text \<open>
  What a worker's list still protects. Once its rows are stored and only the acknowledgement is
  missing, nothing.
\<close>

abbreviation own :: "('r, 'c) sys \<Rightarrow> string \<Rightarrow> crow multiset" where
  "own st w \<equiv> (if is_acking (procs st w) then {#} else goods E (held st w))"

abbreviation local_cover :: "('r, 'c) sys \<Rightarrow> string \<Rightarrow> crow multiset" where
  "local_cover st w \<equiv> goods E (waiting st) + own st w + T (sys_ch st)"

text \<open>A step of one worker: others untouched, its invariant kept, its share not smaller.\<close>

definition good_step :: "string \<Rightarrow> ('r, 'c) sys \<Rightarrow> ('r, 'c) sys \<Rightarrow> bool" where
  "good_step w st st' \<longleftrightarrow>
     (\<forall>v. v \<noteq> w \<longrightarrow> procs st' v = procs st v \<and> held st' v = held st v)
     \<and> proc_ok E (procs st' w) (held st' w) \<and> local_cover st w \<subseteq># local_cover st' w"

lemma set_proc_fields [simp]:
  "sys_redis (set_proc w p st) = sys_redis st" "sys_ch (set_proc w p st) = sys_ch st"
  "procs (set_proc w p st) = (procs st)(w := p)" "stops (set_proc w p st) = stops st"
  by (simp_all add: set_proc_def)

lemma count_stat_fields [simp]:
  "sys_redis (count_stat w n v st) = sys_redis st" "sys_ch (count_stat w n v st) = sys_ch st"
  "procs (count_stat w n v st) = procs st" "stops (count_stat w n v st) = stops st"
  by (simp_all add: count_stat_def)

lemma start_good: "procs st w = Down \<Longrightarrow> good_step w st (do_start w pings st)"
  by (simp add: good_step_def do_start_def)

text \<open>A release puts the list back, or at worst leaves it.\<close>

lemma release_good:
  assumes "procs st' = (procs st)(w := p)" "sys_ch st' = sys_ch st" "\<not> is_acking (procs st w)"
    and "sys_redis st' = snd (release (w_redis E) (w_lim E) (w_queue E) net (inflight_key w) (sys_redis st))"
    and "p = Down \<or> p = Looping \<and> net = Reply"
  shows "good_step w st st'"
  using assms by (auto simp: good_step_def release_view ac_simps)

lemma boot_good: "procs st w = Booting \<Longrightarrow> good_step w st (do_boot E w net st)"
proof -
  assume b: "procs st w = Booting"
  obtain r t where rt: "release (w_redis E) (w_lim E) (w_queue E) net (inflight_key w) (sys_redis st) = (r, t)"
    by force
  show ?thesis
  proof (cases r)
    case (Inl e)
    then show ?thesis
      using b rt by (intro release_good [where net = net and p = Down]) (simp_all add: do_boot_def)
  next
    case (Inr n)
    then have "net = Reply" using release_fst [of net w "sys_redis st" n] rt by simp
    then show ?thesis
      using Inr b rt by (intro release_good [where net = net and p = Looping]) (simp_all add: do_boot_def)
  qed
qed

lemma return_good: "procs st w = Returning \<Longrightarrow> good_step w st (do_return E w net st)"
proof -
  assume b: "procs st w = Returning"
  obtain r t where rt: "release (w_redis E) (w_lim E) (w_queue E) net (inflight_key w) (sys_redis st) = (r, t)"
    by force
  show ?thesis
  proof (cases r)
    case (Inl e)
    then show ?thesis
      using b rt by (intro release_good [where net = net and p = Down]) (simp_all add: do_return_def)
  next
    case (Inr n)
    then have "net = Reply" using release_fst [of net w "sys_redis st" n] rt by simp
    then show ?thesis
      using Inr b rt by (intro release_good [where net = net and p = Looping]) (simp_all add: do_return_def)
  qed
qed

lemma drain_good: "procs st w = Draining \<Longrightarrow> good_step w st (do_drain E w net st)"
  by (intro release_good [where net = net and p = Down]) (simp_all add: do_drain_def)

text \<open>A claim from an empty list, with its reply or refused.\<close>

lemma claim_good:
  assumes "procs st w = Looping" "held st w = []" "net \<noteq> ReplyLost"
  shows "good_step w st (do_claim E w net st)"
proof (cases "stops st w \<or> net = Refused")
  case True
  then show ?thesis using assms by (auto simp: good_step_def do_claim_def claim_def)
next
  case False
  then have net: "net = Reply" using assms(3) by (cases net) auto
  let ?claimed = "take (w_batch E) (waiting st)"
  obtain t where t: "claim (w_redis E) (w_lim E) (w_queue E) Reply (inflight_key w) (int (w_batch E))
      (sys_redis st) = (Inr ?claimed, t)"
    using claim_fst [of Reply w "sys_redis st"] by (metis prod.collapse)
  have Vt: "V t = (V (sys_redis st))(Q := drop (w_batch E) (waiting st), inflight_key w := ?claimed)"
    using claim_view [of Reply w "sys_redis st"] t assms(2) by simp
  have split: "goods E (drop (w_batch E) (waiting st)) + goods E ?claimed = goods E (waiting st)"
    using goods_take_drop [of E "w_batch E" "waiting st"] by (simp add: add.commute)
  have step: "do_claim E w net st = (let st = st\<lparr>sys_redis := t\<rparr> in if ?claimed = [] then st else
      (case decode_rows (w_unpack E) (w_ts_ok E) ?claimed [] 0 of
         Inl _ \<Rightarrow> set_proc w Down st
       | Inr (rows, bad) \<Rightarrow>
           (let st = (if bad \<noteq> 0 then count_stat w PARSER_ERRORS (int bad) st else st)
            in if rows = [] then set_proc w (Acking ?claimed []) st
               else set_proc w (Inserting ?claimed rows 1 0) st)))"
    using False by (simp add: do_claim_def net t del: take_eq_Nil2 take_eq_Nil)
  show ?thesis
  proof (cases "?claimed = []")
    case True
    then show ?thesis using assms Vt split by (simp add: good_step_def step del: take_eq_Nil2 take_eq_Nil)
  next
    case ne: False
    show ?thesis
    proof (cases "decode_rows (w_unpack E) (w_ts_ok E) ?claimed [] 0")
      case (Inl e)
      then show ?thesis
        using ne assms Vt split by (simp add: good_step_def step ac_simps del: take_eq_Nil2 take_eq_Nil)
    next
      case (Inr x)
      obtain rows bad where x: "x = (rows, bad)" by force
      have rows: "rows = good_rows E ?claimed" using decode_rows_Inr [OF Inr [unfolded x]] by simp
      show ?thesis
        using ne assms Vt split Inr x rows
        by (cases "rows = []"; cases "bad = 0")
           (simp_all add: good_step_def step Let_def ac_simps del: take_eq_Nil2 take_eq_Nil)
    qed
  qed
qed

lemma insert_good:
  assumes "procs st w = Inserting claimed rows backoff attempt"
    and "proc_ok E (procs st w) (held st w)"
  shows "good_step w st (do_insert E w out claimed rows backoff attempt st)"
proof (cases "stops st w")
  case True
  then show ?thesis using assms(1) by (simp add: good_step_def do_insert_def)
next
  case False
  have ok: "rows = good_rows E claimed" "goods E (held st w) \<subseteq># mset rows" "backoff = min_backoff attempt"
    using assms(2) unfolding assms(1) proc_ok.simps by blast+
  show ?thesis
  proof (cases out)
    case Inserted
    have "goods E (waiting st) + goods E (held st w) + T (sys_ch st)
        \<subseteq># goods E (waiting st) + (T (sys_ch st) + mset rows)"
      using ok(2) by (simp add: ac_simps)
    then show ?thesis using False Inserted assms(1) by (simp add: good_step_def do_insert_def insert_view ac_simps)
  next
    case (InsertFailed k close)
    then show ?thesis
      using False assms(1) ok by (cases "k = 0"; cases close) (simp_all add: good_step_def do_insert_def insert_view Let_def)
  qed
qed

lemma ack_good:
  assumes "procs st w = Acking claimed rows"
  shows "good_step w st (do_ack E w net rows st)"
proof -
  obtain r t where rt: "ack (w_redis E) net (inflight_key w) (sys_redis st) = (r, t)" by force
  have Vt: "V t = (if net = Refused then V (sys_redis st) else (V (sys_redis st))(inflight_key w := []))"
    using ack_view [of net w "sys_redis st"] rt by simp
  show ?thesis
  proof (cases r)
    case (Inl e)
    then show ?thesis using assms rt Vt by (auto simp: good_step_def do_ack_def)
  next
    case (Inr u)
    then have "net = Reply" using ack_fst [of net w "sys_redis st" u] rt by simp
    then show ?thesis using assms rt Vt Inr by (auto simp: good_step_def do_ack_def Let_def)
  qed
qed

text \<open>Any event of a worker that does not lose the reply of a claim.\<close>

lemma same_good: "proc_ok E (procs st w) (held st w) \<Longrightarrow> good_step w st st"
  by (simp add: good_step_def)

lemma if_good:
  "(c \<Longrightarrow> good_step w st a) \<Longrightarrow> (\<not> c \<Longrightarrow> good_step w st b) \<Longrightarrow> good_step w st (if c then a else b)"
  by simp

lemma worker_step_good:
  assumes "proc_ok E (procs st w) (held st w)" "claim_answered ev"
  shows "good_step w st (worker_step E w ev st)"
proof (cases ev)
  case (Start pings)
  show ?thesis unfolding Start worker_step.simps
    by (rule if_good, erule start_good, rule same_good [OF assms(1)])
next
  case (Boot net)
  show ?thesis unfolding Boot worker_step.simps
    by (rule if_good, erule boot_good, rule same_good [OF assms(1)])
next
  case (DoClaim net)
  have claim: "procs st w = Looping \<Longrightarrow> good_step w st (do_claim E w net st)"
    using assms DoClaim by (intro claim_good) simp_all
  show ?thesis unfolding DoClaim worker_step.simps
    by (rule if_good, erule claim, rule same_good [OF assms(1)])
next
  case (DoInsert out)
  show ?thesis
  proof (cases "\<exists>claimed rows backoff attempt. procs st w = Inserting claimed rows backoff attempt")
    case True
    then obtain claimed rows backoff attempt where p: "procs st w = Inserting claimed rows backoff attempt"
      by blast
    have "worker_step E w ev st = do_insert E w out claimed rows backoff attempt st"
      by (simp add: DoInsert p)
    then show ?thesis using insert_good [OF p assms(1), of out] by (simp only:)
  next
    case False
    then have "worker_step E w ev st = st" by (cases "procs st w") (simp_all add: DoInsert)
    then show ?thesis using same_good [OF assms(1)] by (simp only:)
  qed
next
  case (DoAck net)
  show ?thesis
  proof (cases "\<exists>claimed rows. procs st w = Acking claimed rows")
    case True
    then obtain claimed rows where p: "procs st w = Acking claimed rows" by blast
    have "worker_step E w ev st = do_ack E w net rows st" by (simp add: DoAck p)
    then show ?thesis using ack_good [OF p, of net] by (simp only:)
  next
    case False
    then have "worker_step E w ev st = st" by (cases "procs st w") (simp_all add: DoAck)
    then show ?thesis using same_good [OF assms(1)] by (simp only:)
  qed
next
  case (DoReturn net)
  show ?thesis unfolding DoReturn worker_step.simps
    by (rule if_good, erule return_good, rule same_good [OF assms(1)])
next
  case (DoDrain net)
  show ?thesis unfolding DoDrain worker_step.simps
    by (rule if_good, erule drain_good, rule same_good [OF assms(1)])
qed (use assms in \<open>simp_all add: good_step_def\<close>)

text \<open>The whole pipeline.\<close>

definition all_ok :: "('r, 'c) sys \<Rightarrow> bool" where
  "all_ok st \<longleftrightarrow> (\<forall>w. proc_ok E (procs st w) (held st w))"

definition cover :: "string set \<Rightarrow> ('r, 'c) sys \<Rightarrow> crow multiset" where
  "cover W st = goods E (waiting st) + (\<Sum>w\<in>W. own st w) + T (sys_ch st)"

text \<open>Stored rows may still be in a claim, so the claims cover at least as much.\<close>

lemma cover_claims:
  assumes "finite W"
  shows "cover W st \<subseteq># goods E (waiting st) + (\<Sum>w\<in>W. goods E (held st w)) + T (sys_ch st)"
proof -
  have "(\<Sum>w\<in>W. own st w) \<subseteq># (\<Sum>w\<in>W. goods E (held st w))"
    using assms by (induction W rule: finite_induct) (auto intro: subset_mset.add_mono subset_mset.add_increasing)
  then show ?thesis by (simp add: cover_def)
qed

lemma cover_local:
  assumes "finite W" "w \<in> W"
  shows "cover W st = local_cover st w + (\<Sum>v\<in>W - {w}. own st v)"
  using sum.remove [OF assms, of "own st"] by (simp add: cover_def ac_simps)

lemma good_step_cover:
  assumes "finite W" "w \<in> W" "good_step w st st'"
  shows "cover W st \<subseteq># cover W st'"
proof -
  have "(\<Sum>v\<in>W - {w}. own st' v) = (\<Sum>v\<in>W - {w}. own st v)"
    using assms(3) by (intro sum.cong) (auto simp: good_step_def)
  then show ?thesis
    using assms(3) unfolding cover_local [OF assms(1,2)] good_step_def by simp
qed

lemma good_step_all_ok: "all_ok st \<Longrightarrow> good_step w st st' \<Longrightarrow> all_ok st'"
  unfolding all_ok_def good_step_def by metis

lemma proc_ok_Nil: "proc_ok E p h \<Longrightarrow> proc_ok E p []"
  by (cases p) simp_all

lemma recover_good:
  assumes "all_ok st"
  shows "good_step w st (pipe_step E (Recover w net) st)"
  using assms proc_ok_Nil [of "procs st w"]
  by (auto simp: good_step_def all_ok_def release_view ac_simps)

lemma pipe_step_cover:
  assumes "finite W" "set_option (event_worker ev) \<subseteq> W" "all_ok st" "event_ok ev"
  shows "all_ok (pipe_step E ev st) \<and>
    goods E (produced ev) + cover W st \<subseteq># cover W (pipe_step E ev st)"
proof (cases ev)
  case (Work w wev)
  have "good_step w st (pipe_step E ev st)"
    using assms(3,4) worker_step_good [of st w wev] by (simp add: Work all_ok_def)
  then show ?thesis
    using good_step_cover [OF assms(1)] good_step_all_ok [OF assms(3)] assms(2) Work by simp
next
  case (Recover w net)
  have "good_step w st (pipe_step E ev st)"
    using recover_good [OF assms(3), of w net] Recover by simp
  then show ?thesis
    using good_step_cover [OF assms(1)] good_step_all_ok [OF assms(3)] assms(2) Recover by simp
next
  case (Produce net xs)
  let ?st = "pipe_step E ev st"
  have same: "held ?st w = held st w" "procs ?st w = procs st w" for w
    by (simp_all add: Produce push_view)
  have "(\<Sum>w\<in>W. own ?st w) = (\<Sum>w\<in>W. own st w)"
    by (intro sum.cong) (simp_all add: same)
  moreover have "goods E (waiting ?st) = goods E (waiting st) + goods E (produced ev)"
    by (simp add: Produce push_view)
  moreover have "sys_ch ?st = sys_ch st" by (simp add: Produce)
  ultimately show ?thesis
    using assms(3) by (simp add: all_ok_def cover_def same ac_simps)
qed

lemma pipe_run_cover:
  assumes "finite W" "\<forall>ev \<in> set evs. set_option (event_worker ev) \<subseteq> W \<and> event_ok ev" "all_ok st"
  shows "all_ok (pipe_run E evs st) \<and>
    goods E (concat (map produced evs)) + cover W st \<subseteq># cover W (pipe_run E evs st)"
  using assms(2,3)
proof (induction evs arbitrary: st)
  case (Cons ev evs)
  have s1: "all_ok (pipe_step E ev st)"
    "goods E (produced ev) + cover W st \<subseteq># cover W (pipe_step E ev st)"
    using pipe_step_cover [OF assms(1), of ev st] Cons.prems by auto
  have IH: "all_ok (pipe_run E evs (pipe_step E ev st))"
    "goods E (concat (map produced evs)) + cover W (pipe_step E ev st)
      \<subseteq># cover W (pipe_run E evs (pipe_step E ev st))"
    using Cons.IH [OF _ s1(1)] Cons.prems(1) by auto
  have "goods E (concat (map produced evs)) + (goods E (produced ev) + cover W st)
      \<subseteq># goods E (concat (map produced evs)) + cover W (pipe_step E ev st)"
    using s1(2) by simp
  also note IH(2)
  finally show ?case using IH(1) by (simp add: pipe_run_def ac_simps)
qed (simp add: pipe_run_def)

text \<open>The invariant of one worker, as a fact about any state reached.\<close>

lemma run_proc_ok:
  assumes "\<forall>ev \<in> set evs. event_ok ev" "all_ok st"
  shows "proc_ok E (procs (pipe_run E evs st) w) (held (pipe_run E evs st) w)"
proof -
  let ?W = "\<Union>ev \<in> set evs. set_option (event_worker ev)"
  have "finite (set_option (x :: string option))" for x by (cases x) auto
  then have "finite ?W" by blast
  then show ?thesis
    using pipe_run_cover [of ?W evs st] assms by (fastforce simp: all_ok_def)
qed

text \<open>One undisturbed round: claim, insert, acknowledge.\<close>

lemma round_effect:
  assumes "procs st w = Looping" "\<not> stops st w" "held st w = []" "\<forall>p \<in> set (waiting st). \<not> poison E p"
  shows "\<exists>st'. pipe_run E [Work w (DoClaim Reply), Work w (DoInsert Inserted), Work w (DoAck Reply)] st = st'
    \<and> procs st' w = Looping \<and> \<not> stops st' w \<and> held st' w = []
    \<and> waiting st' = drop (w_batch E) (waiting st)
    \<and> T (sys_ch st') = T (sys_ch st) + goods E (take (w_batch E) (waiting st))"
proof -
  let ?claimed = "take (w_batch E) (waiting st)"
  obtain t where t: "claim (w_redis E) (w_lim E) (w_queue E) Reply (inflight_key w) (int (w_batch E))
      (sys_redis st) = (Inr ?claimed, t)"
    using claim_fst [of Reply w "sys_redis st"] by (metis prod.collapse)
  have Vt: "V t = (V (sys_redis st))(Q := drop (w_batch E) (waiting st), inflight_key w := ?claimed)"
    using claim_view [of Reply w "sys_redis st"] t assms(3) by simp
  have "\<forall>p \<in> set ?claimed. \<not> poison E p" using assms(4) by (meson in_set_takeD)
  then obtain bad where dec: "decode_rows (w_unpack E) (w_ts_ok E) ?claimed [] 0
      = Inr (good_rows E ?claimed, bad)"
    using decode_rows_total [of ?claimed E "[]" 0] by auto
  obtain u where ackt: "ack (w_redis E) Reply (inflight_key w) t = (Inr (), u)"
    by (simp add: ack_def)
  have Vu: "V u = (V t)(inflight_key w := [])" using ack_view [of Reply w t] ackt by simp
  show ?thesis
  proof (cases "?claimed = []")
    case True
    then have "waiting st = []" using batch_ok by simp
    then show ?thesis
      using assms(1-3) t Vt True by (simp add: pipe_run_def do_claim_def)
  next
    case False
    show ?thesis
    proof (cases "good_rows E ?claimed = []")
      case True
      then show ?thesis
        using False assms(1,2) t dec Vt ackt Vu
        by (cases "bad = 0")
           (simp_all add: pipe_run_def do_claim_def do_ack_def del: take_eq_Nil2 take_eq_Nil)
    next
      case ne: False
      then show ?thesis
        using False assms(1,2) t dec Vt ackt Vu
        by (cases "bad = 0")
           (simp_all add: pipe_run_def do_claim_def do_insert_def do_ack_def insert_view Let_def
              del: take_eq_Nil2 take_eq_Nil)
    qed
  qed
qed

lemma pipe_run_append: "pipe_run E (a @ b) st = pipe_run E b (pipe_run E a st)"
  by (simp add: pipe_run_def)

lemma rounds_drain:
  assumes "procs st w = Looping" "\<not> stops st w" "held st w = []" "\<forall>p \<in> set (waiting st). \<not> poison E p"
    and "length (waiting st) \<le> n * w_batch E"
  shows "\<exists>st'. pipe_run E (concat (replicate n
        [Work w (DoClaim Reply), Work w (DoInsert Inserted), Work w (DoAck Reply)])) st = st'
    \<and> waiting st' = [] \<and> held st' w = []
    \<and> T (sys_ch st') = T (sys_ch st) + goods E (waiting st)"
  using assms
proof (induction n arbitrary: st)
  case 0
  then show ?case by (simp add: pipe_run_def)
next
  case (Suc n)
  obtain s1 where s1: "pipe_run E [Work w (DoClaim Reply), Work w (DoInsert Inserted), Work w (DoAck Reply)] st = s1"
    "procs s1 w = Looping" "\<not> stops s1 w" "held s1 w = []" "waiting s1 = drop (w_batch E) (waiting st)"
    "T (sys_ch s1) = T (sys_ch st) + goods E (take (w_batch E) (waiting st))"
    using round_effect [OF Suc.prems(1-4)] by blast
  have "\<forall>p \<in> set (waiting s1). \<not> poison E p" using s1(5) Suc.prems(4) by (auto dest: in_set_dropD)
  moreover have "length (waiting s1) \<le> n * w_batch E" using s1(5) Suc.prems(5) by simp
  ultimately obtain s2 where s2: "pipe_run E (concat (replicate n
        [Work w (DoClaim Reply), Work w (DoInsert Inserted), Work w (DoAck Reply)])) s1 = s2"
    "waiting s2 = []" "held s2 w = []" "T (sys_ch s2) = T (sys_ch s1) + goods E (waiting s1)"
    using Suc.IH [OF s1(2-4)] by blast
  have "T (sys_ch s2) = T (sys_ch st) + goods E (waiting st)"
    using goods_take_drop [of E "w_batch E" "waiting st"] by (simp add: s2(4) s1(5,6) add.assoc)
  then show ?case
    using s1(1) s2(1-3) pipe_run_append
      [of "[Work w (DoClaim Reply), Work w (DoInsert Inserted), Work w (DoAck Reply)]" _ st]
    by simp
qed

text \<open>A poisoned claim: the worker dies, restarts and finds everything as it was.\<close>

lemma poison_cycle:
  assumes "procs st w = Looping" "\<not> stops st w" "held st w = []"
    and "p \<in> set (take (w_batch E) (waiting st))" "poison E p"
  shows "\<exists>st'. pipe_run E [Work w (DoClaim Reply), Work w (Start (\<lambda>_. True)), Work w (Boot Reply)] st = st'
    \<and> procs st' w = Looping \<and> \<not> stops st' w \<and> held st' w = [] \<and> waiting st' = waiting st
    \<and> sys_ch st' = sys_ch st
    \<and> procs (pipe_run E [Work w (DoClaim Reply)] st) w = Down"
proof -
  let ?claimed = "take (w_batch E) (waiting st)"
  obtain t where t: "claim (w_redis E) (w_lim E) (w_queue E) Reply (inflight_key w) (int (w_batch E))
      (sys_redis st) = (Inr ?claimed, t)"
    using claim_fst [of Reply w "sys_redis st"] by (metis prod.collapse)
  have Vt: "V t = (V (sys_redis st))(Q := drop (w_batch E) (waiting st), inflight_key w := ?claimed)"
    using claim_view [of Reply w "sys_redis st"] t assms(3) by simp
  obtain e where e: "decode_rows (w_unpack E) (w_ts_ok E) ?claimed [] 0 = Inl e"
    using decode_rows_poison [OF assms(4,5)] by blast
  have ne: "?claimed \<noteq> []" using assms(4) by (metis empty_iff list.set(1))
  obtain n u where u: "release (w_redis E) (w_lim E) (w_queue E) Reply (inflight_key w) t = (Inr n, u)"
    using redis_log_queue.release_reply(1) [OF queue_ok Q_neq(1), of w t] by (metis prod.collapse)
  have Vu: "V u = (V t)(inflight_key w := [], Q := V t (inflight_key w) @ V t Q)"
    using release_view [of Reply w t] u by simp
  have "wait_for_redis (\<lambda>_. True) 30" by (simp add: wait_for_redis_def eval_nat_numeral)
  then show ?thesis
    using assms(1,2) t e ne u Vu Vt
    by (simp add: pipe_run_def do_claim_def do_start_def do_boot_def del: take_eq_Nil2 take_eq_Nil)
qed

lemma poison_forever:
  assumes "procs st w = Looping" "\<not> stops st w" "held st w = []"
    and "p \<in> set (take (w_batch E) (waiting st))" "poison E p"
  shows "\<exists>st'. pipe_run E (concat (replicate n
        [Work w (DoClaim Reply), Work w (Start (\<lambda>_. True)), Work w (Boot Reply)])) st = st'
    \<and> procs st' w = Looping \<and> \<not> stops st' w \<and> held st' w = [] \<and> waiting st' = waiting st
    \<and> sys_ch st' = sys_ch st"
  using assms
proof (induction n arbitrary: st)
  case 0
  then show ?case by (simp add: pipe_run_def)
next
  case (Suc n)
  obtain s1 where s1: "pipe_run E [Work w (DoClaim Reply), Work w (Start (\<lambda>_. True)), Work w (Boot Reply)] st = s1"
    "procs s1 w = Looping" "\<not> stops s1 w" "held s1 w = []" "waiting s1 = waiting st" "sys_ch s1 = sys_ch st"
    using poison_cycle [OF Suc.prems] by blast
  show ?case
    using Suc.IH [OF s1(2-4)] Suc.prems(4,5) s1 pipe_run_append
      [of "[Work w (DoClaim Reply), Work w (Start (\<lambda>_. True)), Work w (Boot Reply)]" _ st]
    by simp
qed

text \<open>A claim whose reply is lost stays in the list, and the next acknowledgement deletes it.\<close>

lemma lost_reply:
  assumes "w_batch E = 1" "procs st w = Looping" "\<not> stops st w" "held st w = []"
    and "waiting st = a # b # rest" "good_row E b = Some row"
  shows "\<exists>st'. pipe_run E [Work w (DoClaim ReplyLost), Work w (DoClaim Reply),
        Work w (DoInsert Inserted), Work w (DoAck Reply)] st = st'
    \<and> waiting st' = rest \<and> held st' w = [] \<and> T (sys_ch st') = T (sys_ch st) + {#row#}"
proof -
  let ?claim = "\<lambda>net. claim (w_redis E) (w_lim E) (w_queue E) net (inflight_key w) (int (w_batch E))"
  obtain t where t: "?claim ReplyLost (sys_redis st) = (Inl RedisError, t)"
    using claim_fst [of ReplyLost w "sys_redis st"] by (metis prod.collapse net.distinct(3))
  have Vt: "V t = (V (sys_redis st))(Q := b # rest, inflight_key w := [a])"
    using claim_view [of ReplyLost w "sys_redis st"] t assms(1,4,5) by simp
  obtain u where u: "?claim Reply t = (Inr [b], u)"
    using claim_fst [of Reply w t] Vt assms(1) by (cases "?claim Reply t") simp
  have Vu: "V u = (V t)(Q := rest, inflight_key w := [a, b])"
    using claim_view [of Reply w t] u Vt assms(1) by (simp add: fun_upd_twist)
  have dec: "decode_rows (w_unpack E) (w_ts_ok E) [b] [] 0 = Inr ([row], 0)"
    using assms(6) by (auto simp: good_row_def split: option.splits sum.splits)
  obtain v where v: "ack (w_redis E) Reply (inflight_key w) u = (Inr (), v)"
    by (simp add: ack_def)
  have Vv: "V v = (V u)(inflight_key w := [])" using ack_view [of Reply w u] v by simp
  show ?thesis
    using assms(2,3) t u v Vv Vu dec
    by (simp add: pipe_run_def do_claim_def do_insert_def do_ack_def insert_view Let_def
        del: decode_rows.simps)
qed

end

text \<open>The hypotheses of the properties give the contract.\<close>

lemma pipelineI:
  assumes "redis_lists (w_redis E) V" "1000 \<le> w_lim E" "plain_queue (w_queue E)"
    and "row_store (w_insert E) T" "0 < w_batch E"
  shows "pipeline E V T"
  using assms by (simp add: pipeline_def redis_log_queueI)

lemma all_down_ok: "pipeline E V T \<Longrightarrow> \<forall>w. procs st w = Down \<Longrightarrow> pipeline.all_ok E V st"
  by (simp add: pipeline.all_ok_def)

text \<open>A table that keeps every row, and a codec of three kinds of payload.\<close>

definition table_insert :: "crow list \<Rightarrow> crow list \<Rightarrow> crow list" where
  "table_insert rows c = c @ rows"

definition demo_unpack :: "pybytes \<Rightarrow> mval result" where
  "demo_unpack b =
     (if b = ''junk'' then Inl ValueError
      else if b = ''poison'' then Inr (MList (MStr [] # replicate 10 MNil))
      else Inr (MList (MInt (int (length b)) # replicate 10 MNil)))"

definition demo_env :: "(ref_store, crow list) worker_env" where
  "demo_env = \<lparr>w_redis = ref_redis, w_lim = 7900, w_queue = default_queue, w_batch = 1,
     w_unpack = demo_unpack, w_ts_ok = (\<lambda>n. 0 \<le> n \<and> n < 253402214400), w_insert = table_insert\<rparr>"

interpretation demo_table: row_store table_insert mset
  by unfold_locales (simp add: table_insert_def)

text \<open>A worker in its main loop, and one that is down, with a given list waiting.\<close>

definition demo_sys :: "proc \<Rightarrow> pybytes list \<Rightarrow> (ref_store, crow list) sys" where
  "demo_sys p xs = \<lparr>sys_redis = put_list ''nls:queue'' xs empty_store, sys_ch = [],
     procs = (\<lambda>_. p), stops = (\<lambda>_. False), stats = (\<lambda>_. fresh_metrics)\<rparr>"

lemma demo_sys_fields [simp]:
  "sys_ch (demo_sys p xs) = []" "procs (demo_sys p xs) w = p" "\<not> stops (demo_sys p xs) w"
  "ref_list (sys_redis (demo_sys p xs)) ''nls:queue'' = xs"
  "ref_list (sys_redis (demo_sys p xs)) (inflight_key w) = []"
  by (simp_all add: demo_sys_def)

lemma demo_env_fields [simp]:
  "w_redis demo_env = ref_redis" "w_queue demo_env = default_queue" "w_lim demo_env = 7900"
  "w_insert demo_env = table_insert" "w_batch demo_env = 1"
  by (simp_all add: demo_env_def)

interpretation demo_pipe: pipeline demo_env ref_list mset
  by (rule pipelineI) (simp_all add: ref_lists demo_table.row_store_axioms)

lemma demo_good: "good_row demo_env ''r1'' = Some (2, replicate 10 MNil)"
  by (simp add: good_row_def demo_env_def decode_def demo_unpack_def fromtimestamp_def)

lemma demo_poison: "poison demo_env ''poison''" "\<not> poison demo_env ''r1''"
  by (simp_all add: poison_def demo_env_def decode_def demo_unpack_def fromtimestamp_def)

section \<open>Properties\<close>

text \<open>C5 (at_least_once): No storable record is ever lost: for any number of workers, any interleaving of their steps with producers and the recovery of claims, any failures of Redis and ClickHouse calls on either side of their effect, partial inserts, crashes and restarts at any point, every row that was queued, claimed, stored or produced is still queued, in a claim, or stored, counted with multiplicity. The one assumption is that no reply of a claim is lost.\<close>

theorem at_least_once:
  assumes "redis_lists (w_redis E) V" and "1000 \<le> w_lim E" and "plain_queue (w_queue E)"
    and "row_store (w_insert E) T" and "0 < w_batch E"
    and "finite W" and "\<forall>ev \<in> set evs. set_option (event_worker ev) \<subseteq> W \<and> event_ok ev"
    and "\<forall>w. procs st w = Down" and "pipe_run E evs st = st'"
  shows "goods E (V (sys_redis st) (queue_key (w_queue E)))
      + (\<Sum>w\<in>W. goods E (V (sys_redis st) (inflight_key w))) + T (sys_ch st)
      + goods E (concat (map produced evs))
    \<subseteq># goods E (V (sys_redis st') (queue_key (w_queue E)))
      + (\<Sum>w\<in>W. goods E (V (sys_redis st') (inflight_key w))) + T (sys_ch st')"
proof -
  have P: "pipeline E V T" using assms(1-5) by (rule pipelineI)
  note run = pipeline.pipe_run_cover [OF P assms(6,7) all_down_ok [OF P assms(8)], unfolded assms(9)]
  note after = pipeline.cover_claims [OF P assms(6), of st']
  have before: "goods E (concat (map produced evs)) + pipeline.cover E V T W st
      = goods E (V (sys_redis st) (queue_key (w_queue E)))
      + (\<Sum>w\<in>W. goods E (V (sys_redis st) (inflight_key w))) + T (sys_ch st)
      + goods E (concat (map produced evs))"
    using assms(8) by (simp add: pipeline.cover_def [OF P] ac_simps)
  show ?thesis
    using subset_mset.order_trans [OF conjunct2 [OF run] after] unfolding before .
qed

text \<open>A crash after the insert and before the acknowledgement: the record ends up stored twice.\<close>

definition demo_crash :: "pevent list" where
  "demo_crash =
     [Produce Reply [''r1''], Work ''w1'' (Start (\<lambda>_. True)), Work ''w1'' (Boot Reply),
      Work ''w1'' (DoClaim Reply), Work ''w1'' (DoInsert (InsertFailed 1 False)),
      Work ''w1'' (DoInsert Inserted), Work ''w1'' Kill, Recover ''w1'' Reply]"

theorem at_least_once_witness:
  "{#(2, replicate 10 MNil)#}
    \<subseteq># goods demo_env (ref_list (sys_redis (pipe_run demo_env demo_crash (demo_sys Down []))) ''nls:queue'')
      + goods demo_env (ref_list (sys_redis (pipe_run demo_env demo_crash (demo_sys Down []))) (inflight_key ''w1''))
      + mset (sys_ch (pipe_run demo_env demo_crash (demo_sys Down [])))"
proof -
  have "concat (map produced demo_crash) = [''r1'']"
    "\<forall>ev \<in> set demo_crash. set_option (event_worker ev) \<subseteq> {''w1''} \<and> event_ok ev"
    by (simp_all add: demo_crash_def)
  then show ?thesis
    using at_least_once [of demo_env ref_list mset "{''w1''}" demo_crash "demo_sys Down []"
        "pipe_run demo_env demo_crash (demo_sys Down [])"]
      ref_lists default_plain demo_table.row_store_axioms
    by (simp add: queue_key_default demo_good)
qed

text \<open>C13 (backlog_drains): When Redis and ClickHouse answer again, one running worker empties any backlog of decodable records: after n rounds of claim, insert and acknowledge with n times the batch size at least the backlog, the queue and the worker's claim are empty and the table has gained exactly the backlog's rows, each once.\<close>

theorem backlog_drains:
  assumes "redis_lists (w_redis E) V" and "1000 \<le> w_lim E" and "plain_queue (w_queue E)"
    and "row_store (w_insert E) T" and "0 < w_batch E"
    and "procs st w = Looping" and "\<not> stops st w" and "V (sys_redis st) (inflight_key w) = []"
    and "\<forall>p \<in> set (V (sys_redis st) (queue_key (w_queue E))). \<not> poison E p"
    and "length (V (sys_redis st) (queue_key (w_queue E))) \<le> n * w_batch E"
  shows "\<exists>st'. pipe_run E (concat (replicate n
        [Work w (DoClaim Reply), Work w (DoInsert Inserted), Work w (DoAck Reply)])) st = st'
    \<and> V (sys_redis st') (queue_key (w_queue E)) = [] \<and> V (sys_redis st') (inflight_key w) = []
    \<and> T (sys_ch st') = T (sys_ch st) + goods E (V (sys_redis st) (queue_key (w_queue E)))"
  by (rule pipeline.rounds_drain [OF pipelineI [OF assms(1-5)] assms(6-10)])

theorem backlog_drains_witness:
  "\<exists>st'. pipe_run demo_env (concat (replicate 2
        [Work ''w1'' (DoClaim Reply), Work ''w1'' (DoInsert Inserted), Work ''w1'' (DoAck Reply)]))
        (demo_sys Looping [''r1'', ''r1'']) = st'
    \<and> ref_list (sys_redis st') ''nls:queue'' = []
    \<and> mset (sys_ch st') = {#(2, replicate 10 MNil), (2, replicate 10 MNil)#}"
  using backlog_drains [of demo_env ref_list mset "demo_sys Looping [''r1'', ''r1'']" "''w1''" 2]
    ref_lists default_plain demo_table.row_store_axioms
  by (simp add: queue_key_default demo_good demo_poison)

text \<open>C40 (lost_claim_reply_loses): Without that assumption records are lost: a claim whose reply is lost leaves its records in the worker's list, the worker only logs the error and claims again, the new claim is appended to the same list, and the acknowledgement of the new one deletes both.\<close>

theorem lost_claim_reply_loses:
  assumes "redis_lists (w_redis E) V" and "1000 \<le> w_lim E" and "plain_queue (w_queue E)"
    and "row_store (w_insert E) T" and "w_batch E = 1"
    and "procs st w = Looping" and "\<not> stops st w" and "V (sys_redis st) (inflight_key w) = []"
    and "V (sys_redis st) (queue_key (w_queue E)) = a # b # rest" and "good_row E b = Some row"
  shows "\<exists>st'. pipe_run E [Work w (DoClaim ReplyLost), Work w (DoClaim Reply),
        Work w (DoInsert Inserted), Work w (DoAck Reply)] st = st'
    \<and> V (sys_redis st') (queue_key (w_queue E)) = rest \<and> V (sys_redis st') (inflight_key w) = []
    \<and> T (sys_ch st') = T (sys_ch st) + {#row#}"
proof -
  have "pipeline E V T" using assms(1-5) by (intro pipelineI) simp_all
  then show ?thesis using assms(5-10) by (rule pipeline.lost_reply)
qed

theorem lost_claim_reply_loses_witness:
  "\<exists>st'. pipe_run demo_env [Work ''w1'' (DoClaim ReplyLost), Work ''w1'' (DoClaim Reply),
        Work ''w1'' (DoInsert Inserted), Work ''w1'' (DoAck Reply)] (demo_sys Looping [''lost'', ''r1'']) = st'
    \<and> ref_list (sys_redis st') ''nls:queue'' = [] \<and> ref_list (sys_redis st') (inflight_key ''w1'') = []
    \<and> mset (sys_ch st') = {#(2, replicate 10 MNil)#}"
  using lost_claim_reply_loses [of demo_env ref_list mset "demo_sys Looping [''lost'', ''r1'']" "''w1''"
      "''lost''" "''r1''" "[]"]
    ref_lists default_plain demo_table.row_store_axioms
  by (simp add: queue_key_default demo_good)

text \<open>Also (poison_pill): A payload that decodes to eleven fields but whose time is not one datetime can hold stops a worker for good: _decode raises out of the main loop, and after each restart the requeued claim is taken again, so however often the worker is restarted the queue and the table stay exactly as they are.\<close>

theorem poison_pill:
  assumes "redis_lists (w_redis E) V" and "1000 \<le> w_lim E" and "plain_queue (w_queue E)"
    and "row_store (w_insert E) T" and "0 < w_batch E"
    and "procs st w = Looping" and "\<not> stops st w" and "V (sys_redis st) (inflight_key w) = []"
    and "p \<in> set (take (w_batch E) (V (sys_redis st) (queue_key (w_queue E))))" and "poison E p"
  shows "procs (pipe_run E [Work w (DoClaim Reply)] st) w = Down
    \<and> (\<exists>st'. pipe_run E (concat (replicate n
          [Work w (DoClaim Reply), Work w (Start (\<lambda>_. True)), Work w (Boot Reply)])) st = st'
      \<and> V (sys_redis st') (queue_key (w_queue E)) = V (sys_redis st) (queue_key (w_queue E))
      \<and> sys_ch st' = sys_ch st)"
proof -
  have P: "pipeline E V T" using assms(1-5) by (rule pipelineI)
  show ?thesis
    using pipeline.poison_cycle [OF P assms(6-10)] pipeline.poison_forever [OF P assms(6-10), of n]
    by blast
qed

theorem poison_pill_witness:
  "\<exists>st'. pipe_run demo_env (concat (replicate 3
        [Work ''w1'' (DoClaim Reply), Work ''w1'' (Start (\<lambda>_. True)), Work ''w1'' (Boot Reply)]))
        (demo_sys Looping [''poison'', ''r1'']) = st'
    \<and> ref_list (sys_redis st') ''nls:queue'' = [''poison'', ''r1''] \<and> sys_ch st' = []"
  using poison_pill [of demo_env ref_list mset "demo_sys Looping [''poison'', ''r1'']" "''w1''" "''poison''" 3]
    ref_lists default_plain demo_table.row_store_axioms
  by (simp add: queue_key_default demo_poison)

text \<open>Also (backoff_bounded): In every reachable state a worker that retries an insert holds the rows of its claim, and its waiting time is two to the number of failed attempts, capped at 30 seconds: it never gives up and never waits longer.\<close>

theorem backoff_bounded:
  assumes "redis_lists (w_redis E) V" and "1000 \<le> w_lim E" and "plain_queue (w_queue E)"
    and "row_store (w_insert E) T" and "0 < w_batch E"
    and "\<forall>ev \<in> set evs. event_ok ev" and "\<forall>w. procs st w = Down"
    and "procs (pipe_run E evs st) w = Inserting claimed rows backoff attempt"
  shows "rows = good_rows E claimed \<and> backoff = min (2 ^ attempt) MAX_BACKOFF
    \<and> 1 \<le> backoff \<and> backoff \<le> 30"
proof -
  have P: "pipeline E V T" using assms(1-5) by (rule pipelineI)
  have "rows = good_rows E claimed \<and> backoff = min_backoff attempt"
    using pipeline.run_proc_ok [OF P assms(6) all_down_ok [OF P assms(7)], of w] assms(8) by simp
  then show ?thesis
    using min_backoff_bounds [of attempt] by (simp add: min_backoff_def MAX_BACKOFF_def)
qed

lemma demo_retry:
  "procs (pipe_run demo_env (take 5 demo_crash) (demo_sys Down [])) ''w1''
     = Inserting [''r1''] [(2, replicate 10 MNil)] 2 1"
  by code_simp

theorem backoff_bounded_witness:
  "[(2, replicate 10 MNil)] = good_rows demo_env [''r1''] \<and> (2::rat) \<le> 30"
proof -
  have "\<forall>ev \<in> set (take 5 demo_crash). event_ok ev" by (simp add: demo_crash_def)
  then show ?thesis
    using backoff_bounded [of demo_env ref_list mset "take 5 demo_crash" "demo_sys Down []" "''w1''"]
      ref_lists default_plain demo_table.row_store_axioms demo_retry by simp
qed

end
