(* ===== verification/Worker_Stop.thy ===== *)
theory Worker_Stop
  imports Worker
begin

text \<open>
  How a worker of \<open>backend/app/services/worker.py\<close> ends when it is told to: \<open>_stop\<close> wakes every \<open>_sleep\<close>, and both loops look at
  it at their heads. Whatever the calls in between answer, four of its own steps are enough; when they are answered, it
  leaves no claim behind.
\<close>

section \<open>The way down\<close>

text \<open>The event a process waits for.\<close>

fun awaits :: "proc \<Rightarrow> wevent \<Rightarrow> bool" where
  "awaits Booting (Boot net) = True"
| "awaits Looping (DoClaim net) = True"
| "awaits (Inserting claimed rows backoff attempt) (DoInsert out) = True"
| "awaits (Acking claimed rows) (DoAck net) = True"
| "awaits Returning (DoReturn net) = True"
| "awaits Draining (DoDrain net) = True"
| "awaits p ev = False"

text \<open>Steps that a process has before it, once it is told to stop.\<close>

fun steps_left :: "proc \<Rightarrow> nat" where
  "steps_left Down = 0"
| "steps_left Draining = 1"
| "steps_left Looping = 2"
| "steps_left (Inserting claimed rows backoff attempt) = 4"
| "steps_left p = 3"

fun starts :: "string \<Rightarrow> pevent \<Rightarrow> bool" where
  "starts w (Work v (Start pings)) = (v = w)"
| "starts w ev = False"

text \<open>How many events of a run are awaited by \<open>w\<close> when they come.\<close>

fun own_moves :: "('r, 'c) worker_env \<Rightarrow> string \<Rightarrow> pevent list \<Rightarrow> ('r, 'c) sys \<Rightarrow> nat" where
  "own_moves E w [] st = 0"
| "own_moves E w (ev # evs) st =
     (case ev of Work v e \<Rightarrow> if v = w \<and> awaits (procs st w) e then 1 else 0 | _ \<Rightarrow> 0)
     + own_moves E w evs (pipe_step E ev st)"

text \<open>The calls of \<open>w\<close> are answered, and it is not killed.\<close>

fun answered_for :: "string \<Rightarrow> pevent \<Rightarrow> bool" where
  "answered_for w (Work v e) = (v = w \<longrightarrow>
     (case e of Boot net \<Rightarrow> net = Reply | DoAck net \<Rightarrow> net = Reply | DoReturn net \<Rightarrow> net = Reply
      | DoDrain net \<Rightarrow> net = Reply | Kill \<Rightarrow> False | _ \<Rightarrow> True))"
| "answered_for w ev = True"

section \<open>Lemmas\<close>

text \<open>Nobody else moves a process, and none but a start takes back that it was told to stop.\<close>

lemma pipe_step_other:
  assumes "\<And>e. ev \<noteq> Work w e"
  shows "procs (pipe_step E ev st) w = procs st w \<and> stops (pipe_step E ev st) w = stops st w"
proof (cases ev)
  case (Work v e)
  then have "v \<noteq> w" using assms by auto
  then show ?thesis using Work
    by (cases e)
       (auto simp: do_start_def do_boot_def do_claim_def do_insert_def do_ack_def do_return_def do_drain_def set_proc_def
          count_stat_def Let_def split: prod.splits sum.splits proc.splits insert_end.splits)
qed auto

lemma own_step:
  assumes "stops st w" "\<not> starts w (Work w e)"
  shows "stops (pipe_step E (Work w e) st) w"
    "steps_left (procs (pipe_step E (Work w e) st) w) + (if awaits (procs st w) e then 1 else 0) \<le> steps_left (procs st w)"
  using assms
  by (cases e; cases "procs st w";
      auto simp: do_boot_def do_claim_def do_insert_def do_ack_def do_return_def do_drain_def set_proc_def
          count_stat_def Let_def split: prod.splits sum.splits)+

lemma stopped_run:
  assumes "stops st w" "\<And>ev. ev \<in> set evs \<Longrightarrow> \<not> starts w ev"
  shows "stops (pipe_run E evs st) w
    \<and> steps_left (procs (pipe_run E evs st) w) + own_moves E w evs st \<le> steps_left (procs st w)"
  using assms
proof (induction evs arbitrary: st)
  case Nil
  then show ?case by (simp add: pipe_run_def)
next
  case (Cons ev evs)
  have "stops (pipe_step E ev st) w \<and> steps_left (procs (pipe_step E ev st) w)
    + (case ev of Work v e \<Rightarrow> if v = w \<and> awaits (procs st w) e then 1 else 0 | _ \<Rightarrow> 0) \<le> steps_left (procs st w)"
  proof (cases "\<exists>e. ev = Work w e")
    case True
    then show ?thesis using own_step [of st w _ E] Cons.prems by force
  next
    case False
    then show ?thesis using pipe_step_other [of ev w E st] Cons.prems(1) by (cases ev) auto
  qed
  then show ?case using Cons.IH [of "pipe_step E ev st"] Cons.prems(2) by (fastforce simp: pipe_run_def)
qed

text \<open>The list of a worker is put back whole at the head of the queue.\<close>

definition gave_back ::
    "('r \<Rightarrow> rkey \<Rightarrow> pybytes list) \<Rightarrow> LogQueue \<Rightarrow> string \<Rightarrow> ('r, 'c) sys \<Rightarrow> ('r, 'c) sys \<Rightarrow> bool" where
  "gave_back V q w st st' \<longleftrightarrow>
     V (sys_redis st') (inflight_key w) = []
     \<and> V (sys_redis st') (queue_key q) = V (sys_redis st) (inflight_key w) @ V (sys_redis st) (queue_key q)"

text \<open>A stopped worker does not begin an acknowledgement.\<close>

lemma stopped_acking:
  assumes "stops st w" "\<not> starts w ev" "is_acking (procs (pipe_step E ev st) w)"
  shows "is_acking (procs st w)"
proof (cases "\<exists>e. ev = Work w e")
  case True
  then obtain e where "ev = Work w e" by blast
  then show ?thesis using assms
    by (cases e; cases "procs st w";
        auto simp: do_boot_def do_claim_def do_insert_def do_ack_def do_return_def do_drain_def set_proc_def
            count_stat_def Let_def split: prod.splits sum.splits if_splits)
next
  case False
  then show ?thesis using pipe_step_other [of ev w E st] assms(3) by metis
qed

context pipeline
begin

lemma release_answered:
  "\<exists>n. fst (release (w_redis E) (w_lim E) (w_queue E) Reply (inflight_key w) r) = Inr n"
  using redis_log_queue.release_reply(1) [OF queue_ok, of "inflight_key w" r] by simp

lemma stopped_end:
  assumes "stops st w" "procs st w \<noteq> Down" "procs (pipe_step E ev st) w = Down" "answered_for w ev"
  shows "held (pipe_step E ev st) w = [] \<and> waiting (pipe_step E ev st) = held st w @ waiting st"
proof -
  obtain e where e: "ev = Work w e" using pipe_step_other [of ev w E st] assms(2,3) by metis
  have boot: "fst (release (w_redis E) (w_lim E) (w_queue E) Reply (inflight_key w) r) \<noteq> Inl x" for r x
    using release_answered [of w r] by auto
  have ack: "fst (ack (w_redis E) Reply (inflight_key w) r) \<noteq> Inl x" for r x by (simp add: ack_def)
  show ?thesis
  proof (cases e)
    case (Boot net)
    then show ?thesis using assms e boot [of "sys_redis st"]
      by (auto simp: do_boot_def set_proc_def split: if_splits prod.splits sum.splits)
  next
    case (DoAck net)
    then show ?thesis using assms e ack [of "sys_redis st"]
      by (auto simp: do_ack_def set_proc_def count_stat_def Let_def split: proc.splits if_splits prod.splits sum.splits)
  next
    case (DoReturn net)
    then show ?thesis using assms e boot [of "sys_redis st"]
      by (auto simp: do_return_def set_proc_def split: if_splits prod.splits sum.splits)
  next
    case (DoDrain net)
    then show ?thesis using assms e
      by (auto simp: do_drain_def release_view split: if_splits)
  qed (use assms e in \<open>auto simp: do_claim_def do_insert_def set_proc_def split: if_splits proc.splits\<close>)
qed

lemma step_redis:
  "sys_redis (do_boot E v net st) = snd (release (w_redis E) (w_lim E) (w_queue E) net (inflight_key v) (sys_redis st))"
  "sys_redis (do_return E v net st) = snd (release (w_redis E) (w_lim E) (w_queue E) net (inflight_key v) (sys_redis st))"
  "sys_redis (do_drain E v net st) = snd (release (w_redis E) (w_lim E) (w_queue E) net (inflight_key v) (sys_redis st))"
  "sys_redis (do_ack E v net rows st) = snd (ack (w_redis E) net (inflight_key v) (sys_redis st))"
  "sys_redis (do_claim E v net st) = (if stops st v then sys_redis st
     else snd (claim (w_redis E) (w_lim E) (w_queue E) net (inflight_key v) (int (w_batch E)) (sys_redis st)))"
  "sys_redis (do_insert E v out claimed rows backoff attempt st) = sys_redis st"
  "sys_redis (do_start v pings st) = sys_redis st"
  by (auto simp: do_boot_def do_return_def do_drain_def do_ack_def do_claim_def do_insert_def do_start_def Let_def
      split: prod.splits sum.splits insert_end.splits)

lemma step_table:
  "sys_ch (do_boot E v net st) = sys_ch st" "sys_ch (do_return E v net st) = sys_ch st"
  "sys_ch (do_drain E v net st) = sys_ch st" "sys_ch (do_ack E v net rows st) = sys_ch st"
  "sys_ch (do_claim E v net st) = sys_ch st" "sys_ch (do_start v pings st) = sys_ch st"
  by (auto simp: do_boot_def do_return_def do_drain_def do_ack_def do_claim_def do_start_def Let_def
      split: prod.splits sum.splits)

text \<open>What a step of its own can do with the list of a stopped worker, whatever the call answers.\<close>

lemma stopped_own_step:
  assumes "stops st w"
  shows "sys_ch (pipe_step E (Work w e) st) = sys_ch st
    \<and> (held (pipe_step E (Work w e) st) w = held st w \<and> waiting (pipe_step E (Work w e) st) = waiting st
       \<or> gave_back V (w_queue E) w st (pipe_step E (Work w e) st)
       \<or> is_acking (procs st w) \<and> held (pipe_step E (Work w e) st) w = [] \<and> waiting (pipe_step E (Work w e) st) = waiting st)"
proof (cases e)
  case (DoInsert out)
  then show ?thesis using assms by (cases "procs st w") (auto simp: do_insert_def)
next
  case (DoAck net)
  then show ?thesis using assms by (cases "procs st w") (auto simp: step_redis step_table ack_view)
next
  case (DoClaim net)
  then show ?thesis using assms by (auto simp: step_redis step_table)
qed (auto simp: step_redis step_table release_view gave_back_def)

lemma list_step:
  assumes "stops st w"
  shows "held (pipe_step E ev st) w = held st w
    \<or> held (pipe_step E ev st) w = [] \<and> (is_acking (procs st w) \<or> gave_back V (w_queue E) w st (pipe_step E ev st))"
proof (cases "\<exists>e. ev = Work w e")
  case True
  then obtain e where e: "ev = Work w e" by blast
  show ?thesis using stopped_own_step [OF assms, of e] unfolding e gave_back_def by blast
next
  case other: False
  show ?thesis
  proof (cases ev)
    case (Work v e)
    then have v: "inflight_key w \<noteq> inflight_key v" using other by (auto simp: inflight_key_def)
    show ?thesis
      using v Work
      by (cases e; cases "procs st v") (auto simp: step_redis release_view ack_view claim_view)
  next
    case (Produce net xs)
    then show ?thesis by (simp add: push_view)
  next
    case (Recover v net)
    moreover have "inflight_key w = inflight_key v \<longleftrightarrow> w = v" by (simp add: inflight_key_def)
    ultimately show ?thesis by (auto simp: release_view gave_back_def)
  qed
qed

lemma wound_down:
  assumes "stops st w" "\<And>ev. ev \<in> set evs \<Longrightarrow> \<not> starts w ev \<and> answered_for w ev"
    and "procs st w = Down \<Longrightarrow> held st w = []" and "procs (pipe_run E evs st) w = Down"
  shows "held (pipe_run E evs st) w = []
    \<and> (is_acking (procs st w) \<or> held st w = []
       \<or> (\<exists>before ev later. evs = before @ ev # later \<and> held (pipe_run E before st) w = held st w
           \<and> gave_back V (w_queue E) w (pipe_run E before st) (pipe_run E (before @ [ev]) st)))"
  using assms
proof (induction evs arbitrary: st)
  case Nil
  then show ?case by (simp add: pipe_run_def)
next
  case (Cons ev evs)
  let ?st = "pipe_step E ev st"
  have ev: "\<not> starts w ev" "answered_for w ev" using Cons.prems(2) by auto
  have run: "pipe_run E (ev # xs) st = pipe_run E xs ?st" for xs by (simp add: pipe_run_def)
  have stop: "stops ?st w"
    using stopped_run [of st w "[ev]" E] Cons.prems(1) ev by (simp add: pipe_run_def)
  have down: "held ?st w = []" if "procs ?st w = Down"
    using that stopped_end [OF Cons.prems(1) _ that ev(2)] list_step [OF Cons.prems(1), of ev] Cons.prems(3)
    by (cases "procs st w = Down") auto
  have IH: "held (pipe_run E evs ?st) w = []
    \<and> (is_acking (procs ?st w) \<or> held ?st w = []
       \<or> (\<exists>before e later. evs = before @ e # later \<and> held (pipe_run E before ?st) w = held ?st w
           \<and> gave_back V (w_queue E) w (pipe_run E before ?st) (pipe_run E (before @ [e]) ?st)))"
    using Cons.prems(2,4) stop down by (intro Cons.IH) (auto simp: run)
  show ?case
  proof (cases "is_acking (procs st w) \<or> held st w = []")
    case True
    then show ?thesis using IH by (auto simp: run)
  next
    case unsettled: False
    show ?thesis
    proof (cases "gave_back V (w_queue E) w st ?st")
      case True
      then show ?thesis using IH
        by (intro conjI disjI2 exI [of _ "[]"] exI [of _ ev] exI [of _ evs]) (auto simp: pipe_run_def)
    next
      case False
      then have same: "held ?st w = held st w" using list_step [OF Cons.prems(1), of ev] unsettled by auto
      moreover have "\<not> is_acking (procs ?st w)"
        using stopped_acking [OF Cons.prems(1) ev(1), of E] unsettled by auto
      ultimately obtain before e later where "evs = before @ e # later" "held (pipe_run E before ?st) w = held st w"
          "gave_back V (w_queue E) w (pipe_run E before ?st) (pipe_run E (before @ [e]) ?st)"
        using IH unsettled by auto
      then show ?thesis using IH
        by (intro conjI disjI2 exI [of _ "ev # before"] exI [of _ e] exI [of _ later]) (auto simp: run)
    qed
  qed
qed

end

section \<open>Properties\<close>


text \<open>The witness: told to stop while it retries an insert, with one record in its list.\<close>

definition demo_stopped :: "(ref_store, crow list) sys" where
  "demo_stopped = \<lparr>sys_redis = put_list (inflight_key ''w1'') [''r1''] (put_list ''nls:queue'' [''r2''] empty_store), sys_ch = [],
     procs = (\<lambda>_. Inserting [''r1''] [] 4 2), stops = (\<lambda>_. True), stats = (\<lambda>_. fresh_metrics)\<rparr>"

definition wind_down :: "pevent list" where
  "wind_down = [Work ''w1'' (DoInsert Inserted), Work ''w1'' (DoReturn Reply), Work ''w1'' (DoClaim Reply)]"

lemma wind_down_steps:
  "\<exists>r. pipe_run demo_env wind_down demo_stopped
      = demo_stopped\<lparr>sys_redis := r, procs := (procs demo_stopped)(''w1'' := Draining)\<rparr>
    \<and> own_moves demo_env ''w1'' (wind_down @ [Work ''w1'' (DoDrain Reply)]) demo_stopped = 4"
proof -
  obtain n r where "release ref_redis 7900 default_queue Reply (inflight_key ''w1'') (sys_redis demo_stopped) = (Inr n, r)"
    using demo_pipe.release_answered [of "''w1''" "sys_redis demo_stopped"] by (metis demo_env_fields(1-3) prod.collapse)
  then show ?thesis
    by (intro exI [of _ r])
       (simp add: wind_down_def pipe_run_def demo_stopped_def do_insert_def do_return_def do_claim_def do_drain_def set_proc_def)
qed


end
