(* ===== verification/Allow_List.thy ===== *)
theory Allow_List
  imports Routers_Api
begin

text \<open>
  The allow list between the API and the receivers: \<open>RouterRegistry\<close> of \<open>backend/app/services/receiver.py\<close> with
  its background task, cut at its awaits, any number of them next to the handlers of \<open>routers_api.py\<close>, whose
  publications are under way for a while and can overtake each other. The atomic \<open>refresh\<close> of \<open>Receiver\<close> is a round
  of these steps that nothing comes between.
\<close>

section \<open>A registry\<close>

text \<open>
  Where \<open>refresh\<close> is: not running, awaiting \<open>SMEMBERS\<close>, with the reply (\<open>None\<close>: an exception) not yet looked at,
  awaiting the transaction of \<open>_publish\<close>, or with that transaction over and its end not yet seen.
\<close>

datatype reg_at = AtRest | Asking | Told "pystr set option" | Telling "pystr list" | Landed "pystr list"

datatype reg_loop = NoLoop | LoopOn | LoopOver

record registry =
  rg_ips :: "pystr set"
  rg_at :: reg_at
  rg_loop :: reg_loop
  rg_stopping :: bool

definition new_registry :: registry where
  "new_registry = \<lparr>rg_ips = {}, rg_at = AtRest, rg_loop = NoLoop, rg_stopping = False\<rparr>"

definition call_refresh :: "registry \<Rightarrow> registry" where
  "call_refresh p = (if rg_at p = AtRest \<and> rg_loop p = NoLoop then p\<lparr>rg_at := Asking\<rparr> else p)"

definition start_loop :: "registry \<Rightarrow> registry" where
  "start_loop p =
     (if rg_at p = AtRest \<and> rg_loop p = NoLoop
      then p\<lparr>rg_loop := (if rg_stopping p then LoopOver else LoopOn)\<rparr> else p)"

text \<open>The sleep of the loop is over.\<close>

definition wake_loop :: "registry \<Rightarrow> registry" where
  "wake_loop p = (if rg_at p = AtRest \<and> rg_loop p = LoopOn then p\<lparr>rg_at := Asking\<rparr> else p)"

definition ask_redis :: "'r redis \<Rightarrow> net \<Rightarrow> registry \<times> 'r \<Rightarrow> registry \<times> 'r" where
  "ask_redis R net x =
     (case x of (p, s) \<Rightarrow>
        if rg_at p \<noteq> Asking then (p, s)
        else (case remote RedisError net (\<lambda>s. (Inr (r_smembers R ROUTER_SET_KEY s), s)) s of
                (Inl _, s) \<Rightarrow> (p\<lparr>rg_at := Told None\<rparr>, s)
              | (Inr members, s) \<Rightarrow> (p\<lparr>rg_at := Told (Some members)\<rparr>, s)))"

text \<open>From the reply to the next await; \<open>meta\<close> is what the query of the metadata store returns or raises.\<close>

definition take_reply :: "pystr list result option \<Rightarrow> registry \<Rightarrow> registry" where
  "take_reply meta p =
     (case rg_at p of
        Told ips \<Rightarrow>
          (case (if ips = None \<or> ips = Some {} then meta else None) of
             Some (Inl _) \<Rightarrow> p\<lparr>rg_at := AtRest\<rparr>
           | Some (Inr l) \<Rightarrow> p\<lparr>rg_at := Telling l\<rparr>
           | None \<Rightarrow> (case ips of None \<Rightarrow> p\<lparr>rg_at := AtRest\<rparr>
                      | Some new \<Rightarrow> p\<lparr>rg_ips := new, rg_at := AtRest\<rparr>))
      | _ \<Rightarrow> p)"

definition tell_redis :: "'r redis \<Rightarrow> net \<Rightarrow> registry \<times> 'r \<Rightarrow> registry \<times> 'r" where
  "tell_redis R net x =
     (case x of (p, s) \<Rightarrow>
        (case rg_at p of
           Telling l \<Rightarrow> (p\<lparr>rg_at := Landed l\<rparr>, publish R net (remdups l) s)
         | _ \<Rightarrow> (p, s)))"

definition end_refresh :: "registry \<Rightarrow> registry" where
  "end_refresh p = (case rg_at p of Landed l \<Rightarrow> p\<lparr>rg_ips := set l, rg_at := AtRest\<rparr> | _ \<Rightarrow> p)"

text \<open>
  \<open>stop\<close>: the cancellation is raised at the await, and no handler of \<open>refresh\<close> catches it. A transaction that is
  on its way can still take effect.
\<close>

definition stop_loop :: "'r redis \<Rightarrow> net \<Rightarrow> registry \<times> 'r \<Rightarrow> registry \<times> 'r" where
  "stop_loop R net x =
     (case x of (p, s) \<Rightarrow>
        if rg_loop p = NoLoop then (p\<lparr>rg_stopping := True\<rparr>, s)
        else (p\<lparr>rg_stopping := True, rg_at := AtRest, rg_loop := LoopOver\<rparr>,
              case rg_at p of Telling l \<Rightarrow> publish R net (remdups l) s | _ \<Rightarrow> s))"

datatype reg_event =
    RgCall
  | RgStart
  | RgWake
  | RgAsk net
  | RgDecide "exn option"
  | RgTell net
  | RgReturn
  | RgStop net

fun registry_step :: "'r redis \<Rightarrow> meta \<Rightarrow> reg_event \<Rightarrow> registry \<times> 'r \<Rightarrow> registry \<times> 'r" where
  "registry_step R m RgCall (p, s) = (call_refresh p, s)"
| "registry_step R m RgStart (p, s) = (start_loop p, s)"
| "registry_step R m RgWake (p, s) = (wake_loop p, s)"
| "registry_step R m (RgAsk net) (p, s) = ask_redis R net (p, s)"
| "registry_step R m (RgDecide raised) (p, s) =
     (take_reply (Some (case raised of None \<Rightarrow> Inr (enabled_router_ips m) | Some e \<Rightarrow> Inl e)) p, s)"
| "registry_step R m (RgTell net) (p, s) = tell_redis R net (p, s)"
| "registry_step R m RgReturn (p, s) = (end_refresh p, s)"
| "registry_step R m (RgStop net) (p, s) = stop_loop R net (p, s)"

lemmas registry_defs = call_refresh_def start_loop_def wake_loop_def ask_redis_def take_reply_def
  tell_redis_def end_refresh_def stop_loop_def

text \<open>A round of the loop.\<close>

definition round_of :: "net \<Rightarrow> exn option \<Rightarrow> net \<Rightarrow> reg_event list" where
  "round_of n1 raised n2 = [RgWake, RgAsk n1, RgDecide raised, RgTell n2, RgReturn]"

lemma round_is_refresh:
  assumes "rg_at p = AtRest" "rg_loop p = LoopOn"
  shows "fold (registry_step R m) (round_of n1 raised n2) (p, s)
    = (let (ips, s') = refresh R n1 (Some (case raised of None \<Rightarrow> Inr (enabled_router_ips m) | Some e \<Rightarrow> Inl e)) n2
         (rg_ips p) s in (p\<lparr>rg_ips := ips\<rparr>, s'))"
  using assms
  by (cases n1; cases raised; cases "r_smembers R ROUTER_SET_KEY s = {}")
     (simp_all add: round_of_def registry_defs refresh_def Let_def)

section \<open>The API and the registries\<close>

text \<open>\<open>al_pending\<close>: lists that handlers have read from the table and whose transaction is on its way.\<close>

record 'r allow =
  al_meta :: meta
  al_redis :: 'r
  al_pending :: "pystr list list"
  al_regs :: "nat \<Rightarrow> registry"

text \<open>
  A request up to the await in \<open>sync_allow_list\<close>, another change of the store (the command line, other routes),
  the start of the API, a publication of the API that arrives, the key gone from Redis, a step of a registry.
\<close>

datatype al_event =
    AlRequest router_request
  | AlTable meta_op
  | AlStartup
  | AlLand nat net
  | AlForget
  | AlReg nat reg_event

text \<open>
  The handler up to its await: as \<open>router_api\<close> without the effect of its transaction. Between the change of the
  table and the reading of the list there is no await.
\<close>

definition request_part :: "ucd \<Rightarrow> 'r redis \<Rightarrow> router_request \<Rightarrow> 'r allow \<Rightarrow> 'r allow" where
  "request_part U R req st =
     (case router_api U R Refused req (al_meta st, al_redis st) of
        (a, m, s) \<Rightarrow> st\<lparr>al_meta := m,
          al_pending := al_pending st @ (if succeeded a then [enabled_router_ips m] else [])\<rparr>)"

definition land_part :: "'r redis \<Rightarrow> nat \<Rightarrow> net \<Rightarrow> 'r allow \<Rightarrow> 'r allow" where
  "land_part R k net st =
     (if k < length (al_pending st)
      then st\<lparr>al_redis := publish R net (al_pending st ! k) (al_redis st),
              al_pending := take k (al_pending st) @ drop (Suc k) (al_pending st)\<rparr>
      else st)"

fun al_step :: "ucd \<Rightarrow> 'r redis \<Rightarrow> al_event \<Rightarrow> 'r allow \<Rightarrow> 'r allow" where
  "al_step U R (AlRequest req) st = request_part U R req st"
| "al_step U R (AlTable op) st = st\<lparr>al_meta := meta_step U op (al_meta st)\<rparr>"
| "al_step U R AlStartup st = st\<lparr>al_pending := al_pending st @ [enabled_router_ips (al_meta st)]\<rparr>"
| "al_step U R (AlLand k net) st = land_part R k net st"
| "al_step U R AlForget st = st\<lparr>al_redis := r_del R ROUTER_SET_KEY (al_redis st)\<rparr>"
| "al_step U R (AlReg i ev) st =
     (case registry_step R (al_meta st) ev (al_regs st i, al_redis st) of
        (p, s) \<Rightarrow> st\<lparr>al_redis := s, al_regs := (al_regs st)(i := p)\<rparr>)"

definition al_run :: "ucd \<Rightarrow> 'r redis \<Rightarrow> al_event list \<Rightarrow> 'r allow \<Rightarrow> 'r allow" where
  "al_run U R evs st = fold (al_step U R) evs st"

text \<open>The enabled routers of the table, and those of all tables on the way.\<close>

definition table_set :: "'r allow \<Rightarrow> pystr set" where
  "table_set st = set (enabled_router_ips (al_meta st))"

fun tables_passed :: "ucd \<Rightarrow> 'r redis \<Rightarrow> al_event list \<Rightarrow> 'r allow \<Rightarrow> pystr set list" where
  "tables_passed U R [] st = [table_set st]"
| "tables_passed U R (ev # evs) st = table_set st # tables_passed U R evs (al_step U R ev st)"

text \<open>The steps of a handler, one after the other, are the handler of \<open>Routers_Api\<close>.\<close>

lemma router_api_cut:
  assumes "router_api U R net req (m, s) = (a, m', s')"
  shows "router_api U R Refused req (m, s) = (a, m', s)"
    "s' = (if succeeded a then publish R net (enabled_router_ips m') s else s)"
proof -
  show "router_api U R Refused req (m, s) = (a, m', s)"
    using assms
    by (cases req)
       (auto simp: api_add_router_def api_update_router_def api_delete_router_def sync_allow_list_def
          split: if_splits prod.splits sum.splits bool.splits)
  show "s' = (if succeeded a then publish R net (enabled_router_ips m') s else s)"
    using router_api_effect(1) [OF assms] by (simp add: sync_allow_list_def publish_def Let_def)
qed

lemma handler_is_steps:
  assumes "router_api U R net req (al_meta st, al_redis st) = (a, m, s)" "al_pending st = []"
  shows "al_run U R [AlRequest req, AlLand 0 net] st = st\<lparr>al_meta := m, al_redis := s\<rparr>"
  using router_api_cut [OF assms(1)] assms(2)
  by (simp add: al_run_def request_part_def land_part_def)

section \<open>Every list in the system comes from a table\<close>

text \<open>What a registry holds, and everything under way, is one of the sets \<open>Ps\<close>, or empty.\<close>

fun at_in :: "pystr set set \<Rightarrow> reg_at \<Rightarrow> bool" where
  "at_in Ps (Told (Some ips)) = (ips = {} \<or> ips \<in> Ps)"
| "at_in Ps (Telling l) = (set l \<in> Ps)"
| "at_in Ps (Landed l) = (set l \<in> Ps)"
| "at_in Ps wherever = True"

definition reg_in :: "pystr set set \<Rightarrow> registry \<Rightarrow> bool" where
  "reg_in Ps p \<longleftrightarrow> (rg_ips p = {} \<or> rg_ips p \<in> Ps) \<and> at_in Ps (rg_at p)"

text \<open>The same for the lists under way and the cached set, but not for what the registries already hold.\<close>

definition drawn_from :: "('r \<Rightarrow> rkey \<Rightarrow> pystr set) \<Rightarrow> pystr set set \<Rightarrow> 'r allow \<Rightarrow> bool" where
  "drawn_from S Ps st \<longleftrightarrow>
     (S (al_redis st) ROUTER_SET_KEY = {} \<or> S (al_redis st) ROUTER_SET_KEY \<in> Ps)
     \<and> (\<forall>l \<in> set (al_pending st). set l \<in> Ps) \<and> (\<forall>i. at_in Ps (rg_at (al_regs st i)))"

lemma at_in_mono: "at_in Ps a \<Longrightarrow> Ps \<subseteq> Qs \<Longrightarrow> at_in Qs a"
  by (induction Ps a rule: at_in.induct) auto

lemma drawn_mono: "drawn_from S Ps st \<Longrightarrow> Ps \<subseteq> Qs \<Longrightarrow> drawn_from S Qs st"
  by (auto simp: drawn_from_def intro: at_in_mono)

text \<open>What the table shows after a step.\<close>

lemma al_step_table:
  "al_meta (al_step U R (AlLand k net) st) = al_meta st" "al_meta (al_step U R AlStartup st) = al_meta st"
  "al_meta (al_step U R AlForget st) = al_meta st" "al_meta (al_step U R (AlReg i ev) st) = al_meta st"
  by (auto simp: land_part_def split: prod.splits)

context redis_sets
begin

lemma publish_view:
  "S (publish R net l s) ROUTER_SET_KEY = (if net = Refused then S s ROUTER_SET_KEY else set l)"
  by (cases net; cases "l = []") (simp_all add: publish_def Let_def sadd_law sdel_law)

text \<open>A step of a registry, where the table shows one of \<open>Ps\<close>.\<close>

lemma registry_step_in:
  assumes "registry_step R m ev (p, s) = (p', s')" "at_in Ps (rg_at p)" "set (enabled_router_ips m) \<in> Ps"
    "S s ROUTER_SET_KEY = {} \<or> S s ROUTER_SET_KEY \<in> Ps"
  shows "at_in Ps (rg_at p')" "S s' ROUTER_SET_KEY = {} \<or> S s' ROUTER_SET_KEY \<in> Ps"
    "rg_ips p' = rg_ips p \<or> rg_ips p' \<in> Ps"
proof -
  have "at_in Ps (rg_at p') \<and> (S s' ROUTER_SET_KEY = {} \<or> S s' ROUTER_SET_KEY \<in> Ps)
    \<and> (rg_ips p' = rg_ips p \<or> rg_ips p' \<in> Ps)"
  proof (cases ev)
    case (RgAsk net)
    then show ?thesis using assms
      by (cases net) (auto simp: registry_defs smembers_law split: if_splits)
  next
    case (RgTell net)
    then show ?thesis using assms
      by (cases net) (auto simp: registry_defs publish_view split: reg_at.splits)
  next
    case (RgStop net)
    then show ?thesis using assms
      by (cases net) (auto simp: registry_defs publish_view split: if_splits reg_at.splits)
  qed (use assms in \<open>auto simp: registry_defs split: if_splits option.splits sum.splits reg_at.splits\<close>)
  then show "at_in Ps (rg_at p')" "S s' ROUTER_SET_KEY = {} \<or> S s' ROUTER_SET_KEY \<in> Ps"
    "rg_ips p' = rg_ips p \<or> rg_ips p' \<in> Ps" by auto
qed

lemma drawn_step:
  assumes "drawn_from S Ps st" "table_set st \<in> Ps" "table_set (al_step U R ev st) \<in> Ps"
  shows "drawn_from S Ps (al_step U R ev st)
    \<and> (rg_ips (al_regs (al_step U R ev st) i) = rg_ips (al_regs st i) \<or> rg_ips (al_regs (al_step U R ev st) i) \<in> Ps)"
proof (cases ev)
  case (AlRequest req)
  obtain a m s where r: "router_api U R Refused req (al_meta st, al_redis st) = (a, m, s)"
    by (metis prod_cases3)
  then show ?thesis using assms AlRequest
    by (auto simp: drawn_from_def request_part_def table_set_def)
next
  case (AlLand k net)
  then show ?thesis using assms
    by (auto simp: drawn_from_def land_part_def publish_view dest: in_set_takeD in_set_dropD)
next
  case AlForget
  then show ?thesis using assms by (auto simp: drawn_from_def sdel_law)
next
  case (AlReg j rev)
  obtain p s where r: "registry_step R (al_meta st) rev (al_regs st j, al_redis st) = (p, s)" by fastforce
  note in_ps = registry_step_in [OF r, of Ps]
  show ?thesis using assms AlReg r in_ps by (auto simp: drawn_from_def table_set_def)
qed (use assms in \<open>auto simp: drawn_from_def table_set_def\<close>)

lemma drawn_run:
  assumes "drawn_from S Ps st" "set (tables_passed U R evs st) \<subseteq> Ps"
    "rg_ips (al_regs st i) = {} \<or> rg_ips (al_regs st i) \<in> Ps"
  shows "drawn_from S Ps (al_run U R evs st)
    \<and> (rg_ips (al_regs (al_run U R evs st) i) = {} \<or> rg_ips (al_regs (al_run U R evs st) i) \<in> Ps)"
  using assms
proof (induction evs arbitrary: st)
  case Nil
  then show ?case by (simp add: al_run_def)
next
  case (Cons ev evs)
  have t: "table_set st \<in> Ps" "table_set (al_step U R ev st) \<in> Ps" "set (tables_passed U R evs (al_step U R ev st)) \<subseteq> Ps"
    using Cons.prems(2) by (auto, cases evs, auto)
  have d: "drawn_from S Ps (al_step U R ev st)"
    "rg_ips (al_regs (al_step U R ev st) i) = {} \<or> rg_ips (al_regs (al_step U R ev st) i) \<in> Ps"
    using drawn_step [OF Cons.prems(1) t(1,2), of i] Cons.prems(3) by auto
  show ?case using Cons.IH [OF d(1) t(3) d(2)] by (simp add: al_run_def)
qed

end

section \<open>One round is enough\<close>

text \<open>The events of one registry, and events that leave the table alone.\<close>

fun own_events :: "nat \<Rightarrow> al_event list \<Rightarrow> reg_event list" where
  "own_events i [] = []"
| "own_events i (AlReg j ev # evs) = (if j = i then [ev] else []) @ own_events i evs"
| "own_events i (ev # evs) = own_events i evs"

fun leaves_table :: "al_event \<Rightarrow> bool" where
  "leaves_table (AlRequest req) = False"
| "leaves_table (AlTable op) = False"
| "leaves_table ev = True"

text \<open>
  What is left of a round of a registry whose list is to become \<open>ips\<close>: it stands where the rest of the round
  begins, or it has the list.
\<close>

inductive on_the_way :: "pystr set \<Rightarrow> reg_event list \<Rightarrow> registry \<Rightarrow> bool" for ips :: "pystr set" where
  way_there: "rg_ips p = ips \<Longrightarrow> on_the_way ips evs p"
| way_wake: "rg_at p = AtRest \<Longrightarrow> rg_loop p = LoopOn \<Longrightarrow> on_the_way ips (round_of n1 None n2 @ evs) p"
| way_ask: "rg_at p = Asking \<Longrightarrow> on_the_way ips (RgAsk n1 # RgDecide None # RgTell n2 # RgReturn # evs) p"
| way_decide: "rg_at p = Told x \<Longrightarrow> on_the_way ips (RgDecide None # RgTell n2 # RgReturn # evs) p"
| way_tell: "rg_at p = Telling l \<Longrightarrow> on_the_way ips (RgTell n2 # RgReturn # evs) p"
| way_return: "rg_at p = Landed l \<Longrightarrow> on_the_way ips (RgReturn # evs) p"

inductive_cases on_the_way_NilE: "on_the_way ips [] p"

lemma on_the_way_step:
  assumes "on_the_way (set (enabled_router_ips m)) (ev # evs) p" "registry_step R m ev (p, s) = (p', s')"
    "at_in {set (enabled_router_ips m)} (rg_at p)"
    "rg_ips p' = rg_ips p \<or> rg_ips p' = set (enabled_router_ips m)"
  shows "on_the_way (set (enabled_router_ips m)) evs p'"
  using assms(1)
proof (cases rule: on_the_way.cases)
  case way_there
  then show ?thesis using assms(4) by (auto intro: on_the_way.way_there)
next
  case (way_wake n1 n2 rest)
  then show ?thesis using assms(2)
    by (auto simp: round_of_def registry_defs intro: on_the_way.way_ask)
next
  case (way_ask n1 n2 rest)
  then show ?thesis using assms(2)
    by (cases n1) (auto simp: registry_defs intro: on_the_way.way_decide)
next
  case (way_decide x n2 rest)
  then show ?thesis using assms(2,3)
    by (cases x) (auto simp: registry_defs split: if_splits intro: on_the_way.way_tell on_the_way.way_there)
next
  case (way_tell l n2 rest)
  then show ?thesis using assms(2) by (auto simp: registry_defs intro: on_the_way.way_return)
next
  case (way_return l)
  then show ?thesis using assms(2,3) by (auto simp: registry_defs intro: on_the_way.way_there)
qed

context redis_sets
begin

lemma settled_run:
  assumes "drawn_from S {table_set st} st" "\<And>ev. ev \<in> set evs \<Longrightarrow> leaves_table ev"
    "on_the_way (table_set st) (own_events i evs) (al_regs st i)"
  shows "rg_ips (al_regs (al_run U R evs st) i) = table_set st"
  using assms
proof (induction evs arbitrary: st)
  case Nil
  then show ?case by (auto simp: al_run_def elim: on_the_way_NilE simp: round_of_def)
next
  case (Cons ev evs)
  have same: "table_set (al_step U R ev st) = table_set st"
    using Cons.prems(2) [of ev] by (cases ev) (simp_all add: table_set_def al_step_table del: al_step.simps)
  note d = drawn_step [where U = U and ev = ev and i = i, OF Cons.prems(1)]
  have way: "on_the_way (table_set st) (own_events i evs) (al_regs (al_step U R ev st) i)"
  proof (cases "\<exists>rev. ev = AlReg i rev")
    case True
    then obtain rev where ev: "ev = AlReg i rev" by blast
    obtain p s where r: "registry_step R (al_meta st) rev (al_regs st i, al_redis st) = (p, s)" by fastforce
    show ?thesis
      using on_the_way_step [OF _ r, of "own_events i evs"] Cons.prems(1,3) d same r ev
      by (auto simp: drawn_from_def table_set_def)
  next
    case False
    then have "own_events i (ev # evs) = own_events i evs" "al_regs (al_step U R ev st) i = al_regs st i"
      by (cases ev; auto simp: request_part_def land_part_def split: prod.splits)+
    then show ?thesis using Cons.prems(3) by simp
  qed
  show ?case
    using Cons.IH [of "al_step U R ev st"] d way same Cons.prems(2) by (simp add: al_run_def)
qed

end

section \<open>A publication that is overtaken\<close>

text \<open>Steps of the receivers, with their reads of the cached set answered.\<close>

fun answered_reads :: "al_event \<Rightarrow> bool" where
  "answered_reads (AlReg j ev) = (case ev of RgAsk net \<Rightarrow> net = Reply | _ \<Rightarrow> True)"
| "answered_reads ev = False"

fun at_stuck :: "pystr set \<Rightarrow> reg_at \<Rightarrow> bool" where
  "at_stuck ips (Told x) = (x = Some ips)"
| "at_stuck ips (Telling l) = False"
| "at_stuck ips wherever = True"

context redis_sets
begin

lemma stuck_step:
  assumes "registry_step R m ev (p, s) = (p', s')" "answered_reads (AlReg j ev)" "at_stuck ips (rg_at p)"
    "S s ROUTER_SET_KEY = ips" "ips \<noteq> {}"
  shows "at_stuck ips (rg_at p') \<and> S s' ROUTER_SET_KEY = ips"
  using assms
  by (cases ev; cases "rg_at p") (auto simp: registry_defs smembers_law split: if_splits)

lemma stuck_run:
  assumes "S (al_redis st) ROUTER_SET_KEY = ips" "ips \<noteq> {}" "\<And>j. at_stuck ips (rg_at (al_regs st j))"
    "\<And>ev. ev \<in> set evs \<Longrightarrow> answered_reads ev"
  shows "S (al_redis (al_run U R evs st)) ROUTER_SET_KEY = ips \<and> al_meta (al_run U R evs st) = al_meta st"
  using assms
proof (induction evs arbitrary: st)
  case Nil
  then show ?case by (simp add: al_run_def)
next
  case (Cons ev evs)
  obtain j rev where ev: "ev = AlReg j rev" "answered_reads (AlReg j rev)"
    using Cons.prems(4) [of ev] by (cases ev) auto
  obtain p s where r: "registry_step R (al_meta st) rev (al_regs st j, al_redis st) = (p, s)" by fastforce
  let ?st = "al_step U R ev st"
  have "at_stuck ips (rg_at p) \<and> S s ROUTER_SET_KEY = ips"
    using stuck_step [OF r ev(2)] Cons.prems by auto
  then have "S (al_redis ?st) ROUTER_SET_KEY = ips" "\<And>k. at_stuck ips (rg_at (al_regs ?st k))" "al_meta ?st = al_meta st"
    using Cons.prems(3) by (auto simp: ev(1) r)
  then show ?case using Cons.IH [of ?st] Cons.prems(2,4) by (simp add: al_run_def)
qed

end

section \<open>Properties\<close>

text \<open>C20 (allow_list_snapshots): However the handlers, the receivers' refreshes, their publications, failures and losses of the cached set interleave, the list that a receiver goes by is at any time empty or exactly the enabled routers of the table at one moment since the start; so no address is ever accepted that was not enabled at some moment.\<close>

theorem allow_list_snapshots:
  assumes "redis_sets R S" and "S (al_redis st) ROUTER_SET_KEY \<in> {{}, table_set st}"
    and "al_pending st = []" and "\<And>j. al_regs st j = new_registry"
  shows "rg_ips (al_regs (al_run U R evs st) i) \<in> insert {} (set (tables_passed U R evs st))"
proof -
  let ?Ps = "set (tables_passed U R evs st)"
  have "table_set st \<in> ?Ps" by (cases evs) auto
  then have "drawn_from S ?Ps st" using assms by (auto simp: drawn_from_def new_registry_def)
  from redis_sets.drawn_run [OF assms(1) this subset_refl, of i] show ?thesis
    by (auto simp: assms(4) new_registry_def)
qed

text \<open>C19 (router_change_takes_effect): When a request for the routers table succeeds, its write to Redis gets through, and no other publication is under way, then one round of a receiver's refresh is enough for its list to be exactly the enabled routers of the new table, whatever the other receivers do, whether or not Redis answers or keeps the key, and it stays so until the table changes again.\<close>

theorem router_change_takes_effect:
  assumes "redis_sets R S"
    and "router_api U R net req (al_meta st, al_redis st) = (a, m, s)" and "succeeded a" and "net \<noteq> Refused"
    and "al_pending st = []" and "\<And>j. rg_at (al_regs st j) \<in> {AtRest, Asking}"
    and "rg_at (al_regs st i) = AtRest" and "rg_loop (al_regs st i) = LoopOn"
    and "\<And>ev. ev \<in> set evs \<Longrightarrow> leaves_table ev"
    and "own_events i evs = round_of n1 None n2 @ more_events"
  shows "rg_ips (al_regs (al_run U R ([AlRequest req, AlLand 0 net] @ evs) st) i) = set (enabled_router_ips m)"
proof -
  let ?st = "st\<lparr>al_meta := m, al_redis := s\<rparr>"
  have start: "al_run U R [AlRequest req, AlLand 0 net] st = ?st"
    by (rule handler_is_steps [OF assms(2,5)])
  have "S s ROUTER_SET_KEY = set (enabled_router_ips m)"
    using router_api_cut(2) [OF assms(2)] assms(3,4) redis_sets.publish_view [OF assms(1)] by simp
  moreover have "at_in Ps (rg_at (al_regs st j))" for Ps j using assms(6) [of j] by auto
  ultimately have "drawn_from S {table_set ?st} ?st" by (auto simp: drawn_from_def table_set_def assms(5))
  from redis_sets.settled_run [OF assms(1) this assms(9), of evs i U]
  have "rg_ips (al_regs (al_run U R evs ?st) i) = table_set ?st"
    using assms(7,8,10) by (auto intro: on_the_way.way_wake)
  then show ?thesis using start by (simp add: al_run_def table_set_def)
qed

text \<open>Also (overtaken_publication): A receiver that has read the store because the cached set was empty, and whose publication arrives after that of a request, puts the old list back: from then on every refresh of every receiver takes it, although the table has changed, for as long as Redis answers and nothing else rewrites the set.\<close>

theorem overtaken_publication:
  assumes "redis_sets R S" and "rg_at (al_regs st i) = Telling l" and "l \<noteq> []" and "net \<noteq> Refused"
    and "\<And>j. j \<noteq> i \<Longrightarrow> rg_at (al_regs st j) \<in> {AtRest, Asking}"
    and "\<And>ev. ev \<in> set evs \<Longrightarrow> answered_reads ev"
    and "al_run U R (AlReg i (RgTell net) # evs) st = st'"
  shows "refresh R Reply meta n2 cur (al_redis st') = (set l, al_redis st') \<and> table_set st' = table_set st"
proof -
  let ?st = "al_step U R (AlReg i (RgTell net)) st"
  have st: "?st = st\<lparr>al_redis := publish R net (remdups l) (al_redis st),
      al_regs := (al_regs st)(i := (al_regs st i)\<lparr>rg_at := Landed l\<rparr>)\<rparr>"
    using assms(2) by (simp add: tell_redis_def)
  have "S (al_redis ?st) ROUTER_SET_KEY = set l"
    using assms(4) by (simp add: st redis_sets.publish_view [OF assms(1)] del: al_step.simps)
  moreover have "at_stuck (set l) (rg_at (al_regs ?st j))" for j
    using assms(5) [of j] by (auto simp: st simp del: al_step.simps)
  ultimately have "S (al_redis st') ROUTER_SET_KEY = set l \<and> al_meta st' = al_meta ?st"
    using redis_sets.stuck_run [OF assms(1), of ?st "set l" evs U] assms(3,6,7) by (simp add: al_run_def del: al_step.simps)
  then show ?thesis
    using assms(3) by (simp add: refresh_def redis_sets.smembers_law [OF assms(1)] table_set_def st del: al_step.simps)
qed

text \<open>The witnesses: the store with one router, an empty Redis, and receivers that are just starting.\<close>

definition demo_allow :: "ref_store allow" where
  "demo_allow = \<lparr>al_meta = demo_meta, al_redis = empty_store, al_pending = [], al_regs = \<lambda>i. new_registry\<rparr>"

theorem allow_list_snapshots_witness:
  "rg_ips (al_regs (al_run ascii_only ref_redis [AlReg 0 RgCall, AlReg 0 (RgAsk Refused)] demo_allow) 0)
    \<in> insert {} (set (tables_passed ascii_only ref_redis [AlReg 0 RgCall, AlReg 0 (RgAsk Refused)] demo_allow))"
proof -
  have "st_sets (al_redis demo_allow) ROUTER_SET_KEY \<in> {{}, table_set demo_allow}"
    by (simp add: demo_allow_def empty_store_def)
  then show ?thesis
    by (intro allow_list_snapshots [OF ref_sets.redis_sets_axioms]) (simp_all add: demo_allow_def)
qed

theorem router_change_takes_effect_witness:
  "rg_ips (al_regs (al_run ascii_only ref_redis ([AlRequest (Delete 1), AlLand 0 Reply]
      @ map (AlReg 0) (round_of Reply None Reply)) (demo_allow\<lparr>al_regs := \<lambda>i. new_registry\<lparr>rg_loop := LoopOn\<rparr>\<rparr>)) 0) = {}"
proof -
  let ?st = "demo_allow\<lparr>al_regs := \<lambda>i. new_registry\<lparr>rg_loop := LoopOn\<rparr>\<rparr>"
  have "router_api ascii_only ref_redis Reply (Delete 1) (al_meta ?st, al_redis ?st)
      = (Http 200 None, demo_meta\<lparr>routers := []\<rparr>, sync_allow_list ref_redis Reply (demo_meta\<lparr>routers := []\<rparr>) empty_store)"
    by (simp add: demo_allow_def demo_delete)
  from router_change_takes_effect [OF ref_sets.redis_sets_axioms this, of 0 "map (AlReg 0) (round_of Reply None Reply)" Reply Reply "[]"]
  show ?thesis
    by (force simp: demo_allow_def new_registry_def round_of_def enabled_router_ips_def)
qed

text \<open>A run that leads there: the receiver has read the store, then the router is deleted, and both publications arrive.\<close>

definition overtaking :: "al_event list" where
  "overtaking = [AlReg 0 RgCall, AlReg 0 (RgAsk Reply), AlReg 0 (RgDecide None), AlRequest (Delete 1), AlLand 0 Reply]"

lemma overtaking_leads:
  "al_run ascii_only ref_redis overtaking demo_allow =
    \<lparr>al_meta = demo_meta\<lparr>routers := []\<rparr>, al_redis = publish ref_redis Reply [] empty_store, al_pending = [],
     al_regs = (\<lambda>i. new_registry)(0 := new_registry\<lparr>rg_at := Telling [lit ''10.0.0.1'']\<rparr>)\<rparr>"
proof -
  have "r_smembers ref_redis ROUTER_SET_KEY empty_store = {}"
    using ref_sets.smembers_law by (simp add: empty_store_def)
  moreover have listed: "enabled_router_ips demo_meta = [lit ''10.0.0.1'']" "enabled_router_ips (demo_meta\<lparr>routers := []\<rparr>) = []"
    by (simp_all add: enabled_router_ips_def demo_meta_def demo_router_def empty_meta_def)
  ultimately show ?thesis
    by (simp add: al_run_def overtaking_def demo_allow_def registry_defs new_registry_def request_part_def land_part_def
        demo_delete listed sync_allow_list_def)
qed

theorem overtaken_publication_witness:
  "\<exists>st'. al_run ascii_only ref_redis (overtaking @ [AlReg 0 (RgTell Reply), AlReg 0 RgReturn]) demo_allow = st'
    \<and> fst (refresh ref_redis Reply (Some (Inr [])) Reply {} (al_redis st')) = {lit ''10.0.0.1''} \<and> table_set st' = {}"
proof -
  let ?late = "[AlReg 0 (RgTell Reply), AlReg 0 RgReturn]" and ?mid = "al_run ascii_only ref_redis overtaking demo_allow"
  have "al_run ascii_only ref_redis (overtaking @ ?late) demo_allow = al_run ascii_only ref_redis ?late ?mid"
    by (simp only: al_run_def fold_append o_apply)
  moreover have "refresh ref_redis Reply (Some (Inr [])) Reply {} (al_redis (al_run ascii_only ref_redis ?late ?mid))
      = (set [lit ''10.0.0.1''], al_redis (al_run ascii_only ref_redis ?late ?mid))
      \<and> table_set (al_run ascii_only ref_redis ?late ?mid) = table_set ?mid"
    by (rule overtaken_publication [OF ref_sets.redis_sets_axioms, where i = 0 and net = Reply and evs = "[AlReg 0 RgReturn]"])
       (auto simp: overtaking_leads new_registry_def)
  moreover have "table_set ?mid = {}" by (simp add: overtaking_leads table_set_def enabled_router_ips_def)
  ultimately show ?thesis by simp
qed

end
