(* ===== verification/Loadtest.thy ===== *)
theory Loadtest
  imports Complex_Main Mikrotik
begin

text \<open>
  \<open>scripts/loadtest.py\<close>, the load generator: the lines it renders, the pacing of a sender and the way a rate is shared out. The draws
  of the random generator, the outcomes of \<open>sendto\<close> and the clock are inputs.
\<close>

section \<open>The corpus\<close>

definition PROTOCOLS :: "pystr list" where
  "PROTOCOLS = map lit [''TCP (SYN)'', ''TCP (ACK)'', ''TCP (PSH,ACK)'', ''TCP (FIN,ACK)'',
     ''UDP'', ''UDP'', ''UDP'', ''ICMP (type 8, code 0)'']"

definition nat_pool :: "nat \<Rightarrow> pystr list" where
  "nat_pool pool_size = map (\<lambda>i. lit ''103.125.177.'' @ py_str_nat (i mod 254 + 1)) [0..<pool_size]"

definition sub_text :: "nat \<times> nat \<Rightarrow> pystr" where
  "sub_text ab = lit ''DT-'' @ py_str_nat (fst ab) @ lit ''-0'' @ py_str_nat (snd ab)"

text \<open>The draws for one line; \<open>dr_sub\<close> and \<open>dr_proto\<close> are the positions chosen.\<close>

record draw =
  dr_private :: "nat \<times> nat \<times> nat"
  dr_dest :: "nat \<times> nat \<times> nat \<times> nat"
  dr_sport :: nat
  dr_dport :: nat
  dr_proto :: nat
  dr_sub :: nat
  dr_len :: nat

definition private_text :: "draw \<Rightarrow> pystr" where
  "private_text d = (case dr_private d of (a, b, c) \<Rightarrow>
     lit ''100.'' @ py_str_nat a @ lit ''.'' @ py_str_nat b @ lit ''.'' @ py_str_nat c)"

definition dest_text :: "draw \<Rightarrow> pystr" where
  "dest_text d = (case dr_dest d of (a, b, c, e) \<Rightarrow>
     py_str_nat a @ lit ''.'' @ py_str_nat b @ lit ''.'' @ py_str_nat c @ lit ''.'' @ py_str_nat e)"

definition corpus_line :: "pystr list \<Rightarrow> pystr list \<Rightarrow> nat \<Rightarrow> draw \<Rightarrow> pystr" where
  "corpus_line pool subs i d =
     (let private = private_text d; public = pool ! (i mod length pool); dest = dest_text d;
          sport = py_str_nat (dr_sport d); dport = py_str_nat (dr_dport d)
      in lit ''<134>Aug 30 18:33:17 BRAS-01 firewall,info forward: ''
         @ lit ''in:<pppoe-'' @ subs ! dr_sub d @ lit ''> out:vlan2436, connection-state:new,snat ''
         @ lit ''proto '' @ PROTOCOLS ! dr_proto d @ lit '', '' @ private @ lit '':'' @ sport @ lit ''->'' @ dest
         @ lit '':'' @ dport @ lit '', ''
         @ lit ''NAT ('' @ private @ lit '':'' @ sport @ lit ''->'' @ public @ lit '':'' @ sport @ lit '')->'' @ dest
         @ lit '':'' @ dport @ lit '', ''
         @ lit ''len '' @ py_str_nat (dr_len d))"

definition encode_line :: "pystr \<Rightarrow> pybytes" where
  "encode_line s = map char_of s"

definition build_corpus :: "nat \<Rightarrow> (nat \<times> nat) list \<Rightarrow> draw list \<Rightarrow> pybytes list" where
  "build_corpus pool_size subscribers draws =
     (let pool = nat_pool pool_size; subs = map sub_text subscribers
      in map (\<lambda>(i, d). encode_line (corpus_line pool subs i d)) (enumerate 0 draws))"

text \<open>The ranges of the draws.\<close>

definition draw_ok :: "nat \<Rightarrow> draw \<Rightarrow> bool" where
  "draw_ok n d \<longleftrightarrow>
     (case dr_private d of (a, b, c) \<Rightarrow> a \<in> {64..127} \<and> b \<in> {0..255} \<and> c \<in> {1..254})
     \<and> (case dr_dest d of (a, b, c, e) \<Rightarrow> a \<in> {1..223} \<and> b \<in> {0..255} \<and> c \<in> {0..255} \<and> e \<in> {1..254})
     \<and> dr_sport d \<in> {1024..65535} \<and> dr_dport d \<in> {80, 443, 53, 22, 8080, 3478}
     \<and> dr_proto d < length PROTOCOLS \<and> dr_sub d < n \<and> dr_len d \<in> {40..1500}"

section \<open>The sender\<close>

text \<open>What a sender keeps: the next index, the datagrams that went out, and the errors.\<close>

record send_state =
  ss_i :: nat
  ss_sent :: "pybytes list"
  ss_errors :: nat

fun send_n :: "pybytes list \<Rightarrow> (nat \<Rightarrow> bool) \<Rightarrow> nat \<Rightarrow> send_state \<Rightarrow> send_state" where
  "send_n corpus ok 0 st = st"
| "send_n corpus ok (Suc n) st =
     send_n corpus ok n
       (if ok (ss_i st)
        then st\<lparr>ss_i := ss_i st + 1, ss_sent := ss_sent st @ [corpus ! (ss_i st mod length corpus)]\<rparr>
        else st\<lparr>ss_i := ss_i st + 1, ss_errors := ss_errors st + 1\<rparr>)"

text \<open>
  Datagrams in one round: \<open>int(rate * 0.01)\<close>, which is the rate over 100 for every rate below
  \<open>10 ^ 13\<close>, or 2000 without a rate.
\<close>

definition per_round :: "int \<Rightarrow> nat" where
  "per_round rate = (if rate \<noteq> 0 then nat (rate div 100) else 2000)"

text \<open>
  The loop over the clock readings at its head; \<open>None\<close>: still running after them. An empty corpus, on which it would divide by
  zero, does not reach a sender: \<open>main\<close> has divided by its length before.
\<close>

fun sender_loop :: "pybytes list \<Rightarrow> (nat \<Rightarrow> bool) \<Rightarrow> int \<Rightarrow> rat \<Rightarrow> rat list \<Rightarrow> send_state \<Rightarrow> send_state option" where
  "sender_loop corpus ok rate deadline [] st = None"
| "sender_loop corpus ok rate deadline (now # nows) st =
     (if now \<ge> deadline then Some st
      else sender_loop corpus ok rate deadline nows (send_n corpus ok (per_round rate) st))"

definition sender :: "pybytes list \<Rightarrow> (nat \<Rightarrow> bool) \<Rightarrow> int \<Rightarrow> rat \<Rightarrow> rat \<Rightarrow> rat list \<Rightarrow> send_state option" where
  "sender corpus ok rate duration start nows =
     sender_loop corpus ok rate (start + duration) nows \<lparr>ss_i = 0, ss_sent = [], ss_errors = 0\<rparr>"

section \<open>Sharing a rate\<close>

text \<open>\<open>main\<close>: the number of processes and the rate of each; \<open>cpus\<close> is \<open>os.cpu_count()\<close>.\<close>

definition processes :: "int \<Rightarrow> int option \<Rightarrow> int" where
  "processes asked cpus =
     (if asked \<noteq> 0 then asked
      else min 8 (max 1 ((case cpus of None \<Rightarrow> 2 | Some n \<Rightarrow> if n = 0 then 2 else n) div 2)))"

definition per_process_rate :: "int \<Rightarrow> int \<Rightarrow> int" where
  "per_process_rate rate procs = (if rate \<noteq> 0 then rate div procs else 0)"

text \<open>The totals at the end of \<open>main\<close>.\<close>

fun totals :: "(nat \<times> nat \<times> rat) list \<Rightarrow> nat \<times> nat \<times> rat \<Rightarrow> nat \<times> nat \<times> rat" where
  "totals [] acc = acc"
| "totals ((sent, errors, el) # rs) (s, e, t) = totals rs (s + sent, e + errors, max t el)"

section \<open>Lemmas\<close>

lemma py_find_skip: "c \<notin> set x \<Longrightarrow> py_find (x @ y) (c # p) = map_option (\<lambda>k. k + length x) (py_find y (c # p))"
  by (induction x) (auto simp: option.map_comp comp_def option.map_ident)

lemma nat_digits: "c \<in> set (py_str_nat n) \<Longrightarrow> 48 \<le> c \<and> c \<le> 57"
  by (auto simp: is_ascii_digit_def dest!: py_str_nat_digits)

lemma nat_no: "c < 48 \<or> 57 < c \<Longrightarrow> c \<notin> set (py_str_nat n)"
  using nat_digits by fastforce

lemma address_no: "57 < c \<Longrightarrow> c \<notin> set (private_text d)" "57 < c \<Longrightarrow> c \<notin> set (dest_text d)"
  by (auto simp: private_text_def dest_text_def nat_no split: prod.splits)

lemma sub_no: "c \<in> {62, 78, 112} \<Longrightarrow> c \<notin> set (sub_text ab)"
  by (auto simp: sub_text_def nat_no)

lemma private_canonical: "draw_ok n d \<Longrightarrow> canonical_ipv4 (private_text d)"
proof -
  assume "draw_ok n d"
  then obtain a b c where "dr_private d = (a, b, c)" "a < 256" "b < 256" "c < 256"
    by (auto simp: draw_ok_def split: prod.splits)
  moreover have "private_text d = dotted 100 a b c" if "dr_private d = (a, b, c)"
    using that by (simp add: private_text_def dotted_def) code_simp
  ultimately show ?thesis using canonical_dotted [of 100 a b c] by simp
qed

lemma dest_canonical: "draw_ok n d \<Longrightarrow> canonical_ipv4 (dest_text d)"
proof -
  assume "draw_ok n d"
  then obtain a b c e where "dr_dest d = (a, b, c, e)" "a < 256" "b < 256" "c < 256" "e < 256"
    by (auto simp: draw_ok_def split: prod.splits)
  moreover have "dest_text d = dotted a b c e" if "dr_dest d = (a, b, c, e)"
    using that by (simp add: dest_text_def dotted_def)
  ultimately show ?thesis using canonical_dotted [of a b c e] by simp
qed

lemma pool_canonical: "0 < pool_size \<Longrightarrow> canonical_ipv4 (nat_pool pool_size ! (i mod length (nat_pool pool_size)))"
proof -
  assume "0 < pool_size"
  then have "nat_pool pool_size ! (i mod length (nat_pool pool_size)) = lit ''103.125.177.'' @ py_str_nat (i mod pool_size mod 254 + 1)"
    by (simp add: nat_pool_def)
  also have "\<dots> = dotted 103 125 177 (i mod pool_size mod 254 + 1)"
  proof -
    have "py_str_nat 103 = lit ''103''" "py_str_nat 125 = lit ''125''" "py_str_nat 177 = lit ''177''" by code_simp+
    then show ?thesis by (simp add: dotted_def)
  qed
  moreover have "i mod pool_size mod 254 + 1 < 256"
    using mod_less_divisor [of 254 "i mod pool_size"] by linarith
  ultimately show ?thesis using canonical_dotted by auto
qed

text \<open>Where the three searches of the parser hit a line of the corpus.\<close>

lemma protocols_ne: "k < length PROTOCOLS \<Longrightarrow> PROTOCOLS ! k \<in> set PROTOCOLS" by simp

definition line_head :: "pystr \<Rightarrow> pystr" where
  "line_head sub = lit ''<134>Aug 30 18:33:17 BRAS-01 firewall,info forward: '' @ lit ''in:<'' @ (lit ''pppoe-'' @ sub)
     @ lit ''>'' @ lit '' out:vlan2436, connection-state:new,snat ''"

definition line_nat :: "pystr \<Rightarrow> pystr \<Rightarrow> pystr \<Rightarrow> pystr \<Rightarrow> pystr \<Rightarrow> pystr \<Rightarrow> pystr" where
  "line_nat sub proto private sport dest dport =
     line_head sub @ lit ''proto '' @ proto @ lit '', '' @ private @ lit '':'' @ sport @ lit ''->'' @ dest
       @ lit '':'' @ dport @ lit '', ''"

lemma corpus_line_split:
  "corpus_line pool subs i d =
     line_nat (subs ! dr_sub d) (PROTOCOLS ! dr_proto d) (private_text d) (py_str_nat (dr_sport d)) (dest_text d)
       (py_str_nat (dr_dport d))
     @ srcnat_ports_text [32] (private_text d) (py_str_nat (dr_sport d)) (pool ! (i mod length pool))
         (py_str_nat (dr_sport d)) (dest_text d) (py_str_nat (dr_dport d))
     @ lit '', len '' @ py_str_nat (dr_len d)"
  by (simp add: corpus_line_def line_nat_def line_head_def srcnat_ports_text_def Let_def)

lemma find_nat:
  assumes "proto \<in> set PROTOCOLS" "78 \<notin> set sub" "78 \<notin> set private" "78 \<notin> set sport" "78 \<notin> set dest" "78 \<notin> set dport"
  shows "py_find (line_nat sub proto private sport dest dport @ lit ''NAT'' @ post) (lit ''NAT'')
    = Some (length (line_nat sub proto private sport dest dport))"
proof -
  have p: "py_find (proto @ 44 # y) [78, 65, 84] = map_option (\<lambda>k. k + Suc (length proto)) (py_find y [78, 65, 84])" for y
    using assms(1) by (auto simp: PROTOCOLS_def option.map_comp comp_def)
  show ?thesis
    using assms(2-) by (simp add: line_nat_def line_head_def p py_find_skip option.map_comp comp_def)
qed

lemma find_proto:
  assumes "112 \<notin> set sub"
  shows "py_find (line_head sub @ lit ''proto '' @ post) (lit ''proto '') = Some (length (line_head sub))"
  using assms by (simp add: line_head_def py_find_skip option.map_comp comp_def)

lemma find_in: "py_find (line_head sub @ post) (lit ''in:<'')
    = Some (length (lit ''<134>Aug 30 18:33:17 BRAS-01 firewall,info forward: ''))"
  by (simp add: line_head_def)

lemma proto_split:
  assumes "proto \<in> set PROTOCOLS"
  shows "\<exists>c more. proto @ lit '', '' @ tail = takeWhile (\<lambda>c. c \<noteq> 32) proto @ c # more \<and> c \<in> set PROTO_END"
    and "takeWhile (\<lambda>c. c \<noteq> 32) proto \<noteq> []" "\<And>x. x \<in> set (takeWhile (\<lambda>c. c \<noteq> 32) proto) \<Longrightarrow> x \<notin> set PROTO_END"
    and "\<not> py_isdigit U (takeWhile (\<lambda>c. c \<noteq> 32) proto)"
    and "py_upper U (takeWhile (\<lambda>c. c \<noteq> 32) proto) = takeWhile (\<lambda>c. c \<noteq> 32) proto"
  using assms
  by (auto simp: PROTOCOLS_def PROTO_END_def py_isdigit_def is_digit_def is_decimal_def dec_val_def
      is_ascii_digit_def py_upper_def to_upper_def)

lemma decode_encode: "ascii s \<Longrightarrow> decode_replace (encode_line s) = s"
proof -
  assume a: "ascii s"
  have "lit (encode_line s) = s"
    using a unfolding lit_def encode_line_def ascii_def map_map by (intro map_idI) (auto simp: list_all_iff)
  then show ?thesis using decode_replace_ascii a by metis
qed

lemma ascii_append [simp]: "ascii (a @ b) \<longleftrightarrow> ascii a \<and> ascii b" by (simp add: ascii_def)

lemma ascii_nat [simp]: "ascii (py_str_nat n)"
  by (auto simp: ascii_def list_all_iff dest: nat_digits)

lemma ascii_addresses [simp]: "ascii (private_text d)" "ascii (dest_text d)" "ascii (sub_text ab)"
  by (auto simp: private_text_def dest_text_def sub_text_def ascii_def ascii_nat [unfolded ascii_def] split: prod.splits)

lemma pool_at: "0 < pool_size \<Longrightarrow>
    nat_pool pool_size ! (i mod length (nat_pool pool_size)) = lit ''103.125.177.'' @ py_str_nat (i mod pool_size mod 254 + 1)"
  by (simp add: nat_pool_def)

section \<open>Properties\<close>

text \<open>Also (corpus_parses): Every line that the load generator renders is accepted by the parser, whatever its settings, and comes back as the addresses and ports that were drawn, with the address of the pool, the protocol in front of the flags, and the subscriber of the interface.\<close>

theorem corpus_parses:
  assumes "draw_ok (length subscribers) d" and "0 < pool_size"
  shows "parse_bytes U P (encode_line (corpus_line (nat_pool pool_size) (map sub_text subscribers) i d)) =
    (Some \<lparr>private_ip = private_text d, private_port = int (dr_sport d),
           public_ip = lit ''103.125.177.'' @ py_str_nat (i mod pool_size mod 254 + 1), public_port = int (dr_sport d),
           dest_ip = dest_text d, dest_port = int (dr_dport d),
           protocol = takeWhile (\<lambda>c. c \<noteq> 32) (PROTOCOLS ! dr_proto d),
           subscriber_id = sub_text (subscribers ! dr_sub d)\<rparr>, OK)"
proof -
  let ?sub = "sub_text (subscribers ! dr_sub d)" and ?proto = "PROTOCOLS ! dr_proto d"
  let ?pool = "nat_pool pool_size" and ?i = "py_str_nat (dr_sport d)" and ?k = "py_str_nat (dr_dport d)"
  let ?pub = "?pool ! (i mod length ?pool)"
  let ?s = "corpus_line ?pool (map sub_text subscribers) i d"
  let ?pre = "line_nat ?sub ?proto (private_text d) ?i (dest_text d) ?k"
  let ?post = "lit '', len '' @ py_str_nat (dr_len d)"
  have idx: "dr_sub d < length subscribers" "?proto \<in> set PROTOCOLS" and ports: "dr_sport d \<le> 65535" "dr_dport d \<le> 65535"
    using assms(1) by (auto simp: draw_ok_def)
  have split: "?s = ?pre @ srcnat_ports_text [32] (private_text d) ?i ?pub ?i (dest_text d) ?k @ ?post"
    using corpus_line_split [of ?pool "map sub_text subscribers" i d] idx(1) by simp
  have nat: "py_find ?s (lit ''NAT'') = Some (length ?pre)"
    using find_nat [OF idx(2)] sub_no address_no nat_no unfolding split srcnat_ports_text_def append_assoc by simp
  have "\<exists>tail. ?s = line_head ?sub @ lit ''proto '' @ ?proto @ lit '', '' @ tail"
    unfolding split line_nat_def append_assoc by blast
  then obtain tail where tail: "?s = line_head ?sub @ lit ''proto '' @ ?proto @ lit '', '' @ tail" ..
  obtain c more where more: "?proto @ lit '', '' @ tail = takeWhile (\<lambda>c. c \<noteq> 32) ?proto @ c # more" "c \<in> set PROTO_END"
    using proto_split(1) [OF idx(2)] by blast
  have p: "protocol_of U ?s = takeWhile (\<lambda>c. c \<noteq> 32) ?proto"
    using protocol_of_word [OF tail [unfolded more(1)] _ proto_split(2) [OF idx(2)] more(2) proto_split(3) [OF idx(2)], of U]
      find_proto [OF sub_no, of "subscribers ! dr_sub d"] proto_split(4,5) [OF idx(2), of U]
    unfolding tail by simp
  have sub: "subscriber_of U P ?s = ?sub"
  proof (rule subscriber_pppoe)
    show "?s = lit ''<134>Aug 30 18:33:17 BRAS-01 firewall,info forward: '' @ lit ''in:<'' @ (lit ''pppoe-'' @ ?sub)
        @ lit ''>'' @ lit '' out:vlan2436, connection-state:new,snat '' @ lit ''proto '' @ ?proto @ lit '', '' @ tail"
      unfolding tail line_head_def append_assoc ..
    show "py_find ?s (lit ''in:<'') = Some (length (lit ''<134>Aug 30 18:33:17 BRAS-01 firewall,info forward: ''))"
      unfolding tail by (rule find_in)
  qed (simp_all add: sub_no sub_text_def nat_no)
  have "search U SRCNAT_PORTS ?s = Some (Map.empty(PRI \<mapsto> private_text d, PRI_PORT \<mapsto> ?i, PUB \<mapsto> ?pub,
      PUB_PORT \<mapsto> ?i, DST \<mapsto> dest_text d, DST_PORT \<mapsto> ?k))"
    unfolding split
  proof (rule search_SRCNAT_PORTS_line)
    show "port_first U ?k ?post"
      by (rule port_first_end [OF ports(2)]) (simp add: is_decimal_def dec_val_def is_ascii_digit_def)
  qed (use nat [unfolded split] ports private_canonical [OF assms(1)] dest_canonical [OF assms(1)] pool_canonical [OF assms(2)]
       in \<open>auto simp: is_space_def\<close>)
  then have "parse U P ?s = (Some \<lparr>private_ip = private_text d, private_port = int (dr_sport d), public_ip = ?pub,
      public_port = int (dr_sport d), dest_ip = dest_text d, dest_port = int (dr_dport d),
      protocol = protocol_of U ?s, subscriber_id = subscriber_of U P ?s\<rparr>, OK)"
    using nat ports by (intro parse_of_SRCNAT_PORTS) auto
  moreover have "ascii ?s"
  proof -
    have "ascii ?proto" using idx(2) by (auto simp: PROTOCOLS_def ascii_def)
    then show ?thesis
      unfolding corpus_line_def Let_def pool_at [OF assms(2)] nth_map [OF idx(1)]
      by (simp only: ascii_append ascii_nat ascii_addresses) (simp add: ascii_def)
  qed
  ultimately show ?thesis
    by (simp only: parse_bytes_def decode_encode p sub pool_at [OF assms(2)])
qed

definition demo_draw :: draw where
  "demo_draw = \<lparr>dr_private = (64, 0, 1), dr_dest = (8, 8, 8, 8), dr_sport = 1024, dr_dport = 443, dr_proto = 2,
     dr_sub = 0, dr_len = 60\<rparr>"

theorem corpus_parses_witness:
  "\<exists>r. parse_bytes ascii_only default_parser
      (encode_line (corpus_line (nat_pool 1024) (map sub_text [(1234, 3000000000)]) 300 demo_draw)) = (Some r, OK)
    \<and> public_ip r = lit ''103.125.177.'' @ py_str_nat 47 \<and> dest_port r = 443"
  using corpus_parses [of "[(1234, 3000000000)]" demo_draw 1024 ascii_only default_parser 300]
  by (simp add: demo_draw_def draw_ok_def PROTOCOLS_def)

lemma send_n_add: "send_n corpus ok (a + b) st = send_n corpus ok b (send_n corpus ok a st)"
  by (induction corpus ok a st rule: send_n.induct) auto

lemma send_n_spec:
  "ss_i (send_n corpus ok n st) = ss_i st + n
    \<and> ss_sent (send_n corpus ok n st)
      = ss_sent st @ map (\<lambda>j. corpus ! (j mod length corpus)) (filter ok [ss_i st..<ss_i st + n])
    \<and> ss_errors (send_n corpus ok n st) = ss_errors st + length (filter (\<lambda>j. \<not> ok j) [ss_i st..<ss_i st + n])"
proof (induction corpus ok n st rule: send_n.induct)
  case (2 corpus ok n st)
  have "[ss_i st..<ss_i st + Suc n] = ss_i st # [Suc (ss_i st)..<Suc (ss_i st) + n]" by (simp add: upt_rec)
  then show ?case using 2 by auto
qed simp

lemma sender_loop_spec:
  assumes "k < length nows" "deadline \<le> nows ! k" "\<forall>j < k. nows ! j < deadline"
  shows "sender_loop corpus ok rate deadline nows st = Some (send_n corpus ok (k * per_round rate) st)"
  using assms
proof (induction k arbitrary: nows st)
  case 0
  then show ?case by (cases nows) auto
next
  case (Suc k)
  then obtain now rest where nows: "nows = now # rest" by (cases nows) auto
  have "now < deadline" using Suc.prems(3) nows by force
  moreover have "sender_loop corpus ok rate deadline rest (send_n corpus ok (per_round rate) st)
      = Some (send_n corpus ok (k * per_round rate) (send_n corpus ok (per_round rate) st))"
    using Suc.prems nows by (intro Suc.IH) auto
  ultimately show ?case by (simp add: nows send_n_add)
qed

text \<open>C33 (sender_terminates): With a clock that advances by at least some amount from round to round, a sender returns after at most duration over that amount rounds; it has then made rounds times the datagrams of a round attempts, has sent the lines of the corpus in turn, starting over at its end, and has counted every failed attempt.\<close>

theorem sender_terminates:
  assumes "0 < \<delta>" and "0 \<le> duration" and "\<And>i. start + of_nat i * \<delta> \<le> clock i"
  shows "\<exists>k \<le> nat \<lceil>duration / \<delta>\<rceil>. \<exists>st. sender corpus ok rate duration start (map clock [0..<Suc k]) = Some st
    \<and> ss_i st = k * per_round rate \<and> length (ss_sent st) + ss_errors st = k * per_round rate
    \<and> ss_sent st = map (\<lambda>j. corpus ! (j mod length corpus)) (filter ok [0..<k * per_round rate])"
proof -
  let ?K = "nat \<lceil>duration / \<delta>\<rceil>" and ?late = "\<lambda>k. start + duration \<le> clock k"
  have "duration / \<delta> \<le> of_nat ?K" using assms(1,2) by (simp add: of_nat_nat le_of_int_ceiling)
  then have "duration \<le> of_nat ?K * \<delta>" using assms(1) by (simp add: pos_divide_le_eq)
  then have late: "?late ?K" using assms(3) [of ?K] by linarith
  define k where "k = (LEAST k. ?late k)"
  have k: "?late k" "k \<le> ?K" "\<And>j. j < k \<Longrightarrow> clock j < start + duration"
    unfolding k_def using late by (auto intro: LeastI Least_le dest: not_less_Least)
  let ?st = "send_n corpus ok (k * per_round rate) \<lparr>ss_i = 0, ss_sent = [], ss_errors = 0\<rparr>"
  have "sender corpus ok rate duration start (map clock [0..<Suc k]) = Some ?st"
    unfolding sender_def using k(1,3)
    by (intro sender_loop_spec) (simp_all add: nth_append del: upt_Suc)
  moreover have "length (filter ok js) + length (filter (\<lambda>j. \<not> ok j) js) = length js" for js
    by (rule sum_length_filter_compl)
  ultimately show ?thesis
    using k(2) send_n_spec [of corpus ok "k * per_round rate" "\<lparr>ss_i = 0, ss_sent = [], ss_errors = 0\<rparr>"] by force
qed

theorem sender_terminates_witness:
  "\<exists>k \<le> 200. \<exists>st. sender [''a'', ''b''] (\<lambda>j. j \<noteq> 1) 300 2 5 (map (\<lambda>i. 5 + of_nat i / 100) [0..<Suc k]) = Some st
    \<and> ss_i st = k * 3"
  using sender_terminates [of "1 / 100" 2 5 "\<lambda>i. 5 + of_nat i / 100" "[''a'', ''b'']" "\<lambda>j. j \<noteq> 1" 300]
  by (auto simp: per_round_def)

text \<open>Also (load_rate): A hundred rounds a second over all senders never exceed the rate asked for; but a rate below a hundred for each process sends nothing at all, and one below the number of processes, which is meant to be the slowest, is taken as unlimited.\<close>

theorem load_rate:
  assumes "0 < rate" and "0 < procs"
  shows "(procs \<le> rate \<longrightarrow> procs * (100 * int (per_round (per_process_rate rate procs))) \<le> rate)
    \<and> (procs \<le> rate \<and> rate < 100 * procs \<longrightarrow> per_round (per_process_rate rate procs) = 0)
    \<and> (rate < procs \<longrightarrow> per_round (per_process_rate rate procs) = 2000)"
proof (intro conjI impI)
  let ?r = "rate div procs"
  assume le: "procs \<le> rate"
  then have r: "0 < ?r" using assms by (simp add: pos_imp_zdiv_pos_iff)
  have "procs * (100 * (?r div 100)) \<le> procs * ?r" using assms(2) by (intro mult_left_mono) auto
  also have "\<dots> \<le> rate" 
    using mult_div_mod_eq [of procs rate] pos_mod_sign [OF assms(2), of rate] by linarith
  finally show "procs * (100 * int (per_round (per_process_rate rate procs))) \<le> rate"
    using r assms by (simp add: per_round_def per_process_rate_def)
next
  assume "procs \<le> rate \<and> rate < 100 * procs"
  moreover have "rate div procs < 100" if lt: "rate < 100 * procs"
  proof (rule ccontr)
    assume "\<not> rate div procs < 100"
    then have "procs * 100 \<le> procs * (rate div procs)" using assms(2) by (intro mult_left_mono) auto
    then show False
      using lt mult_div_mod_eq [of procs rate] pos_mod_sign [OF assms(2), of rate] by linarith
  qed
  ultimately show "per_round (per_process_rate rate procs) = 0"
    using assms pos_imp_zdiv_pos_iff [OF assms(2), of rate] by (auto simp: per_round_def per_process_rate_def)
next
  assume "rate < procs"
  then show "per_round (per_process_rate rate procs) = 2000"
    using assms by (simp add: per_round_def per_process_rate_def div_pos_pos_trivial)
qed

theorem load_rate_witness:
  "per_round (per_process_rate 3 4) = 2000 \<and> per_round (per_process_rate 300 4) = 0"
  using load_rate [of 3 4] load_rate [of 300 4] by simp

end
