(* ===== verification/Load_Report.thy ===== *)
theory Load_Report
  imports Loadtest
begin

text \<open>
  The end of \<open>scripts/loadtest.py\<close>: what a sender reports and the figures that \<open>main\<close> prints, with the division that
  can fail. Floats are rationals, \<open>None\<close> is \<open>ZeroDivisionError\<close>.
\<close>

section \<open>Reports and figures\<close>

text \<open>One run of \<open>sender\<close>: the outcomes of \<open>sendto\<close>, the clock at its start, at the head of each round, and at its end.\<close>

record send_run =
  sr_ok :: "nat \<Rightarrow> bool"
  sr_start :: rat
  sr_nows :: "rat list"
  sr_finish :: rat

definition sender_report :: "pybytes list \<Rightarrow> int \<Rightarrow> rat \<Rightarrow> send_run \<Rightarrow> (nat \<times> nat \<times> rat) option" where
  "sender_report corpus rate duration r =
     (case sender corpus (sr_ok r) rate duration (sr_start r) (sr_nows r) of
        None \<Rightarrow> None
      | Some st \<Rightarrow> Some (length (ss_sent st), ss_errors st, sr_finish r - sr_start r))"

record load_figures =
  lf_sent :: nat
  lf_errors :: nat
  lf_elapsed :: rat
  lf_achieved :: rat
  lf_mbits :: rat

definition avg_len :: "pybytes list \<Rightarrow> rat option" where
  "avg_len corpus =
     (if corpus = [] then None else Some (of_nat (sum_list (map length corpus)) / of_nat (length corpus)))"

definition load_figures :: "pybytes list \<Rightarrow> (nat \<times> nat \<times> rat) list \<Rightarrow> load_figures option" where
  "load_figures corpus results =
     (case avg_len corpus of
        None \<Rightarrow> None
      | Some avg \<Rightarrow>
          (case totals results (0, 0, 0) of
             (sent, errors, elapsed) \<Rightarrow>
               (let mbits = (if elapsed \<noteq> 0 then of_nat sent * avg * 8 / elapsed / 1000000 else 0)
                in if elapsed = 0 then None
                   else Some \<lparr>lf_sent = sent, lf_errors = errors, lf_elapsed = elapsed,
                              lf_achieved = of_nat sent / elapsed, lf_mbits = mbits\<rparr>)))"

section \<open>Lemmas\<close>

lemma totals_sum:
  "totals rs (s, e, t) =
    (s + sum_list (map fst rs), e + sum_list (map (fst \<circ> snd) rs), fold (\<lambda>r. max (snd (snd r))) rs t)"
  by (induction rs arbitrary: s e t) (auto simp: max.commute)

lemma fold_max_bounds:
  fixes t :: rat
  shows "t \<le> fold (\<lambda>r. max (snd (snd r))) rs t" "r \<in> set rs \<Longrightarrow> snd (snd r) \<le> fold (\<lambda>r. max (snd (snd r))) rs t"
proof -
  have "t \<le> fold (\<lambda>r. max (snd (snd r))) rs t \<and> (\<forall>r \<in> set rs. snd (snd r) \<le> fold (\<lambda>r. max (snd (snd r))) rs t)"
  proof (induction rs arbitrary: t)
    case (Cons r rs)
    then show ?case using Cons.IH [of "max (snd (snd r)) t"] by (simp add: max.absorb_iff2 del: max.absorb_iff2) (metis max.bounded_iff)
  qed simp
  then show "t \<le> fold (\<lambda>r. max (snd (snd r))) rs t"
    "r \<in> set rs \<Longrightarrow> snd (snd r) \<le> fold (\<lambda>r. max (snd (snd r))) rs t" by auto
qed

lemma fold_max_zero: "fold (\<lambda>r. max (snd (snd r))) rs (t :: rat) = t \<longleftrightarrow> (\<forall>r \<in> set rs. snd (snd r) \<le> t)"
proof
  assume "fold (\<lambda>r. max (snd (snd r))) rs t = t"
  then show "\<forall>r \<in> set rs. snd (snd r) \<le> t" using fold_max_bounds(2) [of _ rs t] by auto
next
  assume "\<forall>r \<in> set rs. snd (snd r) \<le> t"
  then show "fold (\<lambda>r. max (snd (snd r))) rs t = t" by (induction rs) (auto simp: max_def)
qed

lemma sender_loop_rounds:
  "sender_loop corpus ok rate deadline nows st = Some st' \<Longrightarrow>
    \<exists>k < length nows. st' = send_n corpus ok (k * per_round rate) st"
proof (induction nows arbitrary: st)
  case (Cons now nows)
  show ?case
  proof (cases "now \<ge> deadline")
    case True
    then show ?thesis using Cons.prems by (intro exI [of _ 0]) auto
  next
    case False
    then obtain k where "k < length nows"
      "st' = send_n corpus ok (k * per_round rate) (send_n corpus ok (per_round rate) st)"
      using Cons.IH Cons.prems by auto
    then show ?thesis by (intro exI [of _ "Suc k"]) (simp add: send_n_add)
  qed
qed simp

text \<open>Every round takes at least the hundredth of a second that it is paced to, and the clock does not run back.\<close>

definition paced :: "send_run \<Rightarrow> bool" where
  "paced r \<longleftrightarrow> sr_start r \<le> sr_finish r
     \<and> (\<forall>i < length (sr_nows r). sr_start r + of_nat i / 100 \<le> sr_nows r ! i \<and> sr_nows r ! i \<le> sr_finish r)"

lemma report_within:
  assumes "sender_report corpus rate duration r = Some (sent, errors, el)" "paced r" "0 < rate"
  shows "of_nat sent \<le> of_int rate * el" "0 \<le> el"
proof -
  obtain st where st: "sender corpus (sr_ok r) rate duration (sr_start r) (sr_nows r) = Some st"
    and out: "sent = length (ss_sent st)" "el = sr_finish r - sr_start r"
    using assms(1) by (auto simp: sender_report_def split: option.splits)
  obtain k where k: "k < length (sr_nows r)"
    "st = send_n corpus (sr_ok r) (k * per_round rate) \<lparr>ss_i = 0, ss_sent = [], ss_errors = 0\<rparr>"
    using sender_loop_rounds [of corpus "sr_ok r" rate "sr_start r + duration" "sr_nows r" _ st] st
    unfolding sender_def by blast
  have "sr_start r + of_nat k / 100 \<le> sr_finish r" using assms(2) k(1) by (force simp: paced_def)
  then have el: "of_nat k / 100 \<le> el" using out(2) by simp
  have "sent \<le> k * per_round rate"
    using length_filter_le [of "sr_ok r" "[0..<k * per_round rate]"]
    by (simp add: out(1) k(2) send_n_spec)
  moreover have "100 * per_round rate \<le> nat rate"
    using assms(3) by (simp add: per_round_def)
  ultimately have "100 * sent \<le> k * nat rate"
    using mult_le_mono2 [of "100 * per_round rate" "nat rate" k] by linarith
  then have "of_nat (100 * sent) \<le> (of_nat (k * nat rate) :: rat)" by (rule of_nat_mono)
  then have "of_nat sent \<le> of_nat k / 100 * (of_int rate :: rat)" using assms(3) by simp
  also have "\<dots> \<le> of_int rate * el" using el assms(3) by (simp add: mult.commute mult_left_mono)
  finally show "of_nat sent \<le> of_int rate * el" .
  show "0 \<le> el" using assms(2) out(2) by (simp add: paced_def)
qed

section \<open>Properties\<close>

text \<open>Also (figures_defined): The figures are printed exactly when the corpus has a line and some sender has reported a positive time; otherwise the division ends the program, although the line above guards the same divisor. What is printed is consistent: the rate times the time is the number of datagrams.\<close>

theorem figures_defined:
  assumes "\<And>r. r \<in> set results \<Longrightarrow> 0 \<le> snd (snd r)"
  shows "(load_figures corpus results \<noteq> None \<longleftrightarrow> corpus \<noteq> [] \<and> (\<exists>r \<in> set results. 0 < snd (snd r)))
    \<and> (\<forall>f. load_figures corpus results = Some f \<longrightarrow> lf_achieved f * lf_elapsed f = of_nat (lf_sent f)
        \<and> lf_sent f = sum_list (map fst results) \<and> lf_errors f = sum_list (map (fst \<circ> snd) results)
        \<and> (\<forall>r \<in> set results. snd (snd r) \<le> lf_elapsed f))"
proof -
  have "fold (\<lambda>r. max (snd (snd r))) results (0 :: rat) \<noteq> 0 \<longleftrightarrow> (\<exists>r \<in> set results. 0 < snd (snd r))"
    unfolding fold_max_zero by (auto simp: not_le)
  then show ?thesis
    using fold_max_bounds(2) [of _ results 0]
    by (auto simp: load_figures_def avg_len_def totals_sum Let_def split: if_splits)
qed

text \<open>Also (achieved_within_rate): With a rate of at least one line a second for each process, every round being paced to its hundredth of a second, the rate that the load generator reports is never above the rate that was asked for.\<close>

theorem achieved_within_rate:
  assumes "0 < procs" and "procs \<le> rate" and "int (length runs) \<le> procs"
    and "map (sender_report corpus (per_process_rate rate procs) duration) runs = map Some results"
    and "\<And>r. r \<in> set runs \<Longrightarrow> paced r" and "load_figures corpus results = Some f"
  shows "lf_achieved f \<le> of_int rate"
proof -
  let ?r = "per_process_rate rate procs" and ?t = "fold (\<lambda>r. max (snd (snd r))) results (0 :: rat)"
  have "procs * (rate div procs) \<le> rate"
    using mult_div_mod_eq [of procs rate] pos_mod_sign [OF assms(1), of rate] by linarith
  then have r: "0 < ?r" "procs * ?r \<le> rate"
    using assms(1,2) by (auto simp: per_process_rate_def pos_imp_zdiv_pos_iff)
  have len: "length runs = length results" using assms(4) by (metis length_map)
  have each: "of_nat (fst x) \<le> of_int ?r * ?t" "0 \<le> snd (snd x)" if x: "x \<in> set results" for x
  proof -
    obtain i where i: "i < length results" "x = results ! i" using x by (metis in_set_conv_nth)
    then have "sender_report corpus ?r duration (runs ! i) = Some (fst x, fst (snd x), snd (snd x))"
      using assms(4) len by (metis (no_types, lifting) nth_map prod.collapse)
    then have w: "of_nat (fst x) \<le> of_int ?r * snd (snd x)" "0 \<le> snd (snd x)"
      using report_within r(1) assms(5) i(1) len by (metis nth_mem)+
    have "of_int ?r * snd (snd x) \<le> of_int ?r * ?t"
      using fold_max_bounds(2) [OF x, of 0] r(1) by (intro mult_left_mono) auto
    then show "of_nat (fst x) \<le> of_int ?r * ?t" "0 \<le> snd (snd x)" using w by auto
  qed
  have "of_nat (sum_list (map fst xs)) \<le> of_nat (length xs) * (of_int ?r * ?t)" if "set xs \<subseteq> set results" for xs
    using that each(1) by (induction xs) (auto simp: algebra_simps intro: add_mono)
  then have "of_nat (sum_list (map fst results)) \<le> of_nat (length results) * (of_int ?r * ?t)" by blast
  also have "\<dots> \<le> of_int procs * (of_int ?r * ?t)"
  proof (rule mult_right_mono)
    have "of_int (int (length results)) \<le> (of_int procs :: rat)" using assms(3) len by (simp only: of_int_le_iff)
    then show "of_nat (length results) \<le> (of_int procs :: rat)" by simp
    show "0 \<le> of_int ?r * ?t" using r(1) fold_max_bounds(1) [of 0 results] by simp
  qed
  also have "\<dots> = of_int (procs * ?r) * ?t" by simp
  also have "\<dots> \<le> of_int rate * ?t"
    using r(2) fold_max_bounds(1) [of 0 results] by (intro mult_right_mono) (simp_all only: of_int_le_iff)
  finally have "of_nat (sum_list (map fst results)) \<le> of_int rate * ?t" .
  moreover have "0 < ?t" "lf_achieved f = of_nat (sum_list (map fst results)) / ?t"
    using assms(6) fold_max_bounds(1) [of 0 results]
    by (auto simp: load_figures_def avg_len_def totals_sum Let_def split: if_splits)
  ultimately show ?thesis by (simp add: pos_divide_le_eq)
qed

definition demo_run :: send_run where
  "demo_run = \<lparr>sr_ok = \<lambda>i. True, sr_start = 0, sr_nows = [0, 1 / 50], sr_finish = 1 / 50\<rparr>"

theorem figures_defined_witness:
  "load_figures [''a''] [] = None \<and> load_figures [''a''] [(3, 1, 2)] \<noteq> None"
  using figures_defined [of "[]" "[''a'']"] figures_defined [of "[(3, 1, 2)]" "[''a'']"] by simp

theorem achieved_within_rate_witness:
  "\<exists>f. load_figures [''ab''] [(2, 0, 1 / 50)] = Some f \<and> lf_achieved f \<le> 200"
proof -
  have run: "map (sender_report [''ab''] (per_process_rate 200 1) (1 / 50)) [demo_run] = map Some [(2, 0, 1 / 50)]"
    by (simp add: sender_report_def sender_def demo_run_def per_process_rate_def per_round_def eval_nat_numeral)
  have "paced demo_run" by (auto simp: paced_def demo_run_def less_Suc_eq)
  then have "\<And>r. r \<in> set [demo_run] \<Longrightarrow> paced r" by simp
  moreover obtain f where "load_figures [''ab''] [(2, 0, 1 / 50)] = Some f"
    by (auto simp: load_figures_def avg_len_def)
  ultimately show ?thesis using achieved_within_rate [of 1 200 "[demo_run]", OF _ _ _ run] by auto
qed

end
