(* ===== verification/Fleet.thy ===== *)
theory Fleet
  imports Receiver Worker
begin

text \<open>
  The running system: any number of receiver processes (\<open>services/receiver.py\<close>) and of workers
  (\<open>services/worker.py\<close>) over one Redis and one table, as a step relation. The receivers follow
  \<open>_serve\<close>: the start behind \<open>wait_for_redis\<close>, the allow list, the event loop, and the order of
  its shutdown. A run collects what came in, what was shed and counted, and what went with a
  process that ended; the invariant of the run says that nothing else is ever missing.
\<close>

section \<open>Receiver processes\<close>

text \<open>
  After the stop signal the flusher is cancelled and the UDP socket closed, then the direct call
  of \<open>_push\<close> is made and awaited, then the process ends. \<open>Under k\<close>: that push is the \<open>k\<close>th of the
  pushes under way.
\<close>

datatype drain = Before | Under nat | Done

datatype receiver =
    Off
  | Serving "pystr set" Ingest
  | Closing "pystr set" Ingest drain

datatype fevent =
    Pipe pevent
  | Open nat "nat \<Rightarrow> bool" net "pystr list result" net
  | Reload nat net "pystr list result" net
  | Net nat ievent
  | Shut nat
  | LastPush nat rat
  | Close nat
  | Crash nat

record ('r, 'c) fleet =
  pipe :: "('r, 'c) sys"
  recvs :: "nat \<Rightarrow> receiver"

text \<open>The event loop of a closing process has no flusher any more, but open TCP connections still deliver.\<close>

fun closing_event :: "ievent \<Rightarrow> bool" where
  "closing_event (Datagram payload ip time) = True"
| "closing_event (PushStart now) = True"
| "closing_event (PushEnd i net) = True"
| "closing_event ev = False"

text \<open>Where the last push stands after another event.\<close>

fun drain_after :: "ievent \<Rightarrow> drain \<Rightarrow> drain" where
  "drain_after (PushEnd i net) (Under k) = (if i = k then Done else if i < k then Under (k - 1) else Under k)"
| "drain_after ev d = d"

definition drain_begun :: "Ingest \<Rightarrow> Ingest \<Rightarrow> drain" where
  "drain_begun g g' = (if length (awaiting g) < length (awaiting g') then Under (length (awaiting g)) else Done)"

text \<open>The records a step of the event loop sheds; each of them goes into a drop counter.\<close>

fun shed :: "ievent \<Rightarrow> Ingest \<Rightarrow> pybytes list" where
  "shed (PushStart now) g = (if 0 < scheduled g \<and> now < paused_until g then buffer g else [])"
| "shed (Drain now) g = (if now < paused_until g then buffer g else [])"
| "shed (PushEnd i net) g = (if i < length (awaiting g) \<and> net \<noteq> Reply then fst (awaiting g ! i) else [])"
| "shed ev g = []"

text \<open>The records a process holds in its memory.\<close>

fun hand :: "receiver \<Rightarrow> pybytes list" where
  "hand Off = []"
| "hand (Serving ips g) = in_hand g"
| "hand (Closing ips g d) = in_hand g"

section \<open>The step relation\<close>

record fleet_cfg =
  fc_ucd :: ucd
  fc_pack :: "mval \<Rightarrow> pybytes"
  fc_ingest :: ingest_cfg

abbreviation fleet_redis :: "('r, 'c) fleet \<Rightarrow> 'r" where
  "fleet_redis st \<equiv> sys_redis (pipe st)"

definition put_recv :: "nat \<Rightarrow> receiver \<Rightarrow> 'r \<Rightarrow> ('r, 'c) fleet \<Rightarrow> ('r, 'c) fleet" where
  "put_recv i p r st = st\<lparr>pipe := (pipe st)\<lparr>sys_redis := r\<rparr>, recvs := (recvs st)(i := p)\<rparr>"

text \<open>The start of a process: wait for Redis (30 attempts), read the allow list, begin with an empty buffer.\<close>

definition serve_start ::
    "('r, 'c) worker_env \<Rightarrow> (nat \<Rightarrow> bool) \<Rightarrow> net \<Rightarrow> pystr list result \<Rightarrow> net \<Rightarrow> 'r \<Rightarrow> (receiver \<times> 'r) option" where
  "serve_start E pings n1 meta n2 s =
     (if wait_for_redis pings 30 then
        (let (ips, r) = refresh (w_redis E) n1 (Some meta) n2 {} s
         in Some (Serving ips (new_ingest fresh_metrics), r))
      else None)"

definition loop_step ::
    "('r, 'c) worker_env \<Rightarrow> fleet_cfg \<Rightarrow> pystr set \<Rightarrow> ievent \<Rightarrow> Ingest \<times> 'r \<Rightarrow> Ingest \<times> 'r" where
  "loop_step E C ips ev x =
     ingest_step (fc_ucd C) (fc_pack C) (w_redis E) (w_queue E) (fc_ingest C) ips ev x"

definition came_in :: "fleet_cfg \<Rightarrow> pystr set \<Rightarrow> ievent \<Rightarrow> pybytes list" where
  "came_in C ips ev = arrival (fc_ucd C) (fc_pack C) (fc_ingest C) ips ev"

text \<open>
  A step takes the state before it to the records that came in, that were shed, that were lost
  with a process, and the state after it.
\<close>

inductive fleet_step ::
    "('r, 'c) worker_env \<Rightarrow> fleet_cfg \<Rightarrow> fevent \<Rightarrow> ('r, 'c) fleet
      \<Rightarrow> pybytes list \<Rightarrow> pybytes list \<Rightarrow> pybytes list \<Rightarrow> ('r, 'c) fleet \<Rightarrow> bool"
  for E :: "('r, 'c) worker_env" and C :: fleet_cfg where
  pipe_ev: "event_worker ev \<noteq> None \<Longrightarrow>
    fleet_step E C (Pipe ev) st [] [] [] (st\<lparr>pipe := pipe_step E ev (pipe st)\<rparr>)"
| open_ev: "recvs st i = Off \<Longrightarrow> serve_start E pings n1 meta n2 (fleet_redis st) = Some (p, r) \<Longrightarrow>
    fleet_step E C (Open i pings n1 meta n2) st [] [] [] (put_recv i p r st)"
| reload_serving: "recvs st i = Serving ips g \<Longrightarrow>
    refresh (w_redis E) n1 (Some meta) n2 ips (fleet_redis st) = (ips', r) \<Longrightarrow>
    fleet_step E C (Reload i n1 meta n2) st [] [] [] (put_recv i (Serving ips' g) r st)"
| reload_closing: "recvs st i = Closing ips g d \<Longrightarrow>
    refresh (w_redis E) n1 (Some meta) n2 ips (fleet_redis st) = (ips', r) \<Longrightarrow>
    fleet_step E C (Reload i n1 meta n2) st [] [] [] (put_recv i (Closing ips' g d) r st)"
| net_serving: "recvs st i = Serving ips g \<Longrightarrow> not_drain ev \<Longrightarrow>
    loop_step E C ips ev (g, fleet_redis st) = (g', r) \<Longrightarrow>
    fleet_step E C (Net i ev) st (came_in C ips ev) (shed ev g) [] (put_recv i (Serving ips g') r st)"
| net_closing: "recvs st i = Closing ips g d \<Longrightarrow> closing_event ev \<Longrightarrow>
    loop_step E C ips ev (g, fleet_redis st) = (g', r) \<Longrightarrow>
    fleet_step E C (Net i ev) st (came_in C ips ev) (shed ev g) []
      (put_recv i (Closing ips g' (drain_after ev d)) r st)"
| shut_ev: "recvs st i = Serving ips g \<Longrightarrow>
    fleet_step E C (Shut i) st [] [] [] (put_recv i (Closing ips g Before) (fleet_redis st) st)"
| last_push: "recvs st i = Closing ips g Before \<Longrightarrow>
    loop_step E C ips (Drain now) (g, fleet_redis st) = (g', r) \<Longrightarrow>
    fleet_step E C (LastPush i now) st [] (shed (Drain now) g) []
      (put_recv i (Closing ips g' (drain_begun g g')) r st)"
| close_ev: "recvs st i = Closing ips g Done \<Longrightarrow>
    fleet_step E C (Close i) st [] [] (in_hand g) (put_recv i Off (fleet_redis st) st)"
| crash_ev: "recvs st i \<noteq> Off \<Longrightarrow>
    fleet_step E C (Crash i) st [] [] (hand (recvs st i)) (put_recv i Off (fleet_redis st) st)"

inductive fleet_run ::
    "('r, 'c) worker_env \<Rightarrow> fleet_cfg \<Rightarrow> fevent list \<Rightarrow> ('r, 'c) fleet
      \<Rightarrow> pybytes list \<Rightarrow> pybytes list \<Rightarrow> pybytes list \<Rightarrow> ('r, 'c) fleet \<Rightarrow> bool"
  for E :: "('r, 'c) worker_env" and C :: fleet_cfg where
  run_none: "fleet_run E C [] st [] [] [] st"
| run_more: "fleet_run E C evs st ins drops lost st1 \<Longrightarrow> fleet_step E C ev st1 ins' drops' lost' st2 \<Longrightarrow>
    fleet_run E C (evs @ [ev]) st (ins @ ins') (drops @ drops') (lost @ lost') st2"

inductive_simps fleet_step_simps:
  "fleet_step E C (Shut i) st ins drops lost st'"
  "fleet_step E C (LastPush i now) st ins drops lost st'"
  "fleet_step E C (Close i) st ins drops lost st'"

lemma serve_start_Some:
  "serve_start E pings n1 meta n2 s = Some (p, r) \<Longrightarrow>
    \<exists>ips. p = Serving ips (new_ingest fresh_metrics) \<and> refresh (w_redis E) n1 (Some meta) n2 {} s = (ips, r)"
  by (auto simp: serve_start_def split: if_splits prod.splits)

lemma fleet_run_one: "fleet_step E C ev st ins drops lost st' \<Longrightarrow> fleet_run E C [ev] st ins drops lost st'"
  using run_more [OF run_none] by fastforce

lemma fleet_run_snoc:
  "fleet_run E C evs st ins drops lost st1 \<Longrightarrow> fleet_step E C ev st1 ins' drops' lost' st2 \<Longrightarrow>
    evs' = evs @ [ev] \<Longrightarrow> i' = ins @ ins' \<Longrightarrow> d' = drops @ drops' \<Longrightarrow> l' = lost @ lost' \<Longrightarrow>
    fleet_run E C evs' st i' d' l' st2"
  using run_more by fast

lemma fleet_run_append:
  assumes "fleet_run E C b st1 ins' drops' lost' st2" "fleet_run E C a st ins drops lost st1"
  shows "fleet_run E C (a @ b) st (ins @ ins') (drops @ drops') (lost @ lost') st2"
  using assms
proof (induction rule: fleet_run.induct)
  case (run_more evs st1 ins1 drops1 lost1 st2 ev ins2 drops2 lost2 st3)
  from fleet_run_snoc [OF run_more.IH [OF run_more.prems] run_more(2) refl refl refl refl]
  show ?case by simp
qed simp

section \<open>One step of an event loop\<close>

lemma mset_concat_remove_nth:
  assumes "i < length xs"
  shows "mset (concat (map f (take i xs @ drop (i + 1) xs))) + mset (f (xs ! i)) = mset (concat (map f xs))"
proof -
  have "xs = take i xs @ xs ! i # drop (i + 1) xs" using assms by (simp add: id_take_nth_drop)
  then have "mset (concat (map f xs)) = mset (concat (map f (take i xs @ xs ! i # drop (i + 1) xs)))"
    by metis
  then show ?thesis by simp
qed

text \<open>What a step keeps: its records are conserved, its counters right, other keys untouched.\<close>

definition conserves ::
    "('r \<Rightarrow> rkey \<Rightarrow> pybytes list) \<Rightarrow> rkey \<Rightarrow> pybytes list \<Rightarrow> pybytes list
      \<Rightarrow> Ingest \<times> 'r \<Rightarrow> Ingest \<times> 'r \<Rightarrow> bool" where
  "conserves V k ins drops x y \<longleftrightarrow>
     awaiting_ok (fst y)
     \<and> mset (in_hand (fst x)) + mset (V (snd x) k) + mset ins
         \<subseteq># mset (in_hand (fst y)) + mset (V (snd y) k) + mset drops
     \<and> dropped (fst y) = dropped (fst x) + int (length drops)
     \<and> (\<forall>k'. k' \<noteq> k \<longrightarrow> V (snd y) k' = V (snd x) k')"

lemma push_start_mset:
  "mset (in_hand (push_start now g)) + mset (if now < paused_until g then buffer g else []) = mset (in_hand g)"
  "dropped (push_start now g) = dropped g + int (length (if now < paused_until g then buffer g else []))"
  by (auto simp: push_start_def Let_def in_hand_def dropped_def counter_names)

context redis_lists
begin

lemma push_many_frame: "k \<noteq> queue_key q \<Longrightarrow> V (snd (push_many R q net xs s)) k = V s k"
  by (cases net; cases "xs = []") (auto simp: push_many_def rpush_law)

lemma push_end_frame: "k \<noteq> queue_key q \<Longrightarrow> V (snd (push_end R q net i g s)) k = V s k"
  using push_many_frame [of k q net "fst (awaiting g ! i)" s]
  by (auto simp: push_end_def Let_def split: prod.splits sum.splits)

lemma push_end_conserves:
  assumes "awaiting_ok g"
  shows "conserves V (queue_key q) [] (shed (PushEnd i net) g) (g, s) (push_end R q net i g s)"
proof (cases "i < length (awaiting g)")
  case True
  then have ne: "fst (awaiting g ! i) \<noteq> []" using assms by (simp add: awaiting_ok_def)
  note eff = push_end_effect [OF True ne]
  have "awaiting_ok (fst (push_end R q net i g s))"
    using assms by (auto simp: awaiting_ok_def eff dest: in_set_takeD in_set_dropD)
  moreover have "mset (concat (map fst (take i (awaiting g) @ drop (i + 1) (awaiting g))))
      + mset (fst (awaiting g ! i)) = mset (concat (map fst (awaiting g)))"
    using True by (rule mset_concat_remove_nth)
  then have "mset (in_hand g) = mset (in_hand (fst (push_end R q net i g s))) + mset (fst (awaiting g ! i))"
    by (simp add: in_hand_def eff ac_simps)
  ultimately show ?thesis
    using True push_end_frame by (cases net) (simp_all add: conserves_def eff dropped_def counter_names)
next
  case False
  then show ?thesis using assms by (simp add: conserves_def push_end_def)
qed

lemma step_conserves:
  assumes "awaiting_ok g"
  shows "conserves V (queue_key q) (arrival U pack cfg reg ev) (shed ev g) (g, s)
    (ingest_step U pack R q cfg reg ev (g, s))"
proof (cases ev)
  case (PushEnd i net)
  then show ?thesis using push_end_conserves [OF assms, of q i net s] by (simp add: arrival_def)
next
  case (PushStart now)
  then show ?thesis
    using assms push_start_effect(1) [of "g\<lparr>scheduled := scheduled g - 1\<rparr>" now]
      push_start_mset [of now "g\<lparr>scheduled := scheduled g - 1\<rparr>"]
    by (auto simp: conserves_def arrival_def in_hand_cong)
next
  case (Drain now)
  then show ?thesis
    using assms push_start_effect(1) [of g now] push_start_mset [of now g]
    by (auto simp: conserves_def arrival_def)
qed (use assms in \<open>auto simp: conserves_def arrival_def awaiting_ok_def in_hand_def dropped_def
      handle_effect handle_tally counter_names split: verdict.splits\<close>)

end

section \<open>What a run keeps\<close>

lemma goods_sum: "goods E ps = (\<Sum>p\<in>#mset ps. case good_row E p of None \<Rightarrow> {#} | Some r \<Rightarrow> {#r#})"
  by (induction ps) (auto split: option.splits)

lemma goods_mono: "mset a \<subseteq># mset b \<Longrightarrow> goods E a \<subseteq># goods E b"
  by (auto simp: goods_sum mset_subset_eq_exists_conv)

fun receiver_ok :: "receiver \<Rightarrow> bool" where
  "receiver_ok Off = True"
| "receiver_ok (Serving ips g) = (awaiting_ok g \<and> slot_ok g)"
| "receiver_ok (Closing ips g d) = (awaiting_ok g \<and> (\<forall>k. d = Under k \<longrightarrow> k < length (awaiting g)))"

definition receivers_ok :: "('r, 'c) fleet \<Rightarrow> bool" where
  "receivers_ok st \<longleftrightarrow> (\<forall>i. receiver_ok (recvs st i))"

text \<open>The events of a run over workers of \<open>W\<close> and receivers of \<open>I\<close>, without a lost claim reply.\<close>

fun fleet_event_ok :: "string set \<Rightarrow> nat set \<Rightarrow> fevent \<Rightarrow> bool" where
  "fleet_event_ok W I (Pipe ev) = (set_option (event_worker ev) \<subseteq> W \<and> event_ok ev)"
| "fleet_event_ok W I (Open i pings n1 meta n2) = (i \<in> I)"
| "fleet_event_ok W I (Reload i n1 meta n2) = (i \<in> I)"
| "fleet_event_ok W I (Net i ev) = (i \<in> I)"
| "fleet_event_ok W I (Shut i) = (i \<in> I)"
| "fleet_event_ok W I (LastPush i now) = (i \<in> I)"
| "fleet_event_ok W I (Close i) = (i \<in> I)"
| "fleet_event_ok W I (Crash i) = (i \<in> I)"

lemma put_recv_fields [simp]:
  "pipe (put_recv i p r st) = (pipe st)\<lparr>sys_redis := r\<rparr>" "recvs (put_recv i p r st) = (recvs st)(i := p)"
  by (simp_all add: put_recv_def)

locale fleet_world = pipeline E V T + redis_kinds "w_redis E" V
  for E :: "('r, 'c) worker_env" and V :: "'r \<Rightarrow> rkey \<Rightarrow> pybytes list" and T :: "'c \<Rightarrow> crow multiset" +
  assumes router_key: "queue_key (w_queue E) \<noteq> ROUTER_SET_KEY"
begin

lemma refresh_frame:
  "refresh (w_redis E) n1 meta n2 cur s = (ips, r) \<Longrightarrow> k \<noteq> ROUTER_SET_KEY \<Longrightarrow> V r k = V s k"
proof -
  have pub: "k \<noteq> ROUTER_SET_KEY \<Longrightarrow> V (publish (w_redis E) n2 l t) k = V t k" for l t
    by (cases n2; cases "l = []") (simp_all add: publish_def Let_def sadd_lists del_law)
  have "snd (remote RedisError n1 (\<lambda>s. (Inr (r_smembers (w_redis E) ROUTER_SET_KEY s), s)) s) = s"
    by (cases n1) simp_all
  then show "refresh (w_redis E) n1 meta n2 cur s = (ips, r) \<Longrightarrow> k \<noteq> ROUTER_SET_KEY \<Longrightarrow> V r k = V s k"
    by (auto simp: refresh_def pub split: prod.splits if_splits option.splits sum.splits)
qed

lemma inflight_not_router [simp]: "inflight_key w \<noteq> ROUTER_SET_KEY"
  by (simp add: inflight_key_def INFLIGHT_PREFIX_def ROUTER_SET_KEY_def)

text \<open>All that is in the queue, in claims, in the table and in the receivers' memory.\<close>

definition total :: "string set \<Rightarrow> nat set \<Rightarrow> ('r, 'c) fleet \<Rightarrow> crow multiset" where
  "total W I st = cover W (pipe st) + (\<Sum>i\<in>I. goods E (hand (recvs st i)))"

lemma put_recv_total:
  assumes "finite I" "i \<in> I"
    and "\<And>w. V r (inflight_key w) = held (pipe st) w"
    and "goods E ins + goods E (hand (recvs st i)) + goods E (waiting (pipe st))
      \<subseteq># goods E (hand p) + goods E (V r Q) + goods E out"
  shows "goods E ins + total W I st \<subseteq># total W I (put_recv i p r st) + goods E out"
proof -
  let ?rest = "(\<Sum>w\<in>W. own (pipe st) w) + T (sys_ch (pipe st)) + (\<Sum>j\<in>I - {i}. goods E (hand (recvs st j)))"
  have "(\<Sum>j\<in>I - {i}. goods E (hand (((recvs st)(i := p)) j))) = (\<Sum>j\<in>I - {i}. goods E (hand (recvs st j)))"
    by (intro sum.cong) auto
  then have after: "total W I (put_recv i p r st) = goods E (hand p) + goods E (V r Q) + ?rest"
    using sum.remove [OF assms(1,2), of "\<lambda>j. goods E (hand (((recvs st)(i := p)) j))"] assms(3)
    by (simp add: total_def cover_def ac_simps cong: if_cong)
  have before: "total W I st = goods E (hand (recvs st i)) + goods E (waiting (pipe st)) + ?rest"
    using sum.remove [OF assms(1,2), of "\<lambda>j. goods E (hand (recvs st j))"]
    by (simp add: total_def cover_def ac_simps)
  show ?thesis
    using subset_mset.add_right_mono [OF assms(4), of ?rest] by (simp add: after before ac_simps)
qed

lemma put_recv_all_ok:
  "all_ok (pipe st) \<Longrightarrow> (\<And>w. V r (inflight_key w) = held (pipe st) w) \<Longrightarrow> all_ok (pipe (put_recv i p r st))"
  by (simp add: all_ok_def)

lemma put_recv_receivers_ok: "receivers_ok st \<Longrightarrow> receiver_ok p \<Longrightarrow> receivers_ok (put_recv i p r st)"
  by (simp add: receivers_ok_def)

text \<open>A process that only changes its program counter, or refreshes its allow list.\<close>

lemma put_recv_same:
  assumes "finite I" "i \<in> I" "all_ok (pipe st)" "receivers_ok st"
    and "\<And>k. k \<noteq> ROUTER_SET_KEY \<Longrightarrow> V r k = V (fleet_redis st) k"
    and "hand (recvs st i) = hand p @ lost" "receiver_ok p"
  shows "all_ok (pipe (put_recv i p r st)) \<and> receivers_ok (put_recv i p r st)
    \<and> total W I st \<subseteq># total W I (put_recv i p r st) + goods E lost"
  using put_recv_total [OF assms(1,2), of r st "[]" p lost W] put_recv_all_ok [OF assms(3), of r i p]
    put_recv_receivers_ok [OF assms(4,7), of i r] assms(5,6) router_key
  by (simp add: ac_simps)

text \<open>A step of an event loop.\<close>

lemma put_recv_loop:
  assumes "finite I" "i \<in> I" "all_ok (pipe st)" "receivers_ok st"
    and "conserves V Q ins drops (g, fleet_redis st) (g', r)"
    and "hand (recvs st i) = in_hand g" "hand p = in_hand g'" "receiver_ok p"
  shows "all_ok (pipe (put_recv i p r st)) \<and> receivers_ok (put_recv i p r st)
    \<and> goods E ins + total W I st \<subseteq># total W I (put_recv i p r st) + goods E drops"
proof -
  have frame: "V r (inflight_key w) = held (pipe st) w" for w
    using assms(5) by (simp add: conserves_def)
  have "mset (ins @ in_hand g @ waiting (pipe st)) \<subseteq># mset (in_hand g' @ V r Q @ drops)"
    using assms(5) by (simp add: conserves_def ac_simps)
  from goods_mono [OF this, of E]
  have "goods E ins + goods E (hand (recvs st i)) + goods E (waiting (pipe st))
      \<subseteq># goods E (hand p) + goods E (V r Q) + goods E drops"
    by (simp add: assms(6,7) ac_simps)
  from put_recv_total [OF assms(1,2) frame this, of W] show ?thesis
    using put_recv_all_ok [OF assms(3) frame] put_recv_receivers_ok [OF assms(4,8)] by simp
qed

lemma loop_conserves:
  assumes "awaiting_ok g" "loop_step E C ips ev (g, s) = (g', r)"
  shows "conserves V Q (came_in C ips ev) (shed ev g) (g, s) (g', r)"
  using step_conserves [OF assms(1), of "w_queue E" "fc_ucd C" "fc_pack C" "fc_ingest C" ips ev s] assms(2)
  by (simp add: loop_step_def came_in_def)

end

context fleet_world
begin

lemma serving_loop_ok:
  assumes "awaiting_ok g" "slot_ok g" "not_drain ev" "loop_step E C ips ev (g, s) = (g', r)"
  shows "receiver_ok (Serving ips g')"
  using loop_conserves [OF assms(1,4)] step_order [OF assms(1-3) assms(4)[unfolded loop_step_def]]
  by (simp add: conserves_def)

lemma drain_after_bound:
  assumes "awaiting_ok g" "closing_event ev" "loop_step E C ips ev (g, s) = (g', r)"
    and "\<forall>k. d = Under k \<longrightarrow> k < length (awaiting g)" "drain_after ev d = Under k"
  shows "k < length (awaiting g')"
proof (cases ev)
  case (PushEnd i net)
  obtain k0 where d: "d = Under k0" using assms(5) PushEnd by (cases d) auto
  have g': "fst (push_end (w_redis E) (w_queue E) net i g s) = g'"
    using assms(3) PushEnd by (simp add: loop_step_def)
  show ?thesis
  proof (cases "i < length (awaiting g)")
    case True
    then have "fst (awaiting g ! i) \<noteq> []" using assms(1) by (simp add: awaiting_ok_def)
    from push_end_effect(3) [OF True this] show ?thesis
      using True assms(4,5) d PushEnd g' by (auto split: if_splits)
  next
    case False
    then show ?thesis using assms(4,5) d PushEnd g' by (auto simp: push_end_def split: if_splits)
  qed
qed (use assms in \<open>auto simp: loop_step_def handle_effect push_start_def Let_def split: if_splits\<close>)

lemma closing_loop_ok:
  assumes "receiver_ok (Closing ips g d)" "closing_event ev" "loop_step E C ips ev (g, s) = (g', r)"
  shows "receiver_ok (Closing ips g' (drain_after ev d))"
  using loop_conserves [of g C ips ev s g' r] drain_after_bound [of g ev C ips s g' r d] assms
  by (auto simp: conserves_def)

lemma open_ok: "receiver_ok (Serving ips (new_ingest m))" "in_hand (new_ingest m) = []"
  by (simp_all add: new_ingest_def awaiting_ok_def slot_ok_def in_hand_def)

definition fleet_ok :: "('r, 'c) fleet \<Rightarrow> bool" where
  "fleet_ok st \<longleftrightarrow> all_ok (pipe st) \<and> receivers_ok st"

lemma fleet_ok_at: "fleet_ok st \<Longrightarrow> receiver_ok (recvs st i)"
  by (simp add: fleet_ok_def receivers_ok_def)

lemma fleet_step_total:
  assumes "fleet_step E C ev st ins drops lost st'"
    and "finite W" "finite I" "fleet_event_ok W I ev" "fleet_ok st"
  shows "fleet_ok st' \<and> goods E ins + total W I st \<subseteq># total W I st' + (goods E drops + goods E lost)"
  using assms
proof (induction rule: fleet_step.induct)
  case (pipe_ev ev st)
  then have "all_ok (pipe_step E ev (pipe st)) \<and>
      goods E (produced ev) + cover W (pipe st) \<subseteq># cover W (pipe_step E ev (pipe st))"
    by (intro pipe_step_cover) (simp_all add: fleet_ok_def)
  moreover have "produced ev = []" using pipe_ev(1) by (cases ev) auto
  ultimately show ?case using pipe_ev(5) by (simp add: fleet_ok_def receivers_ok_def total_def)
next
  case (open_ev st i pings n1 meta n2 p r)
  obtain ips where p: "p = Serving ips (new_ingest fresh_metrics)"
    "refresh (w_redis E) n1 (Some meta) n2 {} (fleet_redis st) = (ips, r)"
    using serve_start_Some [OF open_ev(2)] by blast
  then show ?case
    using open_ev put_recv_same [of I i st r p "[]" W] refresh_frame [OF p(2)] open_ok
    by (simp add: fleet_ok_def)
next
  case (reload_serving st i ips g n1 meta n2 ips' r)
  then show ?case
    using put_recv_same [of I i st r "Serving ips' g" "[]" W] refresh_frame [OF reload_serving(2)]
      fleet_ok_at [of st i]
    by (simp add: fleet_ok_def)
next
  case (reload_closing st i ips g d n1 meta n2 ips' r)
  then show ?case
    using put_recv_same [of I i st r "Closing ips' g d" "[]" W] refresh_frame [OF reload_closing(2)]
      fleet_ok_at [of st i]
    by (simp add: fleet_ok_def)
next
  case (net_serving st i ips g ev g' r)
  then have g: "awaiting_ok g" "slot_ok g" using fleet_ok_at [of st i] by simp_all
  show ?case
    using net_serving put_recv_loop [of I i st "came_in C ips ev" "shed ev g" g g' r "Serving ips g'" W]
      loop_conserves [OF g(1) net_serving(3)] serving_loop_ok [OF g net_serving(2,3)]
    by (simp add: fleet_ok_def)
next
  case (net_closing st i ips g d ev g' r)
  then have ok: "receiver_ok (Closing ips g d)" using fleet_ok_at [of st i] by simp
  then have g: "awaiting_ok g" by simp
  show ?case
    using net_closing
      put_recv_loop [of I i st "came_in C ips ev" "shed ev g" g g' r "Closing ips g' (drain_after ev d)" W]
      loop_conserves [OF g net_closing(3)] closing_loop_ok [OF ok net_closing(2,3)]
    by (simp add: fleet_ok_def)
next
  case (shut_ev st i ips g)
  then show ?case
    using put_recv_same [of I i st "fleet_redis st" "Closing ips g Before" "[]" W] fleet_ok_at [of st i]
    by (simp add: fleet_ok_def)
next
  case (last_push st i ips g now g' r)
  then have g: "awaiting_ok g" using fleet_ok_at [of st i] by simp
  have "receiver_ok (Closing ips g' (drain_begun g g'))"
    using loop_conserves [OF g last_push(2)] by (simp add: conserves_def drain_begun_def)
  then show ?case
    using last_push loop_conserves [OF g last_push(2)]
      put_recv_loop [of I i st "[]" "shed (Drain now) g" g g' r "Closing ips g' (drain_begun g g')" W]
    by (simp add: fleet_ok_def came_in_def arrival_def)
next
  case (close_ev st i ips g)
  then show ?case
    using put_recv_same [of I i st "fleet_redis st" Off "in_hand g" W] by (simp add: fleet_ok_def)
next
  case (crash_ev st i)
  then show ?case
    using put_recv_same [of I i st "fleet_redis st" Off "hand (recvs st i)" W] by (simp add: fleet_ok_def)
qed

lemma fleet_run_total:
  assumes "fleet_run E C evs st ins drops lost st'"
    and "finite W" "finite I" "\<forall>ev \<in> set evs. fleet_event_ok W I ev" "fleet_ok st"
  shows "fleet_ok st' \<and> goods E ins + total W I st \<subseteq># total W I st' + (goods E drops + goods E lost)"
  using assms
proof (induction rule: fleet_run.induct)
  case (run_more evs st ins drops lost st1 ev ins' drops' lost' st2)
  have r: "fleet_ok st1" "goods E ins + total W I st \<subseteq># total W I st1 + (goods E drops + goods E lost)"
    using run_more.IH run_more.prems by auto
  have s: "fleet_ok st2" "goods E ins' + total W I st1 \<subseteq># total W I st2 + (goods E drops' + goods E lost')"
    using fleet_step_total [OF run_more(2) run_more.prems(1,2) _ r(1)] run_more.prems(3) by auto
  have "goods E ins' + (goods E ins + total W I st)
      \<subseteq># (goods E ins' + total W I st1) + (goods E drops + goods E lost)"
    using r(2) by (simp add: ac_simps)
  also have "\<dots> \<subseteq># (total W I st2 + (goods E drops' + goods E lost')) + (goods E drops + goods E lost)"
    using s(2) by (rule subset_mset.add_right_mono)
  finally show ?case using s(1) by (simp add: ac_simps)
qed simp

end

section \<open>The shutdown of a receiver\<close>

text \<open>The events of one receiver's shutdown on a quiet network, next to anything workers do.\<close>

fun quiet_event :: "nat \<Rightarrow> fevent \<Rightarrow> bool" where
  "quiet_event i (Pipe ev) = True"
| "quiet_event i (Shut j) = (j = i)"
| "quiet_event i (LastPush j now) = (j = i)"
| "quiet_event i (Close j) = (j = i)"
| "quiet_event i (Reload j n1 meta n2) = (j = i)"
| "quiet_event i (Net j (PushEnd k net)) = (j = i)"
| "quiet_event i (Net j (PushStart now)) = (j = i)"
| "quiet_event i ev = False"

text \<open>No push under way, and after the last one nothing in memory.\<close>

fun quiet :: "receiver \<Rightarrow> bool" where
  "quiet Off = True"
| "quiet (Serving ips g) = (scheduled g = 0 \<and> awaiting g = [])"
| "quiet (Closing ips g Before) = (scheduled g = 0 \<and> awaiting g = [])"
| "quiet (Closing ips g (Under k)) = (scheduled g = 0 \<and> k = 0 \<and> (\<exists>p. awaiting g = [p]) \<and> buffer g = [])"
| "quiet (Closing ips g Done) = (scheduled g = 0 \<and> in_hand g = [])"

lemma idle_quiet: "receiver_ok (Serving ips g) \<Longrightarrow> \<not> pushing g \<Longrightarrow> quiet (Serving ips g)"
  by (auto simp: slot_ok_def)

lemma push_start_idle:
  "scheduled g = 0 \<Longrightarrow> awaiting g = [] \<Longrightarrow> quiet (Closing ips (push_start now g) (drain_begun g (push_start now g)))"
  by (auto simp: push_start_def drain_begun_def in_hand_def Let_def count_up_def)

lemma push_end_fields:
  "scheduled (fst (push_end R q net i g s)) = scheduled g" "buffer (fst (push_end R q net i g s)) = buffer g"
  "awaiting (fst (push_end R q net i g s)) = (if i < length (awaiting g) then take i (awaiting g) @ drop (i + 1) (awaiting g) else awaiting g)"
  by (auto simp: push_end_def Let_def split: prod.splits sum.splits)

lemma quiet_push_end:
  assumes "quiet (Closing ips g d)" "push_end R q net k g s = (g', r)"
  shows "quiet (Closing ips g' (drain_after (PushEnd k net) d))"
proof -
  have g': "g' = fst (push_end R q net k g s)" using assms(2) by simp
  show ?thesis
    using assms(1) unfolding g' by (cases d) (auto simp: push_end_fields in_hand_def dest: in_set_takeD in_set_dropD)
qed

lemma quiet_step:
  assumes "fleet_step E C ev st ins drops lost st'" "quiet_event i ev" "quiet (recvs st i)"
  shows "quiet (recvs st' i) \<and> lost = []"
  using assms
proof (induction rule: fleet_step.induct)
  case (net_serving st j ips g ev g' r)
  then show ?case
    by (cases ev) (auto simp: loop_step_def push_end_def split: if_splits)
next
  case (net_closing st j ips g d ev g' r)
  then have j: "j = i" by (cases ev) auto
  show ?case
  proof (cases ev)
    case (PushEnd k net)
    then show ?thesis using net_closing j quiet_push_end [of ips g d] by (simp add: loop_step_def)
  next
    case (PushStart now)
    then show ?thesis using net_closing j by (cases d) (auto simp: loop_step_def)
  qed (use net_closing in simp_all)
next
  case (last_push st j ips g now g' r)
  then show ?case using push_start_idle [of g ips now] by (auto simp: loop_step_def)
next
  case (close_ev st j ips g)
  then show ?case by simp
next
  case (reload_closing st j ips g d n1 meta n2 ips' r)
  then show ?case by (cases d) auto
qed auto

lemma quiet_run:
  assumes "fleet_run E C evs st ins drops lost st'" "\<forall>ev \<in> set evs. quiet_event i ev" "quiet (recvs st i)"
  shows "quiet (recvs st' i) \<and> lost = []"
  using assms
proof (induction rule: fleet_run.induct)
  case (run_more evs st ins drops lost st1 ev ins' drops' lost' st2)
  then show ?case using quiet_step [OF run_more(2), of i] by simp
qed simp

section \<open>The contract of the properties\<close>

lemma fleet_worldI:
  assumes "redis_kinds (w_redis E) V" "1000 \<le> w_lim E" "plain_queue (w_queue E)"
    and "queue_key (w_queue E) \<noteq> ROUTER_SET_KEY" "row_store (w_insert E) T" "0 < w_batch E"
  shows "fleet_world E V T"
  using assms pipelineI [OF redis_kinds.axioms(1) [OF assms(1)] assms(2,3,5,6)]
  by (simp add: fleet_world_def fleet_world_axioms_def)

lemma idle_fleet_ok:
  assumes "fleet_world E V T" "\<forall>w. procs (pipe st) w = Down" "\<forall>i. recvs st i = Off"
  shows "fleet_world.fleet_ok E V st"
  using assms(2,3) all_down_ok [OF fleet_world.axioms(1) [OF assms(1)]]
  by (simp add: fleet_world.fleet_ok_def [OF assms(1)] receivers_ok_def)

lemma default_not_router [simp]: "queue_key default_queue \<noteq> ROUTER_SET_KEY"
  by (simp add: queue_key_default ROUTER_SET_KEY_def)

interpretation demo_fleet: fleet_world demo_env ref_list mset
  by (rule fleet_worldI) (simp_all add: ref_kinds.redis_kinds_axioms demo_table.row_store_axioms)

section \<open>What a shed record leaves\<close>

fun loop_of :: "receiver \<Rightarrow> Ingest option" where
  "loop_of Off = None"
| "loop_of (Serving ips g) = Some g"
| "loop_of (Closing ips g d) = Some g"

lemma step_counts:
  assumes "fleet_step E C ev st ins drops lost st'" "redis_lists (w_redis E) V" "receivers_ok st"
    and "drops \<noteq> []"
  shows "\<exists>i g g'. loop_of (recvs st i) = Some g \<and> loop_of (recvs st' i) = Some g'
    \<and> dropped g' = dropped g + int (length drops)"
proof -
  have loop: "dropped g' = dropped g + int (length (shed iev g))"
    if "awaiting_ok g" "loop_step E C ips iev (g, s) = (g', r)" for g iev ips s g' r
    using redis_lists.step_conserves [OF assms(2) that(1), of "w_queue E" "fc_ucd C" "fc_pack C" "fc_ingest C" ips iev s]
      that(2) by (simp add: loop_step_def conserves_def)
  have ok: "receiver_ok (recvs st i)" for i using assms(3) by (simp add: receivers_ok_def)
  show ?thesis
    using assms(1,4) ok
  proof (induction rule: fleet_step.induct)
    case (net_serving st i ips g ev g' r)
    then show ?case using loop [OF _ net_serving(3)] net_serving.prems(2) [of i] by (intro exI [of _ i]) simp
  next
    case (net_closing st i ips g d ev g' r)
    then show ?case using loop [OF _ net_closing(3)] net_closing.prems(2) [of i] by (intro exI [of _ i]) simp
  next
    case (last_push st i ips g now g' r)
    then show ?case using loop [OF _ last_push(2)] last_push.prems(2) [of i] by (intro exI [of _ i]) simp
  qed simp_all
qed

section \<open>A day of a small fleet\<close>

text \<open>One line of a router, and a codec and table to take it.\<close>

definition demo_line :: pybytes where
  "demo_line = ''NAT (10.0.0.1:5->1.2.3.4:6)->8.8.8.8:53''"

definition demo_parsed :: ParsedLog where
  "demo_parsed = \<lparr>private_ip = lit ''10.0.0.1'', private_port = 5, public_ip = lit ''1.2.3.4'',
     public_port = 6, dest_ip = lit ''8.8.8.8'', dest_port = 53, protocol = [], subscriber_id = []\<rparr>"

lemma demo_line_parses: "parse_bytes ascii_only default_parser demo_line = (Some demo_parsed, OK)"
  by code_simp

definition unary_env :: "(ref_store, crow list) worker_env" where
  "unary_env = demo_env\<lparr>w_unpack := unary_unpack\<rparr>"

lemma unary_env_fields [simp]:
  "w_redis unary_env = ref_redis" "w_queue unary_env = default_queue" "w_lim unary_env = 7900"
  "w_insert unary_env = table_insert" "w_batch unary_env = 1"
  by (simp_all add: unary_env_def)

lemma unary_contract:
  "redis_kinds (w_redis unary_env) ref_list" "1000 \<le> w_lim unary_env" "plain_queue (w_queue unary_env)"
  "queue_key (w_queue unary_env) \<noteq> ROUTER_SET_KEY" "row_store (w_insert unary_env) mset" "0 < w_batch unary_env"
  by (simp_all add: ref_kinds.redis_kinds_axioms demo_table.row_store_axioms)

text \<open>A fleet at rest, and a run in which a receiver starts and takes a record in.\<close>

definition demo_fleet_cfg :: fleet_cfg where
  "demo_fleet_cfg = \<lparr>fc_ucd = ascii_only, fc_pack = unary_pack, fc_ingest = demo_cfg\<rparr>"

definition demo_rest :: "(ref_store, crow list) fleet" where
  "demo_rest = \<lparr>pipe = demo_sys Down [], recvs = (\<lambda>_. Off)\<rparr>"

definition demo_open :: fevent where
  "demo_open = Open 0 (\<lambda>_. True) Refused (Inr [lit ''192.0.2.1'']) Refused"

definition demo_net :: fevent where
  "demo_net = Net 0 (Datagram demo_line (lit ''192.0.2.1'') 1756500000)"

definition demo_payload :: pybytes where
  "demo_payload = encode unary_pack (as_row demo_parsed 1756500000 (lit ''192.0.2.1''))"

definition demo_loop :: Ingest where
  "demo_loop = handle ascii_only unary_pack demo_cfg {lit ''192.0.2.1''} 1756500000 demo_line
     (lit ''192.0.2.1'') (new_ingest fresh_metrics)"

definition demo_up :: "(ref_store, crow list) fleet" where
  "demo_up = put_recv 0 (Serving {lit ''192.0.2.1''} demo_loop) (fleet_redis demo_rest) demo_rest"

lemma demo_loop_fields: "buffer demo_loop = [demo_payload]" "awaiting demo_loop = []" "\<not> pushing demo_loop"
  by (simp_all add: demo_loop_def handle_def Let_def parse_bytes_def demo_cfg_def demo_payload_def
      new_ingest_def demo_line_parses [unfolded parse_bytes_def])

lemma demo_payload_good:
  "good_row unary_env demo_payload = Some (1756500000, tl (as_row demo_parsed 1756500000 (lit ''192.0.2.1'')))"
  by (simp add: good_row_def demo_payload_def encode_def decode_def unary_env_def unary_codec
      as_row_def fromtimestamp_def demo_env_def)

lemma demo_up_run: "fleet_run unary_env demo_fleet_cfg [demo_open, demo_net] demo_rest [demo_payload] [] [] demo_up"
proof -
  let ?R = "Serving {lit ''192.0.2.1''} (new_ingest fresh_metrics)"
  let ?st = "put_recv 0 ?R (fleet_redis demo_rest) demo_rest"
  have "fleet_step unary_env demo_fleet_cfg demo_open demo_rest [] [] [] ?st"
    unfolding demo_open_def
    by (rule open_ev) (simp_all add: serve_start_def demo_rest_def wait_for_redis_def eval_nat_numeral refresh_def publish_def)
  from fleet_run_one [OF this]
  have "fleet_run unary_env demo_fleet_cfg [demo_open] demo_rest [] [] [] ?st" .
  moreover have "loop_step unary_env demo_fleet_cfg {lit ''192.0.2.1''}
      (Datagram demo_line (lit ''192.0.2.1'') 1756500000) (new_ingest fresh_metrics, fleet_redis ?st)
      = (demo_loop, fleet_redis demo_rest)"
    by (simp add: loop_step_def demo_loop_def demo_fleet_cfg_def)
  then have "fleet_step unary_env demo_fleet_cfg demo_net ?st [demo_payload] [] [] demo_up"
    using net_serving [of ?st 0 "{lit ''192.0.2.1''}" "new_ingest fresh_metrics"
        "Datagram demo_line (lit ''192.0.2.1'') 1756500000" unary_env demo_fleet_cfg demo_loop "fleet_redis demo_rest"]
    by (simp add: demo_net_def demo_up_def put_recv_def came_in_def arrival_def judge_def accepted_def
        demo_fleet_cfg_def demo_cfg_def demo_line_parses demo_payload_def)
  ultimately show ?thesis by (rule fleet_run_snoc) simp_all
qed

lemma demo_rest_idle: "\<forall>w. procs (pipe demo_rest) w = Down" "\<forall>i. recvs demo_rest i = Off"
  by (simp_all add: demo_rest_def)

lemma demo_events_in:
  "\<forall>ev \<in> set [demo_open, demo_net]. fleet_event_ok {''w1''} {0} ev"
  by (simp add: demo_open_def demo_net_def)

text \<open>From there the receiver is stopped and makes its last push.\<close>

definition demo_pushing :: Ingest where
  "demo_pushing = push_start 1 demo_loop"

definition demo_under :: "(ref_store, crow list) fleet" where
  "demo_under = put_recv 0 (Closing {lit ''192.0.2.1''} demo_pushing (Under 0)) (fleet_redis demo_rest) demo_up"

lemma demo_pushing_fields: "awaiting demo_pushing = [([demo_payload], 1)]" "buffer demo_pushing = []"
proof -
  have "paused_until demo_loop = 0" by (simp add: demo_loop_def handle_effect new_ingest_def)
  then show "awaiting demo_pushing = [([demo_payload], 1)]" "buffer demo_pushing = []"
    using demo_loop_fields by (simp_all add: demo_pushing_def push_start_def)
qed

lemma demo_under_run: "fleet_run unary_env demo_fleet_cfg [Shut 0, LastPush 0 1] demo_up [] [] [] demo_under"
proof -
  let ?ips = "{lit ''192.0.2.1''}"
  let ?a = "put_recv 0 (Closing ?ips demo_loop Before) (fleet_redis demo_up) demo_up"
  have a: "fleet_step unary_env demo_fleet_cfg (Shut 0) demo_up [] [] [] ?a"
    by (simp add: fleet_step_simps demo_up_def)
  have "paused_until demo_loop = 0" by (simp add: demo_loop_def handle_effect new_ingest_def)
  then have "fleet_step unary_env demo_fleet_cfg (LastPush 0 1) ?a [] [] [] demo_under"
    using last_push [of ?a 0 ?ips demo_loop unary_env demo_fleet_cfg 1 demo_pushing "fleet_redis demo_rest"]
      demo_loop_fields demo_pushing_fields
    by (simp add: loop_step_def drain_begun_def demo_up_def demo_pushing_def demo_under_def put_recv_def)
  from fleet_run_snoc [OF fleet_run_one [OF a] this] show ?thesis by simp
qed

lemma demo_close_run:
  "\<exists>st' r. fleet_run unary_env demo_fleet_cfg [Shut 0, LastPush 0 1, Net 0 (PushEnd 0 Reply), Close 0]
      demo_up [] [] [] st' \<and> pipe st' = (demo_sys Down [])\<lparr>sys_redis := r\<rparr>
    \<and> ref_list r = (\<lambda>_. [])(''nls:queue'' := [demo_payload])"
proof -
  note g1 = demo_pushing_fields
  obtain g2 r where g2: "push_end ref_redis default_queue Reply 0 demo_pushing (fleet_redis demo_rest) = (g2, r)"
    by force
  have fin: "in_hand g2 = []"
    using push_end_fields(2,3) [of ref_redis default_queue Reply 0 demo_pushing "fleet_redis demo_rest"] g1 g2
    by (simp add: in_hand_def)
  have empty: "ref_list (fleet_redis demo_rest) k = []" for k
    by (simp add: demo_rest_def demo_sys_def put_list_def ref_list_def dict_get_set empty_store_def)
  have "ref_list r ''nls:queue'' = [demo_payload]"
    using redis_lists.push_end_effect(1) [OF ref_lists, of 0 demo_pushing default_queue Reply "fleet_redis demo_rest"]
      g1 g2 empty
    by (simp add: queue_key_default)
  then have Vr: "ref_list r = (\<lambda>_. [])(''nls:queue'' := [demo_payload])"
    using redis_lists.push_end_frame [OF ref_lists, of _ default_queue Reply 0 demo_pushing "fleet_redis demo_rest"]
      g2 empty
    by (auto simp: queue_key_default fun_eq_iff)
  let ?ips = "{lit ''192.0.2.1''}"
  let ?c = "put_recv 0 (Closing ?ips g2 Done) r demo_under"
  let ?d = "put_recv 0 Off (fleet_redis ?c) ?c"
  have c: "fleet_step unary_env demo_fleet_cfg (Net 0 (PushEnd 0 Reply)) demo_under [] [] [] ?c"
    using net_closing [of demo_under 0 ?ips demo_pushing "Under 0" "PushEnd 0 Reply" unary_env demo_fleet_cfg g2 r] g2
    by (simp add: loop_step_def came_in_def arrival_def demo_under_def)
  have d: "fleet_step unary_env demo_fleet_cfg (Close 0) ?c [] [] [] ?d"
    using close_ev [of ?c 0 ?ips g2 unary_env demo_fleet_cfg] fin by simp
  have "fleet_run unary_env demo_fleet_cfg [Shut 0, LastPush 0 1, Net 0 (PushEnd 0 Reply), Close 0]
      demo_up [] [] [] ?d"
    using fleet_run_snoc [OF fleet_run_snoc [OF demo_under_run c refl refl refl refl] d refl refl refl refl] by simp
  then show ?thesis
    using Vr by (intro exI [of _ ?d] exI [of _ r]) (simp add: demo_under_def demo_up_def demo_rest_def)
qed

lemma demo_under_history:
  "fleet_run unary_env demo_fleet_cfg [demo_open, demo_net, Shut 0, LastPush 0 1] demo_rest [demo_payload] [] [] demo_under"
  using fleet_run_append [OF demo_under_run demo_up_run] by simp

section \<open>Properties\<close>

text \<open>C2 (fleet_accounts): No record vanishes between the routers and the table: for any number of receivers and workers over one Redis, any interleaving of their steps, starts, shutdowns and crashes, the recovery of claims, refreshes of the allow list and failing calls on either side of their effect, every storable record that was queued, claimed or stored or that a receiver took in is at the end queued, claimed, stored, in the memory of a receiver, shed, or lost with a process that ended. The one assumption is that no reply of a claim is lost.\<close>

theorem fleet_accounts:
  assumes "redis_kinds (w_redis E) V" and "1000 \<le> w_lim E" and "plain_queue (w_queue E)"
    and "queue_key (w_queue E) \<noteq> ROUTER_SET_KEY" and "row_store (w_insert E) T" and "0 < w_batch E"
    and "finite W" and "finite I" and "\<forall>ev \<in> set evs. fleet_event_ok W I ev"
    and "\<forall>w. procs (pipe st) w = Down" and "\<forall>i. recvs st i = Off"
    and "fleet_run E C evs st ins drops lost st'"
  shows "goods E (V (fleet_redis st) (queue_key (w_queue E)))
      + (\<Sum>w\<in>W. goods E (V (fleet_redis st) (inflight_key w))) + T (sys_ch (pipe st)) + goods E ins
    \<subseteq># goods E (V (fleet_redis st') (queue_key (w_queue E)))
      + (\<Sum>w\<in>W. goods E (V (fleet_redis st') (inflight_key w))) + T (sys_ch (pipe st'))
      + (\<Sum>i\<in>I. goods E (hand (recvs st' i))) + goods E drops + goods E lost"
proof -
  have F: "fleet_world E V T" using assms(1-6) by (rule fleet_worldI)
  note P = fleet_world.axioms(1) [OF F]
  note run = fleet_world.fleet_run_total [OF F assms(12,7-9) idle_fleet_ok [OF F assms(10,11)]]
  have before: "fleet_world.total E V T W I st
      = goods E (V (fleet_redis st) (queue_key (w_queue E)))
      + (\<Sum>w\<in>W. goods E (V (fleet_redis st) (inflight_key w))) + T (sys_ch (pipe st))"
    using assms(10,11) by (simp add: fleet_world.total_def [OF F] pipeline.cover_def [OF P] ac_simps)
  have after: "fleet_world.total E V T W I st' \<subseteq>#
      goods E (V (fleet_redis st') (queue_key (w_queue E)))
      + (\<Sum>w\<in>W. goods E (V (fleet_redis st') (inflight_key w))) + T (sys_ch (pipe st'))
      + (\<Sum>i\<in>I. goods E (hand (recvs st' i)))"
    using pipeline.cover_claims [OF P assms(7), of "pipe st'"] by (simp add: fleet_world.total_def [OF F])
  show ?thesis
    using subset_mset.order_trans [OF conjunct2 [OF run] subset_mset.add_right_mono [OF after]]
    by (simp add: before ac_simps)
qed

theorem fleet_accounts_witness:
  "{#(1756500000, tl (as_row demo_parsed 1756500000 (lit ''192.0.2.1'')))#}
    \<subseteq># goods unary_env (ref_list (fleet_redis demo_up) ''nls:queue'')
      + goods unary_env (ref_list (fleet_redis demo_up) (inflight_key ''w1'')) + mset (sys_ch (pipe demo_up))
      + goods unary_env (hand (recvs demo_up 0))"
  using fleet_accounts [of unary_env ref_list mset "{''w1''}" "{0}" "[demo_open, demo_net]" demo_rest
      demo_fleet_cfg "[demo_payload]" "[]" "[]" demo_up, OF _ _ _ _ _ _ _ _ demo_events_in demo_rest_idle demo_up_run]
    ref_kinds.redis_kinds_axioms demo_table.row_store_axioms default_not_router demo_payload_good
  by (simp add: queue_key_default) (simp add: demo_rest_def)

text \<open>Also (sheds_counted): Nothing is lost silently while a receiver runs: a step that sheds records adds their number to the drop counters of the receiver that sheds them, and records are lost uncounted only when a process ends.\<close>

theorem sheds_counted:
  assumes "redis_kinds (w_redis E) V" and "1000 \<le> w_lim E" and "plain_queue (w_queue E)"
    and "queue_key (w_queue E) \<noteq> ROUTER_SET_KEY" and "row_store (w_insert E) T" and "0 < w_batch E"
    and "finite W" and "finite I" and "\<forall>ev \<in> set evs. fleet_event_ok W I ev"
    and "\<forall>w. procs (pipe st) w = Down" and "\<forall>i. recvs st i = Off"
    and "fleet_run E C evs st ins drops lost st1"
    and "fleet_step E C ev st1 ins' drops' lost' st2"
  shows "(drops' \<noteq> [] \<longrightarrow> (\<exists>i g g'. loop_of (recvs st1 i) = Some g \<and> loop_of (recvs st2 i) = Some g'
        \<and> dropped g' = dropped g + int (length drops')))
    \<and> (lost' \<noteq> [] \<longrightarrow> (\<exists>i. ev = Close i \<or> ev = Crash i))"
proof -
  have F: "fleet_world E V T" using assms(1-6) by (rule fleet_worldI)
  have "receivers_ok st1"
    using fleet_world.fleet_run_total [OF F assms(12,7-9) idle_fleet_ok [OF F assms(10,11)]]
    by (simp add: fleet_world.fleet_ok_def [OF F])
  moreover have "lost' \<noteq> [] \<longrightarrow> (\<exists>i. ev = Close i \<or> ev = Crash i)"
    using assms(13) by (induction rule: fleet_step.induct) auto
  ultimately show ?thesis
    using step_counts [OF assms(13) redis_kinds.axioms(1) [OF assms(1)]] by blast
qed

theorem sheds_counted_witness:
  "\<exists>st2 g'. fleet_step unary_env demo_fleet_cfg (Net 0 (PushEnd 0 Refused)) demo_under [] [demo_payload] [] st2
    \<and> loop_of (recvs st2 0) = Some g' \<and> dropped g' = dropped demo_pushing + 1"
proof -
  obtain g2 r where g2: "push_end ref_redis default_queue Refused 0 demo_pushing (fleet_redis demo_rest) = (g2, r)"
    by force
  let ?c = "put_recv 0 (Closing {lit ''192.0.2.1''} g2 Done) r demo_under"
  have step: "fleet_step unary_env demo_fleet_cfg (Net 0 (PushEnd 0 Refused)) demo_under [] [demo_payload] [] ?c"
    using net_closing [of demo_under 0 "{lit ''192.0.2.1''}" demo_pushing "Under 0" "PushEnd 0 Refused"
        unary_env demo_fleet_cfg g2 r] g2 demo_pushing_fields
    by (simp add: loop_step_def came_in_def arrival_def demo_under_def)
  have fin: "finite {''w1''}" "finite {0::nat}" by simp_all
  have evs: "\<forall>ev \<in> set [demo_open, demo_net, Shut 0, LastPush 0 1]. fleet_event_ok {''w1''} {0} ev"
    by (simp add: demo_open_def demo_net_def)
  from sheds_counted [OF unary_contract fin evs demo_rest_idle demo_under_history step]
  obtain i g g' where "loop_of (recvs demo_under i) = Some g" "loop_of (recvs ?c i) = Some g'"
    "dropped g' = dropped g + 1"
    by auto
  moreover from this(1) have "i = 0" "g = demo_pushing"
    by (auto simp: demo_under_def demo_up_def demo_rest_def split: if_splits)
  ultimately show ?thesis using step by blast
qed

text \<open>C29 (quiet_shutdown): A receiver without a push under way shuts down without loss: on a quiet network, whatever the workers do meanwhile and whatever Redis answers to the last push, no record is lost with the process, and when the last push has ended its memory is empty.\<close>

theorem quiet_shutdown:
  assumes "redis_kinds (w_redis E) V" and "1000 \<le> w_lim E" and "plain_queue (w_queue E)"
    and "queue_key (w_queue E) \<noteq> ROUTER_SET_KEY" and "row_store (w_insert E) T" and "0 < w_batch E"
    and "finite W" and "finite I" and "\<forall>ev \<in> set evs. fleet_event_ok W I ev"
    and "\<forall>w. procs (pipe st) w = Down" and "\<forall>i. recvs st i = Off"
    and "fleet_run E C evs st ins drops lost st1"
    and "recvs st1 i = Serving ips g" and "\<not> pushing g"
    and "fleet_run E C evs' st1 ins' drops' lost' st2" and "\<forall>ev \<in> set evs'. quiet_event i ev"
  shows "lost' = [] \<and> (\<forall>ips' g'. recvs st2 i = Closing ips' g' Done \<longrightarrow> in_hand g' = [])"
proof -
  have F: "fleet_world E V T" using assms(1-6) by (rule fleet_worldI)
  have "fleet_world.fleet_ok E V st1"
    using fleet_world.fleet_run_total [OF F assms(12,7-9) idle_fleet_ok [OF F assms(10,11)]] by blast
  then have "receiver_ok (Serving ips g)"
    using fleet_world.fleet_ok_at [OF F, of st1 i] assms(13) by simp
  then have "quiet (recvs st1 i)" using idle_quiet assms(13,14) by metis
  then show ?thesis using quiet_run [OF assms(15,16)] by auto
qed

theorem quiet_shutdown_witness:
  "\<exists>st'. fleet_run unary_env demo_fleet_cfg [Shut 0, LastPush 0 1, Net 0 (PushEnd 0 Reply), Close 0]
      demo_up [] [] [] st' \<and> ref_list (fleet_redis st') ''nls:queue'' = [demo_payload]
    \<and> (\<forall>lost ins drops st2. fleet_run unary_env demo_fleet_cfg [Shut 0, LastPush 0 2, Net 0 (PushEnd 0 Refused), Close 0]
      demo_up ins drops lost st2 \<longrightarrow> lost = [])"
proof -
  obtain st' where st': "fleet_run unary_env demo_fleet_cfg [Shut 0, LastPush 0 1, Net 0 (PushEnd 0 Reply), Close 0]
      demo_up [] [] [] st'" "ref_list (fleet_redis st') ''nls:queue'' = [demo_payload]"
    using demo_close_run by fastforce
  have up: "recvs demo_up 0 = Serving {lit ''192.0.2.1''} demo_loop" by (simp add: demo_up_def)
  have "lost = []" if "fleet_run unary_env demo_fleet_cfg
      [Shut 0, LastPush 0 2, Net 0 (PushEnd 0 Refused), Close 0] demo_up ins drops lost st2" for lost ins drops st2
    using quiet_shutdown [of unary_env ref_list mset "{''w1''}" "{0}" "[demo_open, demo_net]" demo_rest
        demo_fleet_cfg "[demo_payload]" "[]" "[]" demo_up 0,
        OF unary_contract _ _ demo_events_in demo_rest_idle demo_up_run up demo_loop_fields(3) that]
    by simp
  then show ?thesis using st' by blast
qed

text \<open>Also (busy_shutdown_loses): A receiver that is stopped while a push is under way loses that batch: the shutdown makes its own push and ends without awaiting the other one, the batch reaches neither Redis nor a drop counter.\<close>

theorem busy_shutdown_loses:
  assumes "recvs st i = Serving ips g" and "awaiting g = [(batch, t)]" and "buffer g = []"
  shows "\<exists>st'. fleet_run E C [Shut i, LastPush i now, Close i] st [] [] batch st'
    \<and> fleet_redis st' = fleet_redis st \<and> recvs st' i = Off"
proof -
  let ?g = "g\<lparr>pushing := False\<rparr>"
  let ?a = "put_recv i (Closing ips g Before) (fleet_redis st) st"
  let ?b = "put_recv i (Closing ips ?g Done) (fleet_redis ?a) ?a"
  let ?c = "put_recv i Off (fleet_redis ?b) ?b"
  have "push_start now g = ?g" using assms(3) by (simp add: push_start_def)
  then have "loop_step E C ips (Drain now) (g, fleet_redis ?a) = (?g, fleet_redis ?a)"
    by (simp add: loop_step_def)
  from last_push [of ?a i ips g E C now ?g "fleet_redis ?a", OF _ this]
  have b: "fleet_step E C (LastPush i now) ?a [] [] [] ?b"
    using assms(3) by (simp add: drain_begun_def cong: if_cong)
  have c: "fleet_step E C (Close i) ?b [] [] batch ?c"
    using close_ev [of ?b i ips ?g E C] assms(2,3) by (simp add: in_hand_def)
  have "fleet_run E C [Shut i, LastPush i now, Close i] st [] [] batch ?c"
    using fleet_run_snoc [OF fleet_run_snoc [OF fleet_run_one [OF shut_ev [OF assms(1)]] b refl refl refl refl]
        c refl refl refl refl] by simp
  then show ?thesis by (intro exI [of _ ?c]) simp
qed

definition demo_busy :: "(ref_store, crow list) fleet" where
  "demo_busy = put_recv 0 (Serving {} ((new_ingest fresh_metrics)\<lparr>awaiting := [([''r1''], 0)], pushing := True\<rparr>))
     (fleet_redis demo_rest) demo_rest"

theorem busy_shutdown_loses_witness:
  "\<exists>st'. fleet_run unary_env demo_fleet_cfg [Shut 0, LastPush 0 1, Close 0] demo_busy [] [] [''r1''] st'
    \<and> recvs st' 0 = Off"
  using busy_shutdown_loses [of demo_busy 0 "{}" "(new_ingest fresh_metrics)\<lparr>awaiting := [([''r1''], 0)], pushing := True\<rparr>"
      "[''r1'']" 0 unary_env demo_fleet_cfg 1]
  by (auto simp: demo_busy_def new_ingest_def)

end
