(* ===== verification/Fleet_Origin.thy ===== *)
theory Fleet_Origin
  imports Fleet
begin

text \<open>
  Where the rows of the table come from: whatever the receivers, the workers and the recovery
  do over one Redis, in any order and with any failing or repeated call, a row is stored only
  if it was parsed from a datagram of a source on the allow list of the receiver that took it.
\<close>

section \<open>Where stored rows come from\<close>

definition rows_of :: "('r, 'c) worker_env \<Rightarrow> pybytes set \<Rightarrow> crow set" where
  "rows_of E P = {r. \<exists>p \<in> P. good_row E p = Some r}"

lemma set_good_rows: "set (good_rows E ps) = rows_of E (set ps)"
  by (induction ps) (auto simp: rows_of_def split: option.splits)

lemma rows_of_mono: "A \<subseteq> B \<Longrightarrow> rows_of E A \<subseteq> rows_of E B"
  by (auto simp: rows_of_def)

lemma set_goods_subset: "set ps \<subseteq> P \<Longrightarrow> set (good_rows E ps) \<subseteq> rows_of E P"
  by (simp add: set_good_rows rows_of_mono)

fun proc_rows :: "proc \<Rightarrow> crow list" where
  "proc_rows (Inserting claimed rows backoff attempt) = rows"
| "proc_rows p = []"

context pipeline
begin

text \<open>Everything waiting, claimed, about to be inserted or stored stems from \<open>P\<close> or was in the table.\<close>

definition stems :: "pybytes set \<Rightarrow> crow set \<Rightarrow> ('r, 'c) sys \<Rightarrow> bool" where
  "stems P T0 st \<longleftrightarrow>
     set (waiting st) \<subseteq> P \<and> (\<forall>w. set (held st w) \<subseteq> P)
     \<and> (\<forall>w. set (proc_rows (procs st w)) \<subseteq> rows_of E P) \<and> set_mset (T (sys_ch st)) \<subseteq> T0 \<union> rows_of E P"

lemma stems_proc: "stems P T0 st \<Longrightarrow> set (proc_rows p) \<subseteq> rows_of E P \<Longrightarrow> stems P T0 (set_proc w p st)"
  by (simp add: stems_def)

lemma stems_count: "stems P T0 (count_stat w n v st) = stems P T0 st"
  by (simp add: stems_def)

lemma stems_insert:
  "stems P T0 st \<Longrightarrow> set rows \<subseteq> rows_of E P \<Longrightarrow> stems P T0 (st\<lparr>sys_ch := w_insert E rows (sys_ch st)\<rparr>)"
  by (auto simp: stems_def insert_view)

text \<open>The queue's operations move records and make none.\<close>

lemma stems_release:
  "stems P T0 st \<Longrightarrow> release (w_redis E) (w_lim E) (w_queue E) net (inflight_key w) (sys_redis st) = (x, r) \<Longrightarrow>
    stems P T0 (st\<lparr>sys_redis := r\<rparr>)"
  using release_view [of net w "sys_redis st"] by (auto simp: stems_def)

lemma stems_ack:
  "stems P T0 st \<Longrightarrow> ack (w_redis E) net (inflight_key w) (sys_redis st) = (x, r) \<Longrightarrow>
    stems P T0 (st\<lparr>sys_redis := r\<rparr>)"
  using ack_view [of net w "sys_redis st"] by (auto simp: stems_def)

lemma stems_claim:
  "stems P T0 st \<Longrightarrow> claim (w_redis E) (w_lim E) (w_queue E) net (inflight_key w) (int (w_batch E)) (sys_redis st) = (x, r) \<Longrightarrow>
    stems P T0 (st\<lparr>sys_redis := r\<rparr>) \<and> (\<forall>claimed. x = Inr claimed \<longrightarrow> set claimed \<subseteq> P)"
  using claim_view [of net w "sys_redis st"] claim_fst [of net w "sys_redis st"]
  by (auto simp: stems_def split: if_splits dest!: in_set_takeD in_set_dropD)

lemma stems_do_claim:
  assumes "stems P T0 st"
  shows "stems P T0 (do_claim E w net st)"
proof (cases "stops st w")
  case True
  then show ?thesis using assms by (simp add: do_claim_def stems_proc)
next
  case False
  obtain x r where c: "claim (w_redis E) (w_lim E) (w_queue E) net (inflight_key w) (int (w_batch E)) (sys_redis st) = (x, r)"
    by force
  note s = stems_claim [OF assms c]
  show ?thesis
  proof (cases x)
    case (Inr claimed)
    have rows: "set rows \<subseteq> rows_of E P" if "decode_rows (w_unpack E) (w_ts_ok E) claimed [] 0 = Inr (rows, bad)" for rows bad
      using decode_rows_Inr [OF that] s Inr by (simp add: set_goods_subset)
    show ?thesis
      using s False c Inr rows
      by (auto simp: do_claim_def Let_def stems_count intro!: stems_proc split: sum.splits prod.splits)
  qed (use s False c in \<open>simp add: do_claim_def\<close>)
qed

lemma stems_insert_take:
  "stems P T0 st \<Longrightarrow> set rows \<subseteq> rows_of E P \<Longrightarrow>
    stems P T0 (st\<lparr>sys_ch := w_insert E (take k rows) (sys_ch st)\<rparr>)"
  by (rule stems_insert) (auto dest: in_set_takeD)

lemma stems_do_insert:
  assumes "stems P T0 st" "procs st w = Inserting claimed rows backoff attempt"
  shows "stems P T0 (do_insert E w out claimed rows backoff attempt st)"
proof -
  have "set (proc_rows (procs st w)) \<subseteq> rows_of E P" using assms(1) unfolding stems_def by blast
  then have rows: "set rows \<subseteq> rows_of E P" using assms(2) by simp
  note simps = stems_insert [OF assms(1) rows] stems_insert_take [OF assms(1) rows]
  show ?thesis
    using assms(1) rows simps
    by (cases out) (simp_all add: do_insert_def Let_def stems_count stems_proc)
qed

lemma stems_do_ack: "stems P T0 st \<Longrightarrow> stems P T0 (do_ack E w net rows st)"
  by (auto simp: do_ack_def Let_def stems_count intro!: stems_proc stems_ack split: prod.splits sum.splits)

lemma stems_release_to:
  assumes "stems P T0 st"
  shows "stems P T0 (do_boot E w net st)" "stems P T0 (do_return E w net st)" "stems P T0 (do_drain E w net st)"
  using stems_release [OF assms, of net w, OF surjective_pairing] stems_release [OF assms, of net w]
  by (auto simp: do_boot_def do_return_def do_drain_def intro!: stems_proc split: prod.splits sum.splits)

lemma stems_start: "stems P T0 st \<Longrightarrow> stems P T0 (do_start w pings st)"
  by (simp add: do_start_def stems_def)

lemma stems_worker_step: "stems P T0 st \<Longrightarrow> stems P T0 (worker_step E w ev st)"
proof (cases ev)
  case SetStop
  then show "stems P T0 st \<Longrightarrow> ?thesis" by (simp add: stems_def)
qed (simp_all add: stems_start stems_release_to stems_do_claim stems_do_ack stems_do_insert stems_proc
    split: proc.split)

lemma stems_pipe_step:
  assumes "stems P T0 st" "set (produced ev) \<subseteq> P"
  shows "stems P T0 (pipe_step E ev st)"
proof (cases ev)
  case (Produce net xs)
  then show ?thesis using assms push_view [of net xs "sys_redis st"] by (auto simp: stems_def)
next
  case (Recover w net)
  then show ?thesis
    using stems_release [OF assms(1), of net w] by (metis pipe_step.simps(3) prod.collapse)
qed (use assms in \<open>simp add: stems_worker_step\<close>)

lemma stems_mono: "stems P T0 st \<Longrightarrow> P \<subseteq> P' \<Longrightarrow> stems P' T0 st"
  using rows_of_mono [of P P' E] unfolding stems_def by blast

end

section \<open>The fleet invents nothing\<close>

lemma mset_subset_sets: "mset a + mset b + mset c \<subseteq># mset x + mset y + mset z \<Longrightarrow> set a \<subseteq> set x \<union> set y \<union> set z"
  by (metis set_mset_mono set_mset_mset set_mset_union le_sup_iff)

context redis_lists
begin

text \<open>An event loop moves records and makes only those that come in.\<close>

lemma push_end_moves:
  "set (V (snd (push_end R q net i g s)) (queue_key q)) \<subseteq> set (V s (queue_key q)) \<union> set (in_hand g)
    \<and> set (in_hand (fst (push_end R q net i g s))) \<subseteq> set (in_hand g)"
proof (cases "i < length (awaiting g)")
  case True
  then have mem: "set (fst (awaiting g ! i)) \<subseteq> set (in_hand g)" by (fastforce simp: in_hand_def dest: nth_mem)
  have "set (V (snd (push_many R q net b s)) (queue_key q)) \<subseteq> set (V s (queue_key q)) \<union> set b" for b
    by (cases net; cases "b = []") (auto simp: push_many_def rpush_law)
  from this [of "fst (awaiting g ! i)"] show ?thesis
    using mem by (auto simp: push_end_def Let_def in_hand_def split: prod.splits sum.splits dest!: in_set_takeD in_set_dropD)
qed (auto simp: push_end_def)

lemma step_moves:
  assumes "ingest_step U pack R q cfg reg ev (g, s) = (g', s')"
  shows "set (V s' (queue_key q)) \<union> set (in_hand g')
    \<subseteq> set (V s (queue_key q)) \<union> set (in_hand g) \<union> set (arrival U pack cfg reg ev)"
proof (cases ev)
  case (PushEnd i net)
  then show ?thesis using assms push_end_moves [of q net i g s] by auto
qed (use assms in \<open>auto simp: in_hand_def arrival_def handle_effect push_start_def Let_def split: if_splits\<close>)

end
context fleet_world
begin

definition fleet_stems :: "pybytes set \<Rightarrow> crow set \<Rightarrow> ('r, 'c) fleet \<Rightarrow> bool" where
  "fleet_stems P T0 st \<longleftrightarrow> stems P T0 (pipe st) \<and> (\<forall>i. set (hand (recvs st i)) \<subseteq> P)"

lemma fleet_stems_mono: "fleet_stems P T0 st \<Longrightarrow> P \<subseteq> P' \<Longrightarrow> fleet_stems P' T0 st"
  unfolding fleet_stems_def using stems_mono by blast

lemma put_recv_stems:
  assumes "fleet_stems P T0 st" "\<And>k. k \<noteq> Q \<Longrightarrow> k \<noteq> ROUTER_SET_KEY \<Longrightarrow> V r k = V (fleet_redis st) k"
    and "set (V r Q) \<subseteq> P" "set (hand p) \<subseteq> P"
  shows "fleet_stems P T0 (put_recv i p r st)"
  using assms by (auto simp: fleet_stems_def stems_def)

lemma put_recv_stems_same:
  assumes "fleet_stems P T0 st" "\<And>k. k \<noteq> ROUTER_SET_KEY \<Longrightarrow> V r k = V (fleet_redis st) k"
    and "set (hand p) \<subseteq> set (hand (recvs st i))"
  shows "fleet_stems P T0 (put_recv i p r st)"
proof -
  have "set (waiting (pipe st)) \<subseteq> P" "set (hand (recvs st i)) \<subseteq> P"
    using assms(1) by (simp_all add: fleet_stems_def stems_def)
  then show ?thesis
    using assms(2,3) router_key by (intro put_recv_stems [OF assms(1)]) auto
qed

lemma loop_frame: "loop_step E C ips ev (g, s) = (g', r) \<Longrightarrow> k \<noteq> Q \<Longrightarrow> V r k = V s k"
  using push_end_frame [of k "w_queue E" _ _ g s]
  by (cases ev) (auto simp: loop_step_def dest!: arg_cong [where f = snd])

lemma put_recv_stems_loop:
  assumes "fleet_stems P T0 st" "loop_step E C ips ev (g, fleet_redis st) = (g', r)"
    and "hand (recvs st i) = in_hand g" "hand p = in_hand g'"
  shows "fleet_stems (P \<union> set (came_in C ips ev)) T0 (put_recv i p r st)"
proof -
  have old: "set (waiting (pipe st)) \<subseteq> P" "set (in_hand g) \<subseteq> P"
    using assms(1) unfolding fleet_stems_def stems_def assms(3) [symmetric] by auto
  have "set (V r Q) \<union> set (in_hand g') \<subseteq> P \<union> set (came_in C ips ev)"
    using step_moves [OF assms(2) [unfolded loop_step_def]] old by (auto simp: came_in_def)
  then show ?thesis
    using loop_frame [OF assms(2)] assms(4)
    by (intro put_recv_stems fleet_stems_mono [OF assms(1)]) auto
qed

lemma fleet_step_stems:
  assumes "fleet_step E C ev st ins drops lost st'" "fleet_stems P T0 st"
  shows "fleet_stems (P \<union> set ins) T0 st'"
  using assms
proof (induction rule: fleet_step.induct)
  case (pipe_ev ev st)
  then have "produced ev = []" by (cases ev) auto
  then show ?case using pipe_ev stems_pipe_step [of P T0 "pipe st" ev] by (simp add: fleet_stems_def)
next
  case (last_push st i ips g now g' r)
  then show ?case
    using put_recv_stems_loop [OF last_push(3,2), of i] by (simp add: came_in_def arrival_def)
next
  case (net_serving st i ips g ev g' r)
  then show ?case using put_recv_stems_loop [OF net_serving(4,3), of i] by simp
next
  case (net_closing st i ips g d ev g' r)
  then show ?case using put_recv_stems_loop [OF net_closing(4,3), of i] by simp
next
  case (open_ev st i pings n1 meta n2 p r)
  obtain ips where p: "p = Serving ips (new_ingest fresh_metrics)"
    "refresh (w_redis E) n1 (Some meta) n2 {} (fleet_redis st) = (ips, r)"
    using serve_start_Some [OF open_ev(2)] by blast
  then show ?case
    using open_ev put_recv_stems_same [OF open_ev(3), of r p i] refresh_frame [OF p(2)] by (simp add: open_ok)
qed (auto intro!: put_recv_stems_same dest: refresh_frame)

lemma fleet_run_stems:
  "fleet_run E C evs st ins drops lost st' \<Longrightarrow> fleet_stems P T0 st \<Longrightarrow> fleet_stems (P \<union> set ins) T0 st'"
proof (induction rule: fleet_run.induct)
  case (run_more evs st ins drops lost st1 ev ins' drops' lost' st2)
  then show ?case using fleet_step_stems [OF run_more(2), of "P \<union> set ins" T0] by (simp add: Un_assoc)
qed simp

end

fun allow_list :: "receiver \<Rightarrow> pystr set" where
  "allow_list Off = {}"
| "allow_list (Serving ips g) = ips"
| "allow_list (Closing ips g d) = ips"

lemma came_in_step:
  assumes "fleet_step E C ev st ins drops lost st'" "p \<in> set ins"
  shows "\<exists>i payload ip time r why. ev = Net i (Datagram payload ip time) \<and> ip \<in> allow_list (recvs st i)
    \<and> parse_bytes (fc_ucd C) (parser_cfg (fc_ingest C)) payload = (Some r, why)
    \<and> p = encode (fc_pack C) (as_row r time ip)"
  using assms
  by (induction rule: fleet_step.induct)
     (auto simp: came_in_def arrival_def judge_def split: ievent.splits if_splits prod.splits option.splits)

lemma came_in_run:
  assumes "fleet_run E C evs st ins drops lost st'" "p \<in> set ins"
  shows "\<exists>before i payload ip time after ins1 drops1 lost1 st1 r why.
    evs = before @ Net i (Datagram payload ip time) # after
    \<and> fleet_run E C before st ins1 drops1 lost1 st1 \<and> ip \<in> allow_list (recvs st1 i)
    \<and> parse_bytes (fc_ucd C) (parser_cfg (fc_ingest C)) payload = (Some r, why)
    \<and> p = encode (fc_pack C) (as_row r time ip)"
  using assms
proof (induction rule: fleet_run.induct)
  case (run_more evs st ins drops lost st1 ev ins' drops' lost' st2)
  show ?case
  proof (cases "p \<in> set ins")
    case True
    from run_more.IH [OF this] show ?thesis by fastforce
  next
    case False
    then have "p \<in> set ins'" using run_more.prems by simp
    from came_in_step [OF run_more(2) this] show ?thesis using run_more(1) by blast
  qed
qed simp

lemma fleet_run_pipe:
  "\<forall>ev \<in> set evs. event_worker ev \<noteq> None \<Longrightarrow>
    fleet_run E C (map Pipe evs) st [] [] [] (st\<lparr>pipe := pipe_run E evs (pipe st)\<rparr>)"
proof (induction evs rule: rev_induct)
  case Nil
  then show ?case by (simp add: pipe_run_def run_none)
next
  case (snoc ev evs)
  then have "fleet_run E C (map Pipe evs) st [] [] [] (st\<lparr>pipe := pipe_run E evs (pipe st)\<rparr>)" by simp
  from fleet_run_snoc [OF this pipe_ev refl refl refl refl] snoc.prems
  show ?case by (fastforce simp: pipe_run_def)
qed

interpretation unary_pipe: pipeline unary_env ref_list mset
  by (rule pipelineI) (simp_all add: ref_lists demo_table.row_store_axioms)

lemma boot_up:
  fixes st :: "(ref_store, crow list) sys"
  assumes "procs st w = Down" "ref_list (sys_redis st) (inflight_key w) = []"
  shows "\<exists>st'. pipe_run unary_env [Work w (Start (\<lambda>_. True)), Work w (Boot Reply)] st = st'
    \<and> procs st' w = Looping \<and> \<not> stops st' w \<and> sys_ch st' = sys_ch st
    \<and> ref_list (sys_redis st') = ref_list (sys_redis st)"
proof -
  obtain r where r: "release ref_redis 7900 default_queue Reply (inflight_key w) (sys_redis st) = (Inr 0, r)"
    using redis_log_queue.release_reply(1) [OF unary_pipe.queue_ok, of "inflight_key w" "sys_redis st"] assms(2)
    by (cases "release ref_redis 7900 default_queue Reply (inflight_key w) (sys_redis st)") (simp add: queue_key_default)
  have "ref_list r = ref_list (sys_redis st)"
    using unary_pipe.release_view [of Reply w "sys_redis st"] r assms(2) by (simp add: fun_eq_iff)
  moreover have "wait_for_redis (\<lambda>_. True) 30" by (simp add: wait_for_redis_def eval_nat_numeral)
  ultimately show ?thesis
    using assms(1) r by (simp add: pipe_run_def do_start_def do_boot_def)
qed

lemma good_not_poison: "good_row E p = Some r \<Longrightarrow> \<not> poison E p"
  by (auto simp: poison_def good_row_def split: option.splits sum.splits)

text \<open>The record taken in, the receiver shut down, and a worker that stores the record.\<close>

definition demo_day :: "fevent list" where
  "demo_day = [demo_open, demo_net] @ [Shut 0, LastPush 0 1, Net 0 (PushEnd 0 Reply), Close 0]
     @ map Pipe ([Work ''w1'' (Start (\<lambda>_. True)), Work ''w1'' (Boot Reply)]
         @ [Work ''w1'' (DoClaim Reply), Work ''w1'' (DoInsert Inserted), Work ''w1'' (DoAck Reply)])"

lemma demo_day_run:
  "\<exists>st'. fleet_run unary_env demo_fleet_cfg demo_day demo_rest [demo_payload] [] [] st'
    \<and> mset (sys_ch (pipe st')) = {#(1756500000, tl (as_row demo_parsed 1756500000 (lit ''192.0.2.1'')))#}"
proof -
  let ?w = "''w1''"
  obtain st1 r1 where one: "fleet_run unary_env demo_fleet_cfg [Shut 0, LastPush 0 1, Net 0 (PushEnd 0 Reply), Close 0]
      demo_up [] [] [] st1" "pipe st1 = (demo_sys Down [])\<lparr>sys_redis := r1\<rparr>"
    "ref_list r1 = (\<lambda>_. [])(''nls:queue'' := [demo_payload])"
    using demo_close_run by blast
  have st1: "procs (pipe st1) ?w = Down" "sys_ch (pipe st1) = []" "ref_list (fleet_redis st1) (inflight_key ?w) = []"
    "ref_list (fleet_redis st1) (queue_key (w_queue unary_env)) = [demo_payload]"
    using one(3) by (simp_all add: one(2) queue_key_default)
  obtain p1 where p1: "pipe_run unary_env [Work ?w (Start (\<lambda>_. True)), Work ?w (Boot Reply)] (pipe st1) = p1"
    "procs p1 ?w = Looping" "\<not> stops p1 ?w" "sys_ch p1 = []" "ref_list (sys_redis p1) = ref_list (fleet_redis st1)"
    using boot_up [OF st1(1,3)] st1(2) by auto
  have clean: "\<forall>p \<in> set (unary_pipe.waiting p1). \<not> poison unary_env p"
    using st1(4) p1(5) good_not_poison [OF demo_payload_good] by simp
  have held: "unary_pipe.held p1 ?w = []" using p1(5) st1(3) by simp
  obtain p2 where p2: "pipe_run unary_env [Work ?w (DoClaim Reply), Work ?w (DoInsert Inserted), Work ?w (DoAck Reply)] p1 = p2"
    "mset (sys_ch p2) = goods unary_env [demo_payload]"
    using unary_pipe.round_effect [OF p1(2,3) held clean] p1(4,5) st1(4) by auto
  let ?evs = "[Work ?w (Start (\<lambda>_. True)), Work ?w (Boot Reply)]
      @ [Work ?w (DoClaim Reply), Work ?w (DoInsert Inserted), Work ?w (DoAck Reply)]"
  have "pipe_run unary_env ?evs (pipe st1) = p2"
    using p1(1) p2(1) by (simp only: unary_pipe.pipe_run_append)
  moreover have "\<forall>ev \<in> set ?evs. event_worker ev \<noteq> None" by simp
  ultimately have two: "fleet_run unary_env demo_fleet_cfg (map Pipe ?evs) st1 [] [] [] (st1\<lparr>pipe := p2\<rparr>)"
    using fleet_run_pipe [of ?evs unary_env demo_fleet_cfg st1] by (simp only:)
  from fleet_run_append [OF fleet_run_append [OF two one(1)] demo_up_run] p2(2)
  show ?thesis
    by (intro exI [of _ "st1\<lparr>pipe := p2\<rparr>"]) (simp add: demo_day_def demo_payload_good)
qed

section \<open>Properties\<close>

text \<open>C3 (fleet_invents_nothing): The table gains only authorised, parsed records: whatever receivers, workers and the recovery of claims do in any order, with any failing or lost call, each row of the table was there at the start or is the row of a datagram that parsed and whose source was on the allow list of the receiver that took it, at that moment.\<close>

theorem fleet_invents_nothing:
  assumes "redis_kinds (w_redis E) V" and "1000 \<le> w_lim E" and "plain_queue (w_queue E)"
    and "queue_key (w_queue E) \<noteq> ROUTER_SET_KEY" and "row_store (w_insert E) T" and "0 < w_batch E"
    and "\<forall>w. procs (pipe st) w = Down" and "\<forall>i. recvs st i = Off"
    and "V (fleet_redis st) (queue_key (w_queue E)) = []" and "\<forall>w. V (fleet_redis st) (inflight_key w) = []"
    and "fleet_run E C evs st ins drops lost st'"
    and "row \<in># T (sys_ch (pipe st'))"
  shows "row \<in># T (sys_ch (pipe st)) \<or>
    (\<exists>before i payload ip time after ins1 drops1 lost1 st1 r why.
      evs = before @ Net i (Datagram payload ip time) # after
      \<and> fleet_run E C before st ins1 drops1 lost1 st1 \<and> ip \<in> allow_list (recvs st1 i)
      \<and> parse_bytes (fc_ucd C) (parser_cfg (fc_ingest C)) payload = (Some r, why)
      \<and> good_row E (encode (fc_pack C) (as_row r time ip)) = Some row)"
proof -
  have F: "fleet_world E V T" using assms(1-6) by (rule fleet_worldI)
  note P = fleet_world.axioms(1) [OF F]
  have "fleet_world.fleet_stems E V T {} (set_mset (T (sys_ch (pipe st)))) st"
    using assms(7-10) by (simp add: fleet_world.fleet_stems_def [OF F] pipeline.stems_def [OF P])
  from fleet_world.fleet_run_stems [OF F assms(11) this] assms(12)
  have "row \<in># T (sys_ch (pipe st)) \<or> row \<in> rows_of E (set ins)"
    by (auto simp: fleet_world.fleet_stems_def [OF F] pipeline.stems_def [OF P])
  then show ?thesis
  proof
    assume "row \<in> rows_of E (set ins)"
    then obtain p where "p \<in> set ins" "good_row E p = Some row" by (auto simp: rows_of_def)
    then show ?thesis using came_in_run [OF assms(11), of p] by blast
  qed simp
qed

theorem fleet_invents_nothing_witness:
  "\<exists>i payload ip time r why. Net i (Datagram payload ip time) \<in> set demo_day
    \<and> parse_bytes ascii_only default_parser payload = (Some r, why)
    \<and> good_row unary_env (encode unary_pack (as_row r time ip))
      = Some (1756500000, tl (as_row demo_parsed 1756500000 (lit ''192.0.2.1'')))"
proof -
  let ?row = "(1756500000, tl (as_row demo_parsed 1756500000 (lit ''192.0.2.1'')))"
  obtain st' where run: "fleet_run unary_env demo_fleet_cfg demo_day demo_rest [demo_payload] [] [] st'"
    and row: "mset (sys_ch (pipe st')) = {#?row#}"
    using demo_day_run by blast
  from row have row: "?row \<in># mset (sys_ch (pipe st'))" by (simp only: union_single_eq_member)
  have idle: "ref_list (fleet_redis demo_rest) (queue_key (w_queue unary_env)) = []"
    "\<forall>w. ref_list (fleet_redis demo_rest) (inflight_key w) = []" "?row \<notin># mset (sys_ch (pipe demo_rest))"
    by (simp_all add: demo_rest_def queue_key_default)
  have cfg: "fc_ucd demo_fleet_cfg = ascii_only" "fc_pack demo_fleet_cfg = unary_pack"
    "parser_cfg (fc_ingest demo_fleet_cfg) = default_parser"
    by (simp_all add: demo_fleet_cfg_def demo_cfg_def)
  from fleet_invents_nothing [OF unary_contract demo_rest_idle idle(1,2) run row] idle(3)
  obtain before i payload ip time after r why
    where "demo_day = before @ Net i (Datagram payload ip time) # after"
      "parse_bytes ascii_only default_parser payload = (Some r, why)"
      "good_row unary_env (encode unary_pack (as_row r time ip)) = Some ?row"
    unfolding cfg by blast
  moreover from this(1) have "Net i (Datagram payload ip time) \<in> set demo_day"
    by (metis in_set_conv_decomp)
  ultimately show ?thesis by blast
qed

end
