(* ===== verification/Archive_Race.thy ===== *)
theory Archive_Race
  imports Maintenance Fleet_Origin
begin

text \<open>
  The monthly archive (\<open>services/maintenance.py\<close>) next to the running pipeline: the steps of
  \<open>archive_partition\<close> one by one, with the workers' inserts between them, over one table. The
  export reads the month as it is when its query starts; the drop removes the month as it is then. The model
  has one archiver at a time, and the pruning of old archives at the end of the run is left to \<open>Maintenance\<close>.
\<close>

section \<open>The table by months\<close>

text \<open>
  What ClickHouse is asked about one month: its rows (the export reads all columns, the count
  counts the same rows), and to drop it. A partition is listed when it has rows.
\<close>

record 'c month_db =
  db_select :: "string \<Rightarrow> 'c \<Rightarrow> crow list"
  db_drop :: "string \<Rightarrow> 'c \<Rightarrow> 'c"
  db_parts :: "'c \<Rightarrow> string list"

locale month_table = row_store ins T
  for ins :: "crow list \<Rightarrow> 'c \<Rightarrow> 'c" and T :: "'c \<Rightarrow> crow multiset" +
  fixes D :: "'c month_db" and month :: "int \<Rightarrow> string"
  assumes select_law: "mset (db_select D p c) = {#r \<in># T c. month (fst r) = p#}"
    and drop_law: "T (db_drop D p c) = {#r \<in># T c. month (fst r) \<noteq> p#}"
    and parts_law: "p \<in> set (db_parts D c) \<longleftrightarrow> (\<exists>r. r \<in># T c \<and> month (fst r) = p)"

section \<open>The steps of an archive\<close>

text \<open>Where the maintenance run is: the partition, its run id, the count, what the export has read.\<close>

datatype archiver =
    Resting
  | Asking string int
  | Reading string int nat
  | Streaming string int nat "crow list"
  | Placed string int

datatype plant_event =
    Flow pevent
  | Plan
  | Begin pystr
  | CountRows pystr
  | Snapshot
  | Place nat pystr
  | DropMonth net pystr
  | Broken pystr
  | Killed

record ('r, 'c) plant =
  flow :: "('r, 'c) sys"
  p_meta :: meta
  p_files :: "string \<Rightarrow> crow list option"
  p_arch :: archiver
  p_todo :: "string list"

text \<open>The \<open>except\<close> branch: the run is recorded as failed, a temporary file is removed.\<close>

definition give_up :: "pystr \<Rightarrow> int \<Rightarrow> ('r, 'c) plant \<Rightarrow> ('r, 'c) plant" where
  "give_up now rid st = st\<lparr>p_meta := finish_archive now rid ''failed'' 0 0 '''' [] (p_meta st), p_arch := Resting\<rparr>"

fun run_of :: "archiver \<Rightarrow> int option" where
  "run_of Resting = None"
| "run_of (Asking p rid) = Some rid"
| "run_of (Reading p rid n) = Some rid"
| "run_of (Streaming p rid n rows) = Some rid"
| "run_of (Placed p rid) = Some rid"

definition do_count :: "'c month_db \<Rightarrow> pystr \<Rightarrow> string \<Rightarrow> int \<Rightarrow> ('r, 'c) plant \<Rightarrow> ('r, 'c) plant" where
  "do_count D now p rid st =
     (let n = length (db_select D p (sys_ch (flow st)))
      in if n = 0 then
           st\<lparr>p_meta := finish_archive now rid ''skipped'' 0 0 '''' (lit ''Partition is empty'') (p_meta st),
              p_arch := Resting\<rparr>
         else st\<lparr>p_arch := Reading p rid n\<rparr>)"

text \<open>The finished export takes the place of an older one; then its size decides.\<close>

definition do_place ::
    "archive_cfg \<Rightarrow> nat \<Rightarrow> pystr \<Rightarrow> string \<Rightarrow> int \<Rightarrow> nat \<Rightarrow> crow list \<Rightarrow> ('r, 'c) plant \<Rightarrow> ('r, 'c) plant" where
  "do_place cfg bytes now p rid n rows st =
     (let st = st\<lparr>p_files := (p_files st)(p \<mapsto> rows)\<rparr>
      in if bytes < 64 then give_up now rid st
         else
           (let st = st\<lparr>p_meta := finish_archive now rid ''success'' (int n) (int bytes) (target_name cfg p) [] (p_meta st)\<rparr>
            in if c_drop_after cfg then st\<lparr>p_arch := Placed p rid\<rparr> else st\<lparr>p_arch := Resting\<rparr>))"

definition do_drop :: "'c month_db \<Rightarrow> net \<Rightarrow> pystr \<Rightarrow> string \<Rightarrow> int \<Rightarrow> ('r, 'c) plant \<Rightarrow> ('r, 'c) plant" where
  "do_drop D net now p rid st =
     (let st' = st\<lparr>flow := (flow st)\<lparr>sys_ch := db_drop D p (sys_ch (flow st))\<rparr>\<rparr>
      in case net of
           Reply \<Rightarrow> st'\<lparr>p_arch := Resting\<rparr>
         | Refused \<Rightarrow> give_up now rid st
         | ReplyLost \<Rightarrow> give_up now rid st')"

inductive plant_step ::
    "('r, 'c) worker_env \<Rightarrow> 'c month_db \<Rightarrow> archive_cfg \<Rightarrow> date \<Rightarrow> plant_event \<Rightarrow> ('r, 'c) plant \<Rightarrow> ('r, 'c) plant \<Rightarrow> bool"
  for E :: "('r, 'c) worker_env" and D :: "'c month_db" and cfg :: archive_cfg and today :: date where
  flow_ev: "plant_step E D cfg today (Flow ev) st (st\<lparr>flow := pipe_step E ev (flow st)\<rparr>)"
| plan_ev: "p_arch st = Resting \<Longrightarrow> p_todo st = [] \<Longrightarrow>
    plant_step E D cfg today Plan st
      (st\<lparr>p_todo := closed_partitions today (db_parts D (sys_ch (flow st))) (p_meta st)\<rparr>)"
| begin_ev: "p_arch st = Resting \<Longrightarrow> p_todo st = p # ps \<Longrightarrow> start_archive now p (p_meta st) = (rid, m) \<Longrightarrow>
    plant_step E D cfg today (Begin now) st (st\<lparr>p_meta := m, p_arch := Asking p rid, p_todo := ps\<rparr>)"
| count_ev: "p_arch st = Asking p rid \<Longrightarrow>
    plant_step E D cfg today (CountRows now) st (do_count D now p rid st)"
| snapshot_ev: "p_arch st = Reading p rid n \<Longrightarrow>
    plant_step E D cfg today Snapshot st (st\<lparr>p_arch := Streaming p rid n (db_select D p (sys_ch (flow st)))\<rparr>)"
| place_ev: "p_arch st = Streaming p rid n rows \<Longrightarrow>
    plant_step E D cfg today (Place bytes now) st (do_place cfg bytes now p rid n rows st)"
| drop_ev: "p_arch st = Placed p rid \<Longrightarrow>
    plant_step E D cfg today (DropMonth net now) st (do_drop D net now p rid st)"
| broken_ev: "run_of (p_arch st) = Some rid \<Longrightarrow>
    plant_step E D cfg today (Broken now) st (give_up now rid st)"
| killed_ev: "plant_step E D cfg today Killed st (st\<lparr>p_arch := Resting, p_todo := []\<rparr>)"

inductive plant_run ::
    "('r, 'c) worker_env \<Rightarrow> 'c month_db \<Rightarrow> archive_cfg \<Rightarrow> date \<Rightarrow> plant_event list \<Rightarrow> ('r, 'c) plant \<Rightarrow> ('r, 'c) plant \<Rightarrow> bool"
  for E :: "('r, 'c) worker_env" and D :: "'c month_db" and cfg :: archive_cfg and today :: date where
  plant_none: "plant_run E D cfg today [] st st"
| plant_more: "plant_step E D cfg today ev st st1 \<Longrightarrow> plant_run E D cfg today evs st1 st2 \<Longrightarrow>
    plant_run E D cfg today (ev # evs) st st2"

section \<open>What the pipeline does to the table\<close>

context pipeline
begin

lemma claim_table: "sys_ch (do_claim E w net st) = sys_ch st"
  by (auto simp: do_claim_def Let_def split: prod.splits sum.splits)

lemma ack_table: "sys_ch (do_ack E w net rows st) = sys_ch st"
  by (auto simp: do_ack_def Let_def split: prod.splits sum.splits)

lemma release_table:
  "sys_ch (do_boot E w net st) = sys_ch st" "sys_ch (do_return E w net st) = sys_ch st"
  "sys_ch (do_drain E w net st) = sys_ch st" "sys_ch (do_start w pings st) = sys_ch st"
  by (auto simp: do_boot_def do_return_def do_drain_def do_start_def split: prod.splits sum.splits)

lemmas table_simps = claim_table ack_table release_table

text \<open>The table only grows, and only by rows of the records on their way.\<close>

lemma insert_table:
  assumes "stems P T0 st" "procs st w = Inserting claimed rows backoff attempt"
  shows "\<exists>new. T (sys_ch (do_insert E w out claimed rows backoff attempt st)) = T (sys_ch st) + mset new
    \<and> set new \<subseteq> rows_of E P"
proof -
  have "set (proc_rows (procs st w)) \<subseteq> rows_of E P" using assms(1) unfolding stems_def by blast
  then have rows: "set rows \<subseteq> rows_of E P" using assms(2) by simp
  then have taken: "set (take k rows) \<subseteq> rows_of E P" for k using set_take_subset [of k rows] by blast
  show ?thesis
  proof (cases "stops st w")
    case True
    then show ?thesis by (intro exI [of _ "[]"]) (simp add: do_insert_def)
  next
    case False
    show ?thesis
    proof (cases out)
      case Inserted
      then show ?thesis using False rows by (intro exI [of _ rows]) (simp add: do_insert_def insert_view)
    next
      case (InsertFailed k close)
      then show ?thesis
        using False taken [of k]
        by (intro exI [of _ "take k rows"]) (simp add: do_insert_def insert_view Let_def)
    qed
  qed
qed

lemma pipe_step_table:
  assumes "stems P T0 st"
  shows "\<exists>new. T (sys_ch (pipe_step E ev st)) = T (sys_ch st) + mset new \<and> set new \<subseteq> rows_of E P"
proof (cases "\<exists>w out claimed rows backoff attempt. ev = Work w (DoInsert out)
    \<and> procs st w = Inserting claimed rows backoff attempt")
  case True
  then show ?thesis using insert_table [OF assms] by fastforce
next
  case False
  have "sys_ch (worker_step E w wev st) = sys_ch st" if "ev = Work w wev" for w wev
    using False that by (cases wev) (auto simp: table_simps split: proc.split)
  then have "sys_ch (pipe_step E ev st) = sys_ch st" by (cases ev) simp_all
  then show ?thesis by (intro exI [of _ "[]"]) simp
qed

end

section \<open>An archive without late rows\<close>

abbreviation current_month :: "date \<Rightarrow> string" where
  "current_month today \<equiv> month_text (d_year today) (d_month today)"

lemma closed_before: "p \<in> set (closed_partitions today parts m) \<Longrightarrow> p < current_month today"
  by (simp add: closed_partitions_def Let_def)

text \<open>What producers bring in.\<close>

fun flow_produced :: "plant_event \<Rightarrow> pybytes list" where
  "flow_produced (Flow ev) = produced ev"
| "flow_produced ev = []"

locale plant_world = pipeline E V T + month_table "w_insert E" T D month
  for E :: "('r, 'c) worker_env" and V :: "'r \<Rightarrow> rkey \<Rightarrow> pybytes list" and T :: "'c \<Rightarrow> crow multiset"
    and D :: "'c month_db" and month :: "int \<Rightarrow> string"
begin

definition part :: "string \<Rightarrow> crow multiset \<Rightarrow> crow multiset" where
  "part p M = {#r \<in># M. month (fst r) = p#}"

lemma part_select: "mset (db_select D p c) = part p (T c)"
  by (simp add: part_def select_law)

lemma part_drop: "part p (T (db_drop D q c)) = (if p = q then {#} else part p (T c))"
  by (auto simp: part_def drop_law filter_filter_mset intro: filter_mset_cong)

lemma part_add: "part p (A + B) = part p A + part p B"
  by (simp add: part_def)

lemma part_none: "\<forall>r \<in> A. month (fst r) \<noteq> p \<Longrightarrow> set xs \<subseteq> A \<Longrightarrow> part p (mset xs) = {#}"
  by (auto simp: part_def filter_mset_eq_conv)

abbreviation rows_now :: "('r, 'c) plant \<Rightarrow> crow multiset" where
  "rows_now st \<equiv> T (sys_ch (flow st))"

fun arch_ok :: "string \<Rightarrow> crow multiset \<Rightarrow> (string \<Rightarrow> crow list option) \<Rightarrow> crow multiset \<Rightarrow> archiver \<Rightarrow> bool" where
  "arch_ok cur M0 files M Resting = True"
| "arch_ok cur M0 files M (Asking p rid) = (p < cur)"
| "arch_ok cur M0 files M (Reading p rid n) = (p < cur \<and> part p M = part p M0 \<and> part p M0 \<noteq> {#})"
| "arch_ok cur M0 files M (Streaming p rid n rows) =
     (p < cur \<and> part p M = part p M0 \<and> part p M0 \<noteq> {#} \<and> mset rows = part p M0)"
| "arch_ok cur M0 files M (Placed p rid) =
     (p < cur \<and> part p M = part p M0 \<and> (\<exists>rows. files p = Some rows \<and> mset rows = part p M0))"

text \<open>A month is in the table as at first, or was dropped with its file holding just these rows.\<close>

definition month_ok ::
    "string \<Rightarrow> crow multiset \<Rightarrow> (string \<Rightarrow> crow list option) \<Rightarrow> (string \<Rightarrow> crow list option) \<Rightarrow> crow multiset \<Rightarrow> string \<Rightarrow> bool" where
  "month_ok cur M0 files0 files M p \<longleftrightarrow>
     (if p < cur then
        part p M = part p M0 \<or> part p M = {#} \<and> (\<exists>rows. files p = Some rows \<and> mset rows = part p M0)
      else part p M0 \<subseteq># part p M)
     \<and> (part p M0 = {#} \<longrightarrow> files p = files0 p)"

definition plant_ok :: "date \<Rightarrow> pybytes set \<Rightarrow> ('r, 'c) plant \<Rightarrow> ('r, 'c) plant \<Rightarrow> bool" where
  "plant_ok today P st0 st \<longleftrightarrow>
     stems P (set_mset (rows_now st0)) (flow st)
     \<and> (\<forall>p. month_ok (current_month today) (rows_now st0) (p_files st0) (p_files st) (rows_now st) p)
     \<and> arch_ok (current_month today) (rows_now st0) (p_files st) (rows_now st) (p_arch st)
     \<and> (\<forall>p \<in> set (p_todo st). p < current_month today)"

lemma arch_ok_same: "(\<And>p. p < cur \<Longrightarrow> part p M' = part p M) \<Longrightarrow> arch_ok cur M0 files M a \<Longrightarrow> arch_ok cur M0 files M' a"
  by (cases a) auto

lemma month_ok_grow:
  "(p < cur \<Longrightarrow> part p M' = part p M) \<Longrightarrow> part p M \<subseteq># part p M' \<Longrightarrow> month_ok cur M0 files0 files M p
    \<Longrightarrow> month_ok cur M0 files0 files M' p"
  by (auto simp: month_ok_def intro: subset_mset.order_trans)

lemma give_up_fields [simp]:
  "flow (give_up now rid st) = flow st" "p_files (give_up now rid st) = p_files st"
  "p_arch (give_up now rid st) = Resting" "p_todo (give_up now rid st) = p_todo st"
  by (simp_all add: give_up_def)

lemma stems_table:
  "stems P T0 st \<Longrightarrow> set_mset (T c) \<subseteq> set_mset (T (sys_ch st)) \<Longrightarrow> stems P T0 (st\<lparr>sys_ch := c\<rparr>)"
  by (auto simp: stems_def)

lemma plant_step_ok:
  assumes "plant_step E D cfg today ev st st'" "plant_ok today P st0 st"
    and "set (flow_produced ev) \<subseteq> P" "\<forall>r \<in> rows_of E P. \<not> month (fst r) < current_month today"
  shows "plant_ok today P st0 st'"
  using assms(1-3)
proof (induction rule: plant_step.induct)
  case (flow_ev ev st)
  let ?c = "current_month today"
  have st: "stems P (set_mset (rows_now st0)) (flow st)" using flow_ev by (simp add: plant_ok_def)
  obtain new where new: "T (sys_ch (pipe_step E ev (flow st))) = rows_now st + mset new" "set new \<subseteq> rows_of E P"
    using pipe_step_table [OF st] by blast
  have "part p (mset new) = {#}" if "p < ?c" for p
    using part_none [of "rows_of E P" p new] new(2) assms(4) that by blast
  then have same: "part p (T (sys_ch (pipe_step E ev (flow st)))) = part p (rows_now st)" if "p < ?c" for p
    using that by (simp add: new(1) part_add)
  have grow: "part p (rows_now st) \<subseteq># part p (T (sys_ch (pipe_step E ev (flow st))))" for p
    by (simp add: new(1) part_add)
  show ?case
    using flow_ev stems_pipe_step [OF st] month_ok_grow [OF same grow] arch_ok_same [OF same]
    by (simp add: plant_ok_def)
next
  case (plan_ev st)
  then show ?case using closed_before by (auto simp: plant_ok_def)
next
  case (begin_ev st p ps now rid m)
  then show ?case by (simp add: plant_ok_def)
next
  case (count_ev st p rid now)
  have "part p (rows_now st) = part p (rows_now st0) \<or> part p (rows_now st) = {#}"
    using count_ev unfolding plant_ok_def month_ok_def arch_ok.simps by (metis arch_ok.simps(2))
  then have "db_select D p (sys_ch (flow st)) \<noteq> [] \<Longrightarrow> part p (rows_now st) = part p (rows_now st0)"
    using part_select [of p "sys_ch (flow st)"] by auto
  note same = this
  show ?case
  proof (cases "db_select D p (sys_ch (flow st)) = []")
    case True
    then show ?thesis using count_ev by (simp add: plant_ok_def do_count_def)
  next
    case False
    then have "part p (rows_now st) \<noteq> {#}" using part_select [of p "sys_ch (flow st)"] by auto
    then show ?thesis
      using count_ev same [OF False] False by (simp add: plant_ok_def do_count_def)
  qed
next
  case (snapshot_ev st p rid n)
  then show ?case by (simp add: plant_ok_def part_select)
next
  case (place_ev st p rid n rows bytes now)
  then show ?case
    by (auto simp: plant_ok_def do_place_def Let_def month_ok_def)
next
  case (drop_ev st p rid net now)
  let ?M = "T (db_drop D p (sys_ch (flow st)))"
  have sub: "set_mset ?M \<subseteq> set_mset (rows_now st)" by (auto simp: drop_law)
  have st: "stems P (set_mset (rows_now st0)) (flow st)" using drop_ev by (simp add: plant_ok_def)
  have "month_ok (current_month today) (rows_now st0) (p_files st0) (p_files st) ?M q" for q
    using drop_ev by (cases "q = p") (auto simp: plant_ok_def month_ok_def part_drop)
  then show ?case
    using drop_ev stems_table [OF st sub] by (cases net) (auto simp: plant_ok_def do_drop_def Let_def)
next
  case (broken_ev st rid now)
  then show ?case by (simp add: plant_ok_def)
next
  case (killed_ev st)
  then show ?case by (simp add: plant_ok_def)
qed

lemma plant_run_ok:
  assumes "plant_run E D cfg today evs st st'" "plant_ok today P st0 st"
    and "\<forall>ev \<in> set evs. set (flow_produced ev) \<subseteq> P" "\<forall>r \<in> rows_of E P. \<not> month (fst r) < current_month today"
  shows "plant_ok today P st0 st'"
  using assms(1-3)
proof (induction rule: plant_run.induct)
  case (plant_more ev st st1 evs st2)
  then show ?case using plant_step_ok [OF plant_more(1) _ _ assms(4)] by simp
qed simp

end

section \<open>A small plant\<close>

definition list_months :: "(int \<Rightarrow> string) \<Rightarrow> crow list month_db" where
  "list_months month =
     \<lparr>db_select = (\<lambda>p c. filter (\<lambda>r. month (fst r) = p) c),
      db_drop = (\<lambda>p c. filter (\<lambda>r. month (fst r) \<noteq> p) c),
      db_parts = (\<lambda>c. remdups (map (month \<circ> fst) c))\<rparr>"

lemma list_month_table: "month_table table_insert mset (list_months month) month"
  by unfold_locales (force simp: table_insert_def list_months_def image_iff)+

lemma plant_worldI:
  assumes "redis_lists (w_redis E) V" "1000 \<le> w_lim E" "plain_queue (w_queue E)"
    and "month_table (w_insert E) T D month" "0 < w_batch E"
  shows "plant_world E V T D month"
  using assms pipelineI [OF assms(1-3) month_table.axioms(1) [OF assms(4)] assms(5)]
  by (simp add: plant_world_def)

definition demo_month :: "int \<Rightarrow> string" where
  "demo_month t = (if t < 100 then ''202501'' else ''202502'')"

interpretation demo_plant: plant_world demo_env ref_list mset "list_months demo_month" demo_month
  by (rule plant_worldI) (simp_all add: ref_lists list_month_table)

definition demo_today :: date where
  "demo_today = \<lparr>d_year = 2025, d_month = 2\<rparr>"

definition demo_plant_st :: "crow list \<Rightarrow> (ref_store, crow list) plant" where
  "demo_plant_st c = \<lparr>flow = (demo_sys Down [])\<lparr>sys_ch := c\<rparr>, p_meta = empty_meta, p_files = (\<lambda>_. None),
     p_arch = Resting, p_todo = []\<rparr>"

definition demo_drop_cfg :: archive_cfg where
  "demo_drop_cfg = \<lparr>c_table = ''nat_logs'', c_drop_after = True, c_retention_months = 12, c_archive_enabled = True\<rparr>"

definition old_rows :: "crow list" where
  "old_rows = [(5, []), (7, [])]"

text \<open>One month archived and dropped.\<close>

definition demo_archiving :: "plant_event list" where
  "demo_archiving = [Plan, Begin [], CountRows [], Snapshot, Place 4096 [], DropMonth Reply []]"

lemma demo_archive_run:
  "\<exists>st'. plant_run demo_env (list_months demo_month) demo_drop_cfg demo_today demo_archiving (demo_plant_st old_rows) st'
    \<and> sys_ch (flow st') = [] \<and> p_files st' ''202501'' = Some old_rows"
proof -
  let ?st = "demo_plant_st old_rows"
  have c: "closed_partitions demo_today (db_parts (list_months demo_month) (sys_ch (flow ?st))) (p_meta ?st) = [''202501'']"
    by code_simp
  obtain rid m where m: "start_archive [] ''202501'' (p_meta ?st) = (rid, m)" by force
  show ?thesis
    unfolding demo_archiving_def
    apply (rule exI, rule conjI)
     apply (rule plant_more, rule plan_ev, simp add: demo_plant_st_def, simp add: demo_plant_st_def)
     apply (rule plant_more, rule begin_ev, simp add: demo_plant_st_def, simp add: c, simp add: m)
     apply (rule plant_more, rule count_ev, simp)
     apply (rule plant_more, rule snapshot_ev)
      apply (simp add: do_count_def Let_def list_months_def demo_plant_st_def old_rows_def demo_month_def)
     apply (rule plant_more, rule place_ev, simp)
     apply (rule plant_more, rule drop_ev)
      apply (simp add: do_place_def demo_drop_cfg_def)
     apply (rule plant_none)
    apply (simp add: do_drop_def do_place_def do_count_def Let_def demo_drop_cfg_def list_months_def demo_plant_st_def
        old_rows_def demo_month_def)
    done
qed

section \<open>Properties\<close>

text \<open>C24 (archive_keeps_rows): An archive run loses nothing next to running workers, as long as no record of a closed month is still on its way: whatever fails, in whatever order its steps and those of the workers fall, the rows of each month are at the end still in the table, or the file of the month holds exactly these rows; and the file of a month without rows is never touched.\<close>

theorem archive_keeps_rows:
  assumes "redis_lists (w_redis E) V" and "1000 \<le> w_lim E" and "plain_queue (w_queue E)"
    and "month_table (w_insert E) T D month" and "0 < w_batch E"
    and "\<forall>w. procs (flow st) w = Down" and "p_arch st = Resting" and "p_todo st = []"
    and "P = set (V (sys_redis (flow st)) (queue_key (w_queue E)))
      \<union> (\<Union>w. set (V (sys_redis (flow st)) (inflight_key w))) \<union> set (concat (map flow_produced evs))"
    and "\<forall>b \<in> P. \<forall>r. good_row E b = Some r \<longrightarrow> \<not> month (fst r) < month_text (d_year today) (d_month today)"
    and "plant_run E D cfg today evs st st'"
  shows "({#r \<in># T (sys_ch (flow st)). month (fst r) = p#} \<subseteq># {#r \<in># T (sys_ch (flow st')). month (fst r) = p#}
      \<or> (\<exists>rows. p_files st' p = Some rows \<and> mset rows = {#r \<in># T (sys_ch (flow st)). month (fst r) = p#}))
    \<and> ({#r \<in># T (sys_ch (flow st)). month (fst r) = p#} = {#} \<longrightarrow> p_files st' p = p_files st p)"
proof -
  have W: "plant_world E V T D month" using assms(1-5) by (rule plant_worldI)
  note P = plant_world.axioms(1) [OF W]
  have rows: "\<forall>r \<in> rows_of E P. \<not> month (fst r) < current_month today"
    using assms(10) by (auto simp: rows_of_def)
  have "\<And>w. proc_rows (procs (flow st) w) = []" using assms(6) by simp
  then have "pipeline.stems E V T P (set_mset (T (sys_ch (flow st)))) (flow st)"
    using assms(9) by (auto simp: pipeline.stems_def [OF P])
  then have start: "plant_world.plant_ok E V T month today P st st"
    using assms(7,8)
    by (simp add: plant_world.plant_ok_def [OF W] plant_world.month_ok_def [OF W] plant_world.arch_ok.simps [OF W])
  have "set (flow_produced ev) \<subseteq> P" if "ev \<in> set evs" for ev using that assms(9) by auto
  then have "plant_world.plant_ok E V T month today P st st'"
    using plant_world.plant_run_ok [OF W assms(11) start _ rows] by blast
  then have "plant_world.month_ok month (current_month today) (T (sys_ch (flow st))) (p_files st) (p_files st')
      (T (sys_ch (flow st'))) p"
    by (simp add: plant_world.plant_ok_def [OF W])
  then show ?thesis
    by (auto simp: plant_world.month_ok_def [OF W] plant_world.part_def [OF W] split: if_splits)
qed

theorem archive_keeps_rows_witness:
  "\<exists>st'. plant_run demo_env (list_months demo_month) demo_drop_cfg demo_today demo_archiving (demo_plant_st old_rows) st'
    \<and> sys_ch (flow st') = [] \<and> (\<exists>rows. p_files st' ''202501'' = Some rows \<and> mset rows = mset old_rows)"
proof -
  obtain st' where st': "plant_run demo_env (list_months demo_month) demo_drop_cfg demo_today demo_archiving (demo_plant_st old_rows) st'"
    "sys_ch (flow st') = []"
    using demo_archive_run by blast
  have "ref_list (sys_redis (flow (demo_plant_st old_rows))) k = []" for k
    by (simp add: demo_plant_st_def demo_sys_def put_list_def ref_list_def dict_get_set empty_store_def)
  then have P: "set (ref_list (sys_redis (flow (demo_plant_st old_rows))) (queue_key (w_queue demo_env)))
      \<union> (\<Union>w. set (ref_list (sys_redis (flow (demo_plant_st old_rows))) (inflight_key w)))
      \<union> set (concat (map flow_produced demo_archiving)) = {}"
    by (simp add: demo_archiving_def)
  have old: "{#r \<in># mset (sys_ch (flow (demo_plant_st old_rows))). demo_month (fst r) = ''202501''#} = mset old_rows"
    by (simp add: demo_plant_st_def old_rows_def demo_month_def)
  from archive_keeps_rows [of demo_env ref_list mset "list_months demo_month" demo_month "demo_plant_st old_rows" "{}"
      demo_archiving demo_today demo_drop_cfg st' "''202501''", unfolded old P]
  show ?thesis
    using st' ref_lists default_plain list_month_table [of demo_month]
    by (simp add: demo_plant_st_def old_rows_def) blast
qed

text \<open>Also (late_row_lost): A record that waited in the queue across the turn of the month can be lost for good: inserted after the export has read its month and before the month is dropped, it is acknowledged and counted as stored, and at the end it is neither in the table nor in any file nor in the claim.\<close>

theorem late_row_lost:
  assumes "redis_lists (w_redis E) V" and "1000 \<le> w_lim E" and "plain_queue (w_queue E)"
    and "month_table (w_insert E) T D month" and "0 < w_batch E" and "c_drop_after cfg" and "64 \<le> bytes"
    and "p_arch st = Streaming p rid n rows" and "\<not> stops (flow st) w"
    and "procs (flow st) w = Inserting claimed [late] backoff attempt" and "month (fst late) = p"
    and "late \<notin> set rows" and "\<forall>q old. p_files st q = Some old \<longrightarrow> late \<notin> set old"
  shows "\<exists>st'. plant_run E D cfg today
      [Flow (Work w (DoInsert Inserted)), Flow (Work w (DoAck Reply)), Place bytes now, DropMonth Reply now] st st'
    \<and> V (sys_redis (flow st')) (inflight_key w) = [] \<and> procs (flow st') w = Looping
    \<and> late \<notin># T (sys_ch (flow st')) \<and> (\<forall>q old. p_files st' q = Some old \<longrightarrow> late \<notin> set old)
    \<and> local_count (stats (flow st') w) STORED = local_count (stats (flow st) w) STORED + 1"
proof -
  have P: "pipeline E V T" using pipelineI [OF assms(1-3) month_table.axioms(1) [OF assms(4)] assms(5)] .
  note ins = row_store.insert_law [OF month_table.axioms(1) [OF assms(4)]]
  let ?f = "flow st"
  define f1 where "f1 = pipe_step E (Work w (DoInsert Inserted)) ?f"
  have f1: "f1 = set_proc w (Acking claimed [late]) (?f\<lparr>sys_ch := w_insert E [late] (sys_ch ?f)\<rparr>)"
    using assms(9,10) by (simp add: f1_def do_insert_def)
  obtain t where t: "ack (w_redis E) Reply (inflight_key w) (sys_redis ?f) = (Inr (), t)"
    by (simp add: ack_def)
  have Vt: "V t (inflight_key w) = []" using pipeline.ack_view [OF P, of Reply w "sys_redis ?f"] t by simp
  define f2 where "f2 = pipe_step E (Work w (DoAck Reply)) f1"
  have f2: "sys_redis f2 = t" "sys_ch f2 = w_insert E [late] (sys_ch ?f)" "procs f2 w = Looping"
    "local_count (stats f2 w) STORED = local_count (stats ?f w) STORED + 1"
    using t by (simp_all add: f2_def f1 do_ack_def set_proc_def count_stat_def count_incr counter_names)
  let ?st2 = "st\<lparr>flow := f2\<rparr>"
  let ?st3 = "do_place cfg bytes now p rid n rows ?st2"
  let ?st4 = "do_drop D Reply now p rid ?st3"
  have st3: "p_arch ?st3 = Placed p rid" "p_files ?st3 = (p_files st)(p \<mapsto> rows)" "flow ?st3 = f2"
    using assms(6,7) by (simp_all add: do_place_def)
  have ins1: "plant_step E D cfg today (Flow (Work w (DoInsert Inserted))) st (st\<lparr>flow := f1\<rparr>)"
    unfolding f1_def by (rule flow_ev)
  have ack1: "plant_step E D cfg today (Flow (Work w (DoAck Reply))) (st\<lparr>flow := f1\<rparr>) ?st2"
    using flow_ev [of E D cfg today "Work w (DoAck Reply)" "st\<lparr>flow := f1\<rparr>"] by (simp add: f2_def)
  have place: "plant_step E D cfg today (Place bytes now) ?st2 ?st3" by (rule place_ev) (simp add: assms(8))
  have drop: "plant_step E D cfg today (DropMonth Reply now) ?st3 ?st4" by (rule drop_ev) (rule st3(1))
  have "plant_run E D cfg today
      [Flow (Work w (DoInsert Inserted)), Flow (Work w (DoAck Reply)), Place bytes now, DropMonth Reply now] st ?st4"
    by (intro plant_more [OF ins1] plant_more [OF ack1] plant_more [OF place] plant_more [OF drop] plant_none)
  moreover have "sys_ch (flow ?st4) = db_drop D p (w_insert E [late] (sys_ch ?f))" "p_files ?st4 = (p_files st)(p \<mapsto> rows)"
    "sys_redis (flow ?st4) = t" "procs (flow ?st4) = procs f2" "stats (flow ?st4) = stats f2"
    using st3 f2 by (simp_all add: do_drop_def Let_def)
  ultimately show ?thesis
    using Vt f2 assms(11-13) by (intro exI [of _ ?st4]) (auto simp: month_table.drop_law [OF assms(4)])
qed

definition demo_late :: "(ref_store, crow list) plant" where
  "demo_late = (demo_plant_st old_rows)\<lparr>flow := (flow (demo_plant_st old_rows))\<lparr>procs :=
       (\<lambda>_. Inserting [''r1''] [(2, replicate 10 MNil)] 1 0)\<rparr>, p_arch := Streaming ''202501'' 1 2 old_rows\<rparr>"

theorem late_row_lost_witness:
  "\<exists>st'. plant_run demo_env (list_months demo_month) demo_drop_cfg demo_today
      [Flow (Work ''w1'' (DoInsert Inserted)), Flow (Work ''w1'' (DoAck Reply)), Place 64 [], DropMonth Reply []] demo_late st'
    \<and> (2, replicate 10 MNil) \<notin> set (sys_ch (flow st'))"
proof -
  have "demo_month 2 = ''202501''" "c_drop_after demo_drop_cfg" "p_arch demo_late = Streaming ''202501'' 1 2 old_rows"
    "\<not> stops (flow demo_late) ''w1''"
    "procs (flow demo_late) ''w1'' = Inserting [''r1''] [(2, replicate 10 MNil)] 1 0"
    "(2, replicate 10 MNil) \<notin> set old_rows" "p_files demo_late = (\<lambda>_. None)"
    by (simp_all add: demo_month_def demo_drop_cfg_def demo_late_def demo_plant_st_def old_rows_def)
  then show ?thesis
    using late_row_lost [of demo_env ref_list mset "list_months demo_month" demo_month demo_drop_cfg 64 demo_late
        "''202501''" 1 2 old_rows "''w1''" "[''r1'']" "(2, replicate 10 MNil)" 1 0 demo_today "[]"]
      ref_lists default_plain list_month_table [of demo_month]
    by auto
qed

text \<open>Also (archive_overwritten): A drop whose reply is lost can cost a whole archive: the run that had written the file is recorded as failed, so a late row makes the month count as not archived, and the next run replaces the file by one that holds the late row alone.\<close>

theorem archive_overwritten:
  assumes "month_table (w_insert E) T D month" and "p < month_text (d_year today) (d_month today)" and "64 \<le> bytes"
    and "p_arch st = Placed p rid" and "p_todo st = []" and "p_files st p = Some old"
    and "\<forall>r \<in># T (sys_ch (flow st)). month (fst r) = p"
    and "\<forall>r \<in> set (runs (p_meta st)). run_partition r = p \<longrightarrow> run_id r = rid"
    and "\<not> stops (flow st) w" and "procs (flow st) w = Inserting claimed [late] backoff attempt"
    and "month (fst late) = p"
  shows "\<exists>st'. plant_run E D cfg today
      [DropMonth ReplyLost now, Flow (Work w (DoInsert Inserted)), Plan, Begin now, CountRows now, Snapshot, Place bytes now] st st'
    \<and> p_files st' p = Some [late] \<and> T (sys_ch (flow st')) = {#late#}"
proof -
  note ins = row_store.insert_law [OF month_table.axioms(1) [OF assms(1)]]
  note D = month_table.select_law [OF assms(1)] month_table.drop_law [OF assms(1)] month_table.parts_law [OF assms(1)]
  let ?st1 = "do_drop D ReplyLost now p rid st"
  have st1: "p_arch ?st1 = Resting" "p_todo ?st1 = []" "p_files ?st1 = p_files st"
    "flow ?st1 = (flow st)\<lparr>sys_ch := db_drop D p (sys_ch (flow st))\<rparr>"
    "p_meta ?st1 = finish_archive now rid ''failed'' 0 0 '''' [] (p_meta st)"
    using assms(5) by (simp_all add: do_drop_def Let_def give_up_def)
  have T1: "T (sys_ch (flow ?st1)) = {#}" using assms(7) by (simp add: st1 D filter_mset_eq_conv)
  define f2 where "f2 = pipe_step E (Work w (DoInsert Inserted)) (flow ?st1)"
  have T2: "T (sys_ch f2) = {#late#}"
    using assms(9,10) T1 by (simp add: f2_def st1 do_insert_def ins set_proc_def)
  let ?st2 = "?st1\<lparr>flow := f2\<rparr>"
  let ?todo = "closed_partitions today (db_parts D (sys_ch f2)) (p_meta ?st1)"
  have "p \<notin> set (archived_partitions (p_meta ?st1))"
    using assms(8) by (auto simp: st1 archived_partitions_def finish_archive_def split: if_splits)
  moreover have "set (db_parts D (sys_ch f2)) = {p}" using assms(11) T2 by (auto simp: D)
  ultimately have "set ?todo = {p}" using assms(2) by (auto simp: closed_partitions_def Let_def)
  then obtain ps where ps: "?todo = p # ps" by (cases ?todo) auto
  let ?st3 = "?st2\<lparr>p_todo := ?todo\<rparr>"
  obtain rid2 m where m: "start_archive now p (p_meta ?st3) = (rid2, m)" by force
  let ?st4 = "?st3\<lparr>p_meta := m, p_arch := Asking p rid2, p_todo := ps\<rparr>"
  have sel: "db_select D p (sys_ch f2) = [late]"
    using D(1) [of p "sys_ch f2"] T2 assms(11) by simp
  let ?st5 = "do_count D now p rid2 ?st4"
  have st5: "p_arch ?st5 = Reading p rid2 1" "sys_ch (flow ?st5) = sys_ch f2" "p_files ?st5 = p_files st"
    by (simp_all add: do_count_def sel st1)
  let ?st6 = "?st5\<lparr>p_arch := Streaming p rid2 1 [late]\<rparr>"
  let ?st7 = "do_place cfg bytes now p rid2 1 [late] ?st6"
  have plan: "plant_step E D cfg today Plan ?st2 ?st3"
    using plan_ev [of ?st2 E D cfg today] st1 by simp
  have start: "plant_step E D cfg today (Begin now) ?st3 ?st4"
    using begin_ev [of ?st3 p ps now rid2 m E D cfg today] st1 ps m by simp
  have count: "plant_step E D cfg today (CountRows now) ?st4 ?st5" by (rule count_ev) simp
  have snap: "plant_step E D cfg today Snapshot ?st5 ?st6"
    using snapshot_ev [OF st5(1), of E D cfg today] by (simp only: st5(2) sel)
  have place: "plant_step E D cfg today (Place bytes now) ?st6 ?st7" by (rule place_ev) simp
  have flow: "plant_step E D cfg today (Flow (Work w (DoInsert Inserted))) ?st1 ?st2"
    unfolding f2_def by (rule flow_ev)
  have drop: "plant_step E D cfg today (DropMonth ReplyLost now) st ?st1" by (rule drop_ev) (rule assms(4))
  have "plant_run E D cfg today
      [DropMonth ReplyLost now, Flow (Work w (DoInsert Inserted)), Plan, Begin now, CountRows now, Snapshot, Place bytes now] st ?st7"
    by (intro plant_more [OF drop] plant_more [OF flow] plant_more [OF plan] plant_more [OF start]
        plant_more [OF count] plant_more [OF snap] plant_more [OF place] plant_none)
  moreover have "sys_ch (flow ?st7) = sys_ch (flow ?st5)" "p_files ?st7 p = Some [late]"
    using assms(3) by (simp_all add: do_place_def Let_def)
  then have "T (sys_ch (flow ?st7)) = {#late#}" "p_files ?st7 p = Some [late]" by (simp_all only: st5(2) T2)
  ultimately show ?thesis by blast
qed

definition demo_kept :: "(ref_store, crow list) plant" where
  "demo_kept = demo_late\<lparr>p_arch := Placed ''202501'' 1, p_files := [''202501'' \<mapsto> old_rows]\<rparr>"

theorem archive_overwritten_witness:
  "\<exists>st'. plant_run demo_env (list_months demo_month) demo_drop_cfg demo_today
      [DropMonth ReplyLost [], Flow (Work ''w1'' (DoInsert Inserted)), Plan, Begin [], CountRows [], Snapshot, Place 64 []] demo_kept st'
    \<and> p_files st' ''202501'' = Some [(2, replicate 10 MNil)]"
proof -
  have month: "''202501'' < month_text (d_year demo_today) (d_month demo_today)" by code_simp
  have "demo_month 2 = ''202501''" "p_arch demo_kept = Placed ''202501'' 1" "p_todo demo_kept = []"
    "p_files demo_kept ''202501'' = Some old_rows" "\<not> stops (flow demo_kept) ''w1''"
    "procs (flow demo_kept) ''w1'' = Inserting [''r1''] [(2, replicate 10 MNil)] 1 0"
    "\<forall>r \<in># mset (sys_ch (flow demo_kept)). demo_month (fst r) = ''202501''" "runs (p_meta demo_kept) = []"
    by (simp_all add: demo_month_def demo_kept_def demo_late_def demo_plant_st_def old_rows_def empty_meta_def)
  then show ?thesis
    using archive_overwritten [of demo_env mset "list_months demo_month" demo_month "''202501''" demo_today 64 demo_kept 1
        old_rows "''w1''" "[''r1'']" "(2, replicate 10 MNil)" 1 0 demo_drop_cfg "[]"]
      list_month_table [of demo_month] month
    by auto
qed

end
