(* ===== verification/Stored_Search.thy ===== *)
theory Stored_Search
  imports Log_Search Fleet
begin

text \<open>
  \<open>insert_rows\<close> of \<open>database/clickhouse.py\<close>, the attempt that the worker makes with it, and the way
  back: what a search finds of a stored record. The columns are those of
  \<open>src/database/schema/clickhouse.sql\<close>; the driver takes rows by position under \<open>COLUMNS\<close>.
\<close>

section \<open>\<open>insert_rows\<close>\<close>

record insert_call =
  ic_table :: pystr
  ic_data :: "crow list"
  ic_columns :: "string list"
  ic_database :: pystr
  ic_settings :: params

definition insert_settings :: params where
  "insert_settings = [(''async_insert'', PInt 0), (''insert_deduplicate'', PInt 0), (''max_insert_threads'', PInt 4)]"

text \<open>The calls that reached the driver are collected; \<open>outcome\<close> says how each of them ends.\<close>

definition insert_rows ::
    "server \<Rightarrow> (insert_call \<Rightarrow> unit result) \<Rightarrow> pystr \<Rightarrow> pystr \<Rightarrow> crow list
      \<Rightarrow> (ClickHouseService \<times> insert_call list, unit) eff" where
  "insert_rows srv outcome database table rows x =
     (let (sv, sent) = x
      in case get_client srv sv of
           (Inl e, sv) \<Rightarrow> (Inl e, sv, sent)
         | (Inr _, sv) \<Rightarrow>
             (let call = \<lparr>ic_table = table, ic_data = rows, ic_columns = COLUMNS, ic_database = database,
                          ic_settings = insert_settings\<rparr>
              in (outcome call, sv, sent @ [call])))"

text \<open>One attempt of \<open>_write_with_retry\<close>: after a failure the client is closed, and that can raise.\<close>

definition insert_attempt ::
    "server \<Rightarrow> (insert_call \<Rightarrow> unit result) \<Rightarrow> pystr \<Rightarrow> pystr \<Rightarrow> crow list
      \<Rightarrow> (ClickHouseService \<times> insert_call list, bool) eff" where
  "insert_attempt srv outcome database table rows x =
     (case insert_rows srv outcome database table rows x of
        (Inr _, sv, sent) \<Rightarrow> (Inr True, sv, sent)
      | (Inl _, sv, sent) \<Rightarrow>
          (case close_client srv sv of
             (Inl e, sv) \<Rightarrow> (Inl e, sv, sent)
           | (Inr _, sv) \<Rightarrow> (Inr False, sv, sent)))"

section \<open>What the table holds of a row\<close>

definition column_types :: "(string \<times> string) list" where
  "column_types =
     [(''timestamp'', ''DateTime''), (''router_ip'', ''IPv4''), (''subscriber_id'', ''LowCardinality(String)''),
      (''private_ip'', ''IPv4''), (''private_port'', ''UInt16''), (''public_ip'', ''IPv4''),
      (''public_port'', ''UInt16''), (''dest_ip'', ''IPv4''), (''dest_port'', ''UInt16''),
      (''protocol'', ''LowCardinality(String)''), (''session_end_time'', ''Nullable(DateTime)'')]"

text \<open>A value as a column of its type keeps it. \<open>clock\<close> is the wall clock of an epoch second.\<close>

definition column_value :: "(int \<Rightarrow> pydt) \<Rightarrow> string \<Rightarrow> mval \<Rightarrow> pval" where
  "column_value clock ch_type v =
     (case v of
        MInt n \<Rightarrow> if ch_type \<in> {''DateTime'', ''Nullable(DateTime)''} then PTime (clock n) else PInt n
      | MStr t \<Rightarrow> if ch_type = ''IPv4'' then PIp t else PStr t
      | _ \<Rightarrow> PNone)"

text \<open>The stored row of a row sent under these column names; \<open>session_start_time\<close> is an alias.\<close>

definition stored_row :: "(int \<Rightarrow> pydt) \<Rightarrow> string list \<Rightarrow> crow \<Rightarrow> stored" where
  "stored_row clock names row column =
     (let name = (if column = ''session_start_time'' then ''timestamp'' else column)
      in case map_of (zip names (MInt (fst row) # snd row)) name of
           None \<Rightarrow> PNone
         | Some v \<Rightarrow> (case map_of column_types name of None \<Rightarrow> PNone | Some ch_type \<Rightarrow> column_value clock ch_type v))"

definition record_row :: "ParsedLog \<Rightarrow> int \<Rightarrow> pystr \<Rightarrow> crow" where
  "record_row r time ip = (time, tl (as_row r time ip))"

text \<open>The fields of a record under the names of the search form.\<close>

definition record_fields :: "ParsedLog \<Rightarrow> pystr \<Rightarrow> params" where
  "record_fields r ip =
     [(''router_ip'', PIp ip), (''private_ip'', PIp (private_ip r)), (''public_ip'', PIp (public_ip r)),
      (''dest_ip'', PIp (dest_ip r)), (''private_port'', PInt (private_port r)),
      (''public_port'', PInt (public_port r)), (''dest_port'', PInt (dest_port r)),
      (''protocol'', PStr (protocol r))]"

definition typed :: "string \<Rightarrow> pval \<Rightarrow> pval" where
  "typed name v =
     (if name \<in> {''router_ip'', ''private_ip'', ''public_ip'', ''dest_ip''}
      then (case v of PStr t \<Rightarrow> PIp t | _ \<Rightarrow> v) else v)"

lemma stored_record:
  "stored_row clock COLUMNS (record_row r time ip) ''timestamp'' = PTime (clock time)"
  "stored_row clock COLUMNS (record_row r time ip) ''session_start_time'' = PTime (clock time)"
  "stored_row clock COLUMNS (record_row r time ip) ''router_ip'' = PIp ip"
  "stored_row clock COLUMNS (record_row r time ip) ''subscriber_id'' = PStr (subscriber_id r)"
  "stored_row clock COLUMNS (record_row r time ip) ''private_ip'' = PIp (private_ip r)"
  "stored_row clock COLUMNS (record_row r time ip) ''private_port'' = PInt (private_port r)"
  "stored_row clock COLUMNS (record_row r time ip) ''public_ip'' = PIp (public_ip r)"
  "stored_row clock COLUMNS (record_row r time ip) ''public_port'' = PInt (public_port r)"
  "stored_row clock COLUMNS (record_row r time ip) ''dest_ip'' = PIp (dest_ip r)"
  "stored_row clock COLUMNS (record_row r time ip) ''dest_port'' = PInt (dest_port r)"
  "stored_row clock COLUMNS (record_row r time ip) ''protocol'' = PStr (protocol r)"
  "stored_row clock COLUMNS (record_row r time ip) ''session_end_time'' = PNone"
  by (simp_all add: stored_row_def record_row_def as_row_def COLUMNS_def column_types_def column_value_def)

lemma filter_column:
  assumes "map_of EXACT_FILTERS n = Some (column, ch_type)"
  shows "map_of (record_fields r ip) n = Some (stored_row clock COLUMNS (record_row r time ip) column)"
    and "typed n v = as_column ch_type v"
proof -
  have "(n, column, ch_type) \<in> set EXACT_FILTERS" using assms by (rule map_of_SomeD)
  then have n: "(n, column, ch_type) \<in> {(''router_ip'', ''router_ip'', ''IPv4''), (''private_ip'', ''private_ip'', ''IPv4''),
      (''public_ip'', ''public_ip'', ''IPv4''), (''dest_ip'', ''dest_ip'', ''IPv4''),
      (''private_port'', ''private_port'', ''UInt16''), (''public_port'', ''public_port'', ''UInt16''),
      (''dest_port'', ''dest_port'', ''UInt16''), (''protocol'', ''protocol'', ''String'')}"
    by (simp add: EXACT_FILTERS_def)
  show "map_of (record_fields r ip) n = Some (stored_row clock COLUMNS (record_row r time ip) column)"
    using n by (elim insertE) (simp_all add: record_fields_def stored_record)
  show "typed n v = as_column ch_type v"
    using n by (elim insertE) (simp_all add: typed_def as_column_def split: pval.split)
qed

lemma filter_columns:
  assumes "n \<in> set (map fst EXACT_FILTERS)"
  shows "(case map_of EXACT_FILTERS n of
      None \<Rightarrow> False
    | Some (column, ch_type) \<Rightarrow> stored_row clock COLUMNS (record_row r time ip) column = as_column ch_type v)
    \<longleftrightarrow> map_of (record_fields r ip) n = Some (typed n v)"
proof -
  obtain column ch_type where n: "map_of EXACT_FILTERS n = Some (column, ch_type)"
    using assms by (metis map_of_eq_None_iff not_Some_eq surj_pair set_map)
  show ?thesis by (simp add: n filter_column(1) [OF n, of r ip clock time] filter_column(2) [OF n])
qed

text \<open>A search matches a stored record exactly if it asks for its fields.\<close>

definition asks_for :: "(pydt \<Rightarrow> int) \<Rightarrow> (int \<Rightarrow> pydt) \<Rightarrow> SearchQuery \<Rightarrow> ParsedLog \<Rightarrow> int \<Rightarrow> pystr \<Rightarrow> bool" where
  "asks_for instant clock q r time ip \<longleftrightarrow>
     instant (time_from q) \<le> instant (clock time) \<and> instant (clock time) \<le> instant (time_to q)
     \<and> (\<forall>(name, v) \<in> set (exact q). \<not> blank v \<longrightarrow> map_of (record_fields r ip) name = Some (typed name v))
     \<and> (case q_subscriber q of
          None \<Rightarrow> True
        | Some sub \<Rightarrow> sub = []
            \<or> (if subscriber_partial q then contains_ci (subscriber_id r) sub else subscriber_id r = sub))"

lemma matches_record:
  assumes "names_ok q"
  shows "matches instant q (stored_row clock COLUMNS (record_row r time ip)) = asks_for instant clock q r time ip"
proof -
  have "n \<in> set (map fst EXACT_FILTERS)" if "(n, v) \<in> set (exact q)" "\<not> blank v" for n v
  proof -
    have "(n, v) \<in> set (given q)" using that by (auto simp: given_def)
    then have "n \<in> set (map fst (given q))" by force
    then show ?thesis using assms unfolding names_ok_def by blast
  qed
  then have "(\<forall>(name, v) \<in> set (exact q). \<not> blank v \<longrightarrow>
      (case map_of EXACT_FILTERS name of
         None \<Rightarrow> False
       | Some (column, ch_type) \<Rightarrow> stored_row clock COLUMNS (record_row r time ip) column = as_column ch_type v))
    \<longleftrightarrow> (\<forall>(name, v) \<in> set (exact q). \<not> blank v \<longrightarrow> map_of (record_fields r ip) name = Some (typed name v))"
    using filter_columns [where clock = clock and r = r and time = time and ip = ip] by (fast intro: )
  then show ?thesis
    unfolding matches_def asks_for_def stored_record moment.simps text_of.simps pval.inject by simp
qed

text \<open>The place of an entry in a sorted list: after what must come before it, before what must come after it.\<close>

lemma sorted_place:
  assumes "sorted_wrt P ys" "x \<in> set ys" "P x x"
  shows "\<exists>i < length ys. ys ! i = x \<and> length (filter (\<lambda>r. \<not> P x r) ys) \<le> i \<and> i < length (filter (\<lambda>r. P r x) ys)"
proof -
  obtain xs zs where ys: "ys = xs @ x # zs" using split_list [OF assms(2)] by blast
  then have order: "\<forall>a \<in> set xs. P a x" "\<forall>b \<in> set zs. P x b"
    using assms(1) by (auto simp: sorted_wrt_append)
  have "filter (\<lambda>r. P r x) xs = xs" "filter (\<lambda>r. \<not> P x r) zs = []" using order by (auto simp: filter_id_conv filter_empty_conv)
  then show ?thesis
    using assms(3) by (intro exI [of _ "length xs"]) (simp add: ys)
qed

lemma mset_filter_length: "mset xs = mset ys \<Longrightarrow> length (filter P xs) = length (filter P ys)"
  by (metis mset_filter size_mset)

text \<open>The number of rows that come strictly before a row in the order of a search, and of those that do not come after it.\<close>

definition rows_before :: "(stored \<Rightarrow> stored \<Rightarrow> bool) \<Rightarrow> stored list \<Rightarrow> stored \<Rightarrow> nat" where
  "rows_before ord rs x = length (filter (\<lambda>r. \<not> ord x r) rs)"

definition rows_upto :: "(stored \<Rightarrow> stored \<Rightarrow> bool) \<Rightarrow> stored list \<Rightarrow> stored \<Rightarrow> nat" where
  "rows_upto ord rs x = length (filter (\<lambda>r. ord r x) rs)"

text \<open>The rows on a page: one more than \<open>max_result_rows\<close> when the limit is larger.\<close>

definition page_rows :: "ClickHouseService \<Rightarrow> SearchQuery \<Rightarrow> int" where
  "page_rows sv q = min (q_limit q) (sv_max_rows sv + 1)"

lemma search_page_shows:
  assumes "validate U p = Some v" and "to_query U now v = Inr q"
    and "order_by q = lit col" and "col \<in> set SORTABLE"
    and "sv_client sv \<or> can_connect srv" and "0 \<le> sv_max_rows sv" and refl: "\<And>x. le x x"
    and "answers_select instant le table sv srv (query_clauses q) col (descending q) (page_params sv q)"
    and "s \<in> set table" and "matches instant q s"
    and place: "q_offset q \<le> int (rows_before (in_order le col (descending q)) (filter (matches instant q) table) s)"
      "int (rows_upto (in_order le col (descending q)) (filter (matches instant q) table) s) \<le> q_offset q + page_rows sv q"
  shows "\<exists>pg. api_search U fmt srv now p sv = (Body pg, sv\<lparr>sv_client := True\<rparr>)
    \<and> serialise fmt (map (\<lambda>c. (c, s c)) SELECT_COLUMNS) \<in> set (pg_rows pg)
    \<and> (pg_more pg \<longleftrightarrow> q_limit q \<le> sv_max_rows sv
        \<and> q_offset q + q_limit q < int (length (filter (matches instant q) table)))"
proof -
  note q = to_query_Inr [OF assms(2)]
  have lim: "q_limit q = req_limit v" "q_offset q = req_offset v" by (subst q(1), simp)+
  have bounds: "0 \<le> q_offset q" "0 \<le> q_limit q" using validate_Some [OF assms(1)] lim by simp_all
  let ?ord = "in_order le col (descending q)"
  obtain res ys where res: "ch_search srv q sv = (Inr res, sv\<lparr>sv_client := True\<rparr>)"
    and ys: "mset ys = mset (filter (matches instant q) table)" "sorted_wrt ?ord ys"
    and shown: "res_rows res = map (\<lambda>r. map (\<lambda>c. (c, r c)) SELECT_COLUMNS)
        (take (min (nat (q_limit q)) (nat (sv_max_rows sv) + 1)) (drop (nat (q_offset q)) ys))"
    and more: "has_more res \<longleftrightarrow> q_limit q \<le> sv_max_rows sv \<and> q_offset q + q_limit q < int (length ys)"
    using search_rows [OF to_query_names_ok [OF assms(2)] assms(3-5) bounds assms(6,8)] by blast
  have "s \<in> set ys" using mset_eq_setD [OF ys(1)] assms(9,10) by auto
  moreover have "?ord s s" using refl by (simp add: in_order_def)
  ultimately obtain i where i: "i < length ys" "ys ! i = s" "rows_before ?ord ys s \<le> i" "i < rows_upto ?ord ys s"
    using sorted_place [OF ys(2)] by (auto simp: rows_before_def rows_upto_def)
  have "rows_before ?ord ys s = rows_before ?ord (filter (matches instant q) table) s"
    "rows_upto ?ord ys s = rows_upto ?ord (filter (matches instant q) table) s"
    unfolding rows_before_def rows_upto_def by (rule mset_filter_length [OF ys(1)])+
  then have range: "nat (q_offset q) \<le> i" "i - nat (q_offset q) < min (nat (q_limit q)) (nat (sv_max_rows sv) + 1)"
    using place i(3,4) bounds assms(6) by (simp_all add: page_rows_def) linarith+
  have "s \<in> set (take (min (nat (q_limit q)) (nat (sv_max_rows sv) + 1)) (drop (nat (q_offset q)) ys))"
    using range i(1,2) diff_less_mono [OF i(1) range(1)]
    by (auto simp: in_set_conv_nth intro!: exI [of _ "i - nat (q_offset q)"])
  then show ?thesis
    using res shown more mset_eq_length [OF ys(1)] assms(1,2)
    by (intro exI [of _ "\<lparr>pg_rows = map (serialise fmt) (res_rows res), pg_more = has_more res,
        pg_ms = elapsed_ms res, pg_scanned = rows_read res, pg_limit = q_limit q, pg_offset = q_offset q\<rparr>"])
      (auto simp: api_search_def)
qed

text \<open>A record as the page shows it.\<close>

definition shown_record :: "(pydt \<Rightarrow> pystr) \<Rightarrow> (int \<Rightarrow> pydt) \<Rightarrow> ParsedLog \<Rightarrow> int \<Rightarrow> pystr \<Rightarrow> params" where
  "shown_record fmt clock r time ip =
     [(''timestamp'', PStr (fmt (clock time))), (''router_ip'', PStr ip), (''subscriber_id'', PStr (subscriber_id r)),
      (''private_ip'', PStr (private_ip r)), (''private_port'', PInt (private_port r)),
      (''public_ip'', PStr (public_ip r)), (''public_port'', PInt (public_port r)),
      (''dest_ip'', PStr (dest_ip r)), (''dest_port'', PInt (dest_port r)), (''protocol'', PStr (protocol r)),
      (''session_end_time'', PNone), (''session_start_time'', PStr (fmt (clock time)))]"

lemma select_map:
  "map f SELECT_COLUMNS = [f ''timestamp'', f ''router_ip'', f ''subscriber_id'', f ''private_ip'', f ''private_port'',
     f ''public_ip'', f ''public_port'', f ''dest_ip'', f ''dest_port'', f ''protocol'', f ''session_end_time'',
     f ''session_start_time'']"
  by (simp add: SELECT_COLUMNS_def COLUMNS_def)

lemma serialise_record:
  "serialise fmt (map (\<lambda>c. (c, stored_row clock COLUMNS (record_row r time ip) c)) SELECT_COLUMNS)
    = shown_record fmt clock r time ip"
proof -
  have "py_find ''router_ip'' ''_ip'' \<noteq> None" "py_find ''private_ip'' ''_ip'' \<noteq> None"
    "py_find ''public_ip'' ''_ip'' \<noteq> None" "py_find ''dest_ip'' ''_ip'' \<noteq> None"
    "py_find ''private_port'' ''_ip'' = None" "py_find ''public_port'' ''_ip'' = None"
    "py_find ''dest_port'' ''_ip'' = None" by code_simp+
  then show ?thesis
    by (simp add: select_map stored_record serialise_def shown_record_def dict_set_def)
qed

section \<open>Properties\<close>

text \<open>C4 (stored_found): What the worker stores can be found again: once an insert of a batch with the row of a record has succeeded, every valid search that asks for fields of this record shows it, whatever else is in the table, with the fields as they were parsed and each value under its column, if its offset and limit reach to the place of the record in the order asked for: at least as many of the matching rows come strictly before it as the offset skips, and no more of them up to it than offset and page hold, a page being the limit or max_result_rows and one, whichever is less. On the first page that is so whenever all that match fit. Whether more rows are announced depends only on the limit, max_result_rows and the number of matching rows.\<close>

theorem stored_found:
  assumes "insert_rows isrv outcome database name rows (isv, sent) = (Inr (), isv', sent')"
    and "record_row r time ip \<in> set rows"
    and "table = old @ map (stored_row clock (ic_columns (last sent'))) (ic_data (last sent'))"
    and "validate U p = Some v" and "to_query U now v = Inr q"
    and "order_by q = lit col" and "col \<in> set SORTABLE"
    and "sv_client sv \<or> can_connect srv" and "0 \<le> sv_max_rows sv" and refl: "\<And>x. le x x"
    and "answers_select instant le table sv srv (query_clauses q) col (descending q) (page_params sv q)"
    and "asks_for instant clock q r time ip"
    and "found = filter (matches instant q) table" and "ord = in_order le col (descending q)"
    and "s = stored_row clock COLUMNS (record_row r time ip)"
    and place: "q_offset q \<le> int (rows_before ord found s)" "int (rows_upto ord found s) \<le> q_offset q + page_rows sv q"
  shows "\<exists>pg. api_search U fmt srv now p sv = (Body pg, sv\<lparr>sv_client := True\<rparr>)
    \<and> shown_record fmt clock r time ip \<in> set (pg_rows pg)
    \<and> (pg_more pg \<longleftrightarrow> q_limit q \<le> sv_max_rows sv \<and> q_offset q + q_limit q < int (length found))"
proof -
  have "ic_columns (last sent') = COLUMNS" "ic_data (last sent') = rows"
    using assms(1) by (auto simp: insert_rows_def Let_def split: prod.splits sum.splits)
  then have "s \<in> set table" using assms(2,3) by (simp add: assms(15))
  moreover have "matches instant q s"
    using assms(12) matches_record [OF to_query_names_ok [OF assms(5)]] by (simp add: assms(15))
  ultimately show ?thesis
    using search_page_shows [OF assms(4-9) refl assms(11), of s fmt] place
    by (simp add: serialise_record assms(13-15))
qed

text \<open>A record, a search for its subscriber and a table that holds one more row.\<close>

definition trace_record :: ParsedLog where
  "trace_record = demo_parsed\<lparr>protocol := lit ''TCP'', subscriber_id := lit ''khalid''\<rparr>"

definition trace_table :: "stored list" where
  "trace_table = map (stored_row (\<lambda>t. Naive (t * 1000000)) COLUMNS)
     [record_row demo_parsed 7 [], record_row trace_record 7 (lit ''192.0.2.1'')]"

definition trace_server :: server where
  "trace_server = \<lparr>can_connect = True, can_close = True, run_query = (\<lambda>sql ps st.
     Inr \<lparr>column_names = SELECT_COLUMNS, result_rows = [map (trace_table ! 1) SELECT_COLUMNS],
          summary_ms = 3, summary_rows = 2\<rparr>)\<rparr>"

lemma trace_matches:
  "matches utc demo_asked (trace_table ! 1)" "\<not> matches utc demo_asked (trace_table ! 0)"
  by code_simp+

lemma trace_filter: "filter (matches utc demo_asked) trace_table = [trace_table ! 1]"
proof -
  have "trace_table = [trace_table ! 0, trace_table ! 1]" by (simp add: trace_table_def)
  then show ?thesis using trace_matches by (metis filter.simps)
qed

lemma trace_answers:
  "answers_select utc time_le trace_table demo_service trace_server (query_clauses demo_asked) ''timestamp''
     (descending demo_asked) (page_params demo_service demo_asked)"
proof -
  have "names_ok demo_asked" by code_simp
  note sel = clauses_select_matches [OF this]
  have n: "number_of (map_of (page_params demo_service demo_asked) ''limit'') = 2"
    "number_of (map_of (page_params demo_service demo_asked) ''offset'') = 0" by code_simp+
  show ?thesis
    unfolding answers_select_def sel n trace_filter
    by (intro exI [of _ "[trace_table ! 1]"] exI conjI, simp add: trace_server_def) simp_all
qed

theorem stored_found_witness:
  "\<exists>pg. api_search ascii_only (\<lambda>_. []) trace_server (Naive 0) demo_request demo_service
      = (Body pg, demo_service\<lparr>sv_client := True\<rparr>)
    \<and> shown_record (\<lambda>_. []) (\<lambda>t. Naive (t * 1000000)) trace_record 7 (lit ''192.0.2.1'') \<in> set (pg_rows pg) \<and> \<not> pg_more pg"
proof -
  let ?clock = "\<lambda>t. Naive (t * 1000000)"
  let ?row = "record_row trace_record 7 (lit ''192.0.2.1'')"
  let ?call = "\<lparr>ic_table = [], ic_data = [?row], ic_columns = COLUMNS, ic_database = [], ic_settings = insert_settings\<rparr>"
  have ins: "insert_rows trace_server (\<lambda>_. Inr ()) [] [] [?row] (demo_service, [])
      = (Inr (), demo_service\<lparr>sv_client := True\<rparr>, [?call])"
    by (simp add: insert_rows_def get_client_def demo_service_def trace_server_def)
  have table: "trace_table = [trace_table ! 0]
      @ map (stored_row ?clock (ic_columns (last [?call]))) (ic_data (last [?call]))"
    by (simp add: trace_table_def)
  have asks: "asks_for utc ?clock demo_asked trace_record 7 (lit ''192.0.2.1'')" by code_simp
  have hyps: "order_by demo_asked = lit ''timestamp''" "''timestamp'' \<in> set SORTABLE"
    "sv_client demo_service \<or> can_connect trace_server" "0 \<le> sv_max_rows demo_service"
    by (simp_all add: demo_asked_def SORTABLE_def trace_server_def demo_service_def)
  have refl: "time_le x x" for x by (cases x) simp_all
  have row: "stored_row ?clock COLUMNS ?row = trace_table ! 1" by (simp add: trace_table_def)
  have lim: "q_limit demo_asked = 1" "q_offset demo_asked = 0" "page_rows demo_service demo_asked = 1"
    by (simp_all add: demo_asked_def demo_service_def page_rows_def)
  have "q_offset demo_asked \<le> int (rows_before (in_order time_le ''timestamp'' (descending demo_asked))
      (filter (matches utc demo_asked) trace_table) (stored_row ?clock COLUMNS ?row))"
    "int (rows_upto (in_order time_le ''timestamp'' (descending demo_asked))
      (filter (matches utc demo_asked) trace_table) (stored_row ?clock COLUMNS ?row))
      \<le> q_offset demo_asked + page_rows demo_service demo_asked"
    by (simp_all add: lim trace_filter rows_upto_def)
  from stored_found [OF ins _ table demo_validate demo_to_query hyps refl trace_answers asks HOL.refl HOL.refl HOL.refl this, of "\<lambda>_. []"]
  show ?thesis by (simp add: lim trace_filter)
qed

end
