(* ===== verification/Web_Api.thy ===== *)
theory Web_Api
  imports System_Api Settings_Api Routers_Api
begin

text \<open>
  The routes of \<open>backend/app/api\<close> together, as \<open>create_app\<close> of \<open>app.py\<close> mounts them: each request passes the guards that its route
  declares and then runs its handler on the shared state.
\<close>

section \<open>Requests\<close>

datatype call =
    Login pystr pystr
  | Logout
  | WhoAmI
  | Password pystr pystr
  | RouterList
  | RouterAdd RouterIn
  | RouterUpdate int router_patch
  | RouterDelete int
  | Search SearchRequest
  | Count SearchRequest
  | BrandingGet
  | BrandingSet pystr
  | LogoUpload pybytes
  | LogoClear
  | LogoGet pystr
  | RetentionGet
  | RetentionSet int int
  | Health
  | SystemStatus
  | Partitions
  | Archives
  | MetricsReset

datatype guard = Open | Session | SessionOrigin

text \<open>What a route declares; \<open>login\<close>, \<open>me\<close> and the password change have their guards in their own models.\<close>

fun guard_of :: "call \<Rightarrow> guard" where
  "guard_of RouterList = Session"
| "guard_of (RouterAdd b) = SessionOrigin"
| "guard_of (RouterUpdate i p) = SessionOrigin"
| "guard_of (RouterDelete i) = SessionOrigin"
| "guard_of (Search r) = SessionOrigin"
| "guard_of (Count r) = SessionOrigin"
| "guard_of (BrandingSet n) = SessionOrigin"
| "guard_of (LogoUpload b) = SessionOrigin"
| "guard_of LogoClear = SessionOrigin"
| "guard_of RetentionGet = Session"
| "guard_of (RetentionSet h n) = SessionOrigin"
| "guard_of SystemStatus = Session"
| "guard_of Partitions = Session"
| "guard_of Archives = Session"
| "guard_of MetricsReset = SessionOrigin"
| "guard_of c = Open"

text \<open>The parts of the application that requests do not change.\<close>

record ('r, 'k) site =
  si_auth :: auth_env
  si_redis :: "'r redis"
  si_counters :: "'k counters"
  si_server :: server
  si_accepts :: "pystr \<Rightarrow> bool"
  si_table :: pystr
  si_db :: pystr
  si_tbl :: pystr
  si_pillow :: "pybytes \<Rightarrow> image option"
  si_fmt :: "pydt \<Rightarrow> pystr"
  si_show :: "pval \<Rightarrow> pystr"
  si_queue :: rkey

text \<open>The clock, the random draws and the outcomes of the remote calls of one request.\<close>

record luck =
  lu_now :: int
  lu_text :: pystr
  lu_salt :: pystr
  lu_throttle :: "net \<times> net \<times> net"
  lu_net :: net
  lu_saves :: bool
  lu_removes :: bool
  lu_tok :: pystr
  lu_dt :: pydt
  lu_status :: status_nets
  lu_samples :: "rat \<times> rat"
  lu_gauges :: "(string \<times> rat option) list result"
  lu_host :: host_stats

text \<open>What requests share: the store, Redis, the commands ClickHouse has run, the logo files, the driver.\<close>

record ('r, 'k) web =
  wb_meta :: meta
  wb_redis :: 'r
  wb_counters :: 'k
  wb_sent :: "pystr list"
  wb_logos :: "pystr set"
  wb_ch :: ClickHouseService
  wb_rates :: rates

fun answer_code :: "answer \<Rightarrow> nat" where "answer_code (Http c r) = c"

definition response_code :: "'a response \<Rightarrow> nat" where
  "response_code r = (case r of Body _ \<Rightarrow> 200 | Status c \<Rightarrow> c)"

definition routed :: "('r, 'k) site \<Rightarrow> luck \<Rightarrow> router_request \<Rightarrow> ('r, 'k) web \<Rightarrow> nat \<times> ('r, 'k) web" where
  "routed A u req st =
     (case router_api (au_ucd (si_auth A)) (si_redis A) (lu_net u) req (wb_meta st, wb_redis st) of
        (a, m, s) \<Rightarrow> (answer_code a, st\<lparr>wb_meta := m, wb_redis := s\<rparr>))"

text \<open>The handlers.\<close>

fun perform :: "('r, 'k) site \<Rightarrow> luck \<Rightarrow> request \<Rightarrow> call \<Rightarrow> ('r, 'k) web \<Rightarrow> nat \<times> ('r, 'k) web" where
  "perform A u rq (Login name password) st =
     (case lu_throttle u of (n1, n2, n3) \<Rightarrow>
        case login (si_auth A) (si_counters A) n1 n2 n3 (lu_salt u) (lu_now u) (lu_text u) rq name password
               (wb_meta st, wb_counters st) of
          (a, m, k) \<Rightarrow>
            ((case a of LoggedIn _ _ _ \<Rightarrow> 200 | Refuse c \<Rightarrow> c), st\<lparr>wb_meta := m, wb_counters := k\<rparr>))"
| "perform A u rq Logout st = (200, st)"
| "perform A u rq WhoAmI st =
     ((case me (si_auth A) (lu_now u) rq (wb_meta st) of Me _ _ _ \<Rightarrow> 200 | MeRefused c \<Rightarrow> c), st)"
| "perform A u rq (Password cur new) st =
     (case change_password (si_auth A) (lu_salt u) (lu_now u) rq cur new (wb_meta st) of
        (c, m) \<Rightarrow> (c, st\<lparr>wb_meta := m\<rparr>))"
| "perform A u rq RouterList st = (200, st)"
| "perform A u rq (RouterAdd b) st = routed A u (Add (lu_text u) b) st"
| "perform A u rq (RouterUpdate i p) st = routed A u (Update (lu_text u) i p) st"
| "perform A u rq (RouterDelete i) st = routed A u (Delete i) st"
| "perform A u rq (Search r) st =
     (case api_search (au_ucd (si_auth A)) (si_fmt A) (si_server A) (lu_dt u) r (wb_ch st) of
        (a, sv) \<Rightarrow> (response_code a, st\<lparr>wb_ch := sv\<rparr>))"
| "perform A u rq (Count r) st =
     (case api_count (au_ucd (si_auth A)) (si_server A) (lu_dt u) r (wb_ch st) of
        (a, sv) \<Rightarrow> (response_code a, st\<lparr>wb_ch := sv\<rparr>))"
| "perform A u rq BrandingGet st = (200, st)"
| "perform A u rq (BrandingSet name) st =
     (case set_branding (au_ucd (si_auth A)) name (wb_meta st) of (c, m) \<Rightarrow> (c, st\<lparr>wb_meta := m\<rparr>))"
| "perform A u rq (LogoUpload body) st =
     (case upload_logo (si_pillow A) (lu_saves u) (lu_removes u) (lu_tok u) body (wb_meta st, wb_logos st) of
        (c, m, files) \<Rightarrow> (c, st\<lparr>wb_meta := m, wb_logos := files\<rparr>))"
| "perform A u rq LogoClear st =
     (case clear_logo (lu_removes u) (wb_meta st, wb_logos st) of
        (c, m, files) \<Rightarrow> (c, st\<lparr>wb_meta := m, wb_logos := files\<rparr>))"
| "perform A u rq (LogoGet name) st =
     ((case serve_logo (wb_logos st) name of Inl c \<Rightarrow> c | Inr _ \<Rightarrow> 200), st)"
| "perform A u rq RetentionGet st =
     ((case get_retention (au_ucd (si_auth A)) (wb_meta st) of Inl _ \<Rightarrow> 500 | Inr _ \<Rightarrow> 200), st)"
| "perform A u rq (RetentionSet hot months) st =
     (case set_retention (si_accepts A) (lu_net u) (si_table A) hot months (wb_meta st, wb_sent st) of
        (c, m, sent) \<Rightarrow> (c, st\<lparr>wb_meta := m, wb_sent := sent\<rparr>))"
| "perform A u rq Health st =
     (case health (lu_net u) (si_server A) (wb_ch st) of (a, sv) \<Rightarrow> (response_code a, st\<lparr>wb_ch := sv\<rparr>))"
| "perform A u rq SystemStatus st =
     (case system_status (si_redis A) (si_server A) (si_queue A) ''nls:inflight:'' (si_db A) (si_tbl A) (lu_status u)
             (lu_gauges u) (lu_host u) (lu_now u) (fst (lu_samples u)) (snd (lu_samples u)) (wb_meta st) (wb_redis st) (wb_ch st, wb_rates st) of
        (a, sv, rates) \<Rightarrow> (response_code a, st\<lparr>wb_ch := sv, wb_rates := rates\<rparr>))"
| "perform A u rq Partitions st =
     (case partitions (si_show A) (si_server A) (si_db A) (si_tbl A) (wb_meta st) (wb_ch st) of
        (a, sv) \<Rightarrow> (response_code a, st\<lparr>wb_ch := sv\<rparr>))"
| "perform A u rq Archives st = (200, st)"
| "perform A u rq MetricsReset st =
     (case reset_metrics (si_redis A) (lu_net u) (wb_redis st) of (c, s) \<Rightarrow> (c, st\<lparr>wb_redis := s\<rparr>))"

definition api :: "('r, 'k) site \<Rightarrow> luck \<Rightarrow> request \<Rightarrow> call \<Rightarrow> ('r, 'k) web \<Rightarrow> nat \<times> ('r, 'k) web" where
  "api A u rq call st =
     (let E = si_auth A
      in case guard_of call of
           Open \<Rightarrow> perform A u rq call st
         | Session \<Rightarrow>
             (case require_user (au_jwt E) (au_cfg E) (lu_now u) rq of
                Inl c \<Rightarrow> (c, st)
              | Inr _ \<Rightarrow> perform A u rq call st)
         | SessionOrigin \<Rightarrow>
             (case guarded (au_jwt E) (au_host_ok E) (au_cfg E) (lu_now u) rq of
                Inl c \<Rightarrow> (c, st)
              | Inr _ \<Rightarrow> perform A u rq call st))"

text \<open>\<open>lifespan\<close>: opening the store creates what is missing, and the allow list is published.\<close>

definition app_start :: "('r, 'k) site \<Rightarrow> net \<Rightarrow> ('r, 'k) web \<Rightarrow> ('r, 'k) web" where
  "app_start A net st =
     (let m = init_schema (wb_meta st)
      in st\<lparr>wb_meta := m, wb_redis := sync_allow_list_startup (si_redis A) net m (wb_redis st)\<rparr>)"

definition serve_all :: "('r, 'k) site \<Rightarrow> (luck \<times> request \<times> call) list \<Rightarrow> ('r, 'k) web \<Rightarrow> ('r, 'k) web" where
  "serve_all A rs st = fold (\<lambda>(u, rq, c) st. snd (api A u rq c st)) rs st"

section \<open>Lemmas\<close>

text \<open>The calls that are meant to change something, and what they may change.\<close>

fun changes :: "call \<Rightarrow> bool" where
  "changes (Login a b) = True"
| "changes (Password a b) = True"
| "changes (RouterAdd b) = True"
| "changes (RouterUpdate i p) = True"
| "changes (RouterDelete i) = True"
| "changes (BrandingSet n) = True"
| "changes (LogoUpload b) = True"
| "changes LogoClear = True"
| "changes (RetentionSet h n) = True"
| "changes MetricsReset = True"
| "changes c = False"

definition core :: "('r, 'k) web \<Rightarrow> meta \<times> 'r \<times> 'k \<times> pystr list \<times> pystr set" where
  "core st = (wb_meta st, wb_redis st, wb_counters st, wb_sent st, wb_logos st)"

lemma read_only: "\<not> changes call \<Longrightarrow> core (snd (perform A u rq call st)) = core st"
  by (cases call) (simp_all add: core_def split: prod.splits)

lemma guarded_changes:
  "changes call \<Longrightarrow> guard_of call = SessionOrigin \<or> (\<exists>a b. call = Login a b) \<or> (\<exists>a b. call = Password a b)"
  by (cases call) auto

lemma routers_kept:
  "enabled_router_ips (set_setting k v m) = enabled_router_ips m"
  "enabled_router_ips (set_password n h m) = enabled_router_ips m"
  "enabled_router_ips (touch_login t n m) = enabled_router_ips m"
  "enabled_router_ips (init_schema m) = enabled_router_ips m"
  by (simp_all add: enabled_router_ips_def set_setting_def set_password_def touch_login_def init_schema_def)

text \<open>Operations of the store that leave its routers alone and its invariant intact.\<close>

definition keeps :: "meta \<Rightarrow> meta \<Rightarrow> bool" where
  "keeps m m' \<longleftrightarrow> enabled_router_ips m' = enabled_router_ips m \<and> (meta_ok m \<longrightarrow> meta_ok m')"

lemma keeps_ops [simp]:
  "keeps m m" "keeps m (set_setting k v m)" "keeps m (set_password n h m)" "keeps m (touch_login t n m)"
  "keeps m (touch_login t n (set_password n' h m))" "keeps m (set_setting k v (set_setting k' v' m))"
  "keeps m (init_schema m)"
  by (simp_all add: keeps_def routers_kept inv_intros)

lemma login_keeps: "login E K n1 n2 n3 salt now t rq name p (m, s) = (a, m', s') \<Longrightarrow> keeps m m'"
  by (auto simp: login_def Let_def split: sum.splits if_splits option.splits)

lemma change_password_keeps: "change_password E salt now rq cur new m = (c, m') \<Longrightarrow> keeps m m'"
  by (auto simp: change_password_def split: sum.splits if_splits option.splits)

lemma set_branding_keeps: "set_branding U name m = (c, m') \<Longrightarrow> keeps m m'"
  by (auto simp: set_branding_def split: if_splits)

lemma upload_logo_keeps: "upload_logo pillow saves removes tok body (m, files) = (c, m', files') \<Longrightarrow> keeps m m'"
  by (auto simp: upload_logo_def Let_def split: if_splits prod.splits sum.splits)

lemma clear_logo_keeps: "clear_logo removes (m, files) = (c, m', files') \<Longrightarrow> keeps m m'"
  by (auto simp: clear_logo_def Let_def)

lemma set_retention_keeps: "set_retention accepts net table h n (m, sent) = (c, m', sent') \<Longrightarrow> keeps m m'"
  by (auto simp: set_retention_def Let_def split: if_splits prod.splits sum.splits)

text \<open>The state the receivers depend on: a sound store, and the cached allow list equal to it.\<close>

definition web_ok :: "('r \<Rightarrow> rkey \<Rightarrow> pystr set) \<Rightarrow> ('r, 'k) web \<Rightarrow> bool" where
  "web_ok S st \<longleftrightarrow> meta_ok (wb_meta st) \<and> S (wb_redis st) ROUTER_SET_KEY = set (enabled_router_ips (wb_meta st))"

lemma web_ok_keeps:
  "web_ok S st \<Longrightarrow> keeps (wb_meta st) (wb_meta st') \<Longrightarrow> wb_redis st' = wb_redis st \<Longrightarrow> web_ok S st'"
  by (simp add: web_ok_def keeps_def)

lemma routed_ok:
  assumes "redis_sets (si_redis A) S" "web_ok S st" "lu_net u \<noteq> Refused"
  shows "web_ok S (snd (routed A u req st))"
proof -
  obtain a m s where r: "router_api (au_ucd (si_auth A)) (si_redis A) (lu_net u) req (wb_meta st, wb_redis st) = (a, m, s)"
    by (metis prod_cases3)
  show ?thesis
    using router_api_effect [OF r] assms(2,3) redis_sets.sync_view [OF assms(1)]
    by (cases "succeeded a") (auto simp: routed_def r web_ok_def)
qed

lemma perform_ok:
  assumes "redis_sets (si_redis A) S" "web_ok S st" "lu_net u \<noteq> Refused"
  shows "web_ok S (snd (perform A u rq call st))"
proof (cases "changes call")
  case False
  then have "core (snd (perform A u rq call st)) = core st" by (rule read_only)
  then show ?thesis using assms(2) by (simp add: core_def web_ok_def)
next
  case True
  have keys: "METRICS_KEY \<noteq> ROUTER_SET_KEY" by (simp add: METRICS_KEY_def ROUTER_SET_KEY_def)
  show ?thesis
  proof (cases call)
    case (Login name p)
    obtain n1 n2 n3 where n: "lu_throttle u = (n1, n2, n3)" by (metis prod_cases3)
    obtain a m k where r: "login (si_auth A) (si_counters A) n1 n2 n3 (lu_salt u) (lu_now u) (lu_text u) rq name p
        (wb_meta st, wb_counters st) = (a, m, k)" by (metis prod_cases3)
    show ?thesis
      by (rule web_ok_keeps [OF assms(2)]) (use login_keeps [OF r] in \<open>simp_all add: Login n r\<close>)
  next
    case (Password cur new)
    obtain c m where r: "change_password (si_auth A) (lu_salt u) (lu_now u) rq cur new (wb_meta st) = (c, m)" by fastforce
    show ?thesis
      by (rule web_ok_keeps [OF assms(2)]) (use change_password_keeps [OF r] in \<open>simp_all add: Password r\<close>)
  next
    case (BrandingSet name)
    obtain c m where r: "set_branding (au_ucd (si_auth A)) name (wb_meta st) = (c, m)" by fastforce
    show ?thesis
      by (rule web_ok_keeps [OF assms(2)]) (use set_branding_keeps [OF r] in \<open>simp_all add: BrandingSet r\<close>)
  next
    case (LogoUpload body)
    obtain c m fs where r: "upload_logo (si_pillow A) (lu_saves u) (lu_removes u) (lu_tok u) body (wb_meta st, wb_logos st)
        = (c, m, fs)" by (metis prod_cases3)
    show ?thesis
      by (rule web_ok_keeps [OF assms(2)]) (use upload_logo_keeps [OF r] in \<open>simp_all add: LogoUpload r\<close>)
  next
    case LogoClear
    obtain c m fs where r: "clear_logo (lu_removes u) (wb_meta st, wb_logos st) = (c, m, fs)" by (metis prod_cases3)
    show ?thesis
      by (rule web_ok_keeps [OF assms(2)]) (use clear_logo_keeps [OF r] in \<open>simp_all add: LogoClear r\<close>)
  next
    case (RetentionSet hot months)
    obtain c m sent where r: "set_retention (si_accepts A) (lu_net u) (si_table A) hot months (wb_meta st, wb_sent st)
        = (c, m, sent)" by (metis prod_cases3)
    show ?thesis
      by (rule web_ok_keeps [OF assms(2)]) (use set_retention_keeps [OF r] in \<open>simp_all add: RetentionSet r\<close>)
  next
    case MetricsReset
    then show ?thesis
      using assms(2) keys redis_sets.sdel_law [OF assms(1)]
      by (cases "lu_net u") (auto simp: web_ok_def reset_metrics_def)
  qed (use True assms routed_ok in auto)
qed

lemma api_cases: "snd (api A u rq call st) = st \<or> snd (api A u rq call st) = snd (perform A u rq call st)"
  by (auto simp: api_def Let_def split: guard.splits sum.splits)

section \<open>Properties\<close>

text \<open>C9 (api_guarded): Over all routes: a request that is not meant to change anything changes nothing shared (the store, Redis, the login counters, ClickHouse, the logo files); without a valid session a request that would change something is answered with 401 and changes nothing, logging in apart; and whatever the session, one that carries the Origin of another site changes nothing either.\<close>

theorem api_guarded:
  assumes "api A u rq call st = (c, st')"
  shows "(\<not> changes call \<longrightarrow> core st' = core st)
    \<and> (changes call \<and> (\<nexists>n p. call = Login n p)
        \<and> require_user (au_jwt (si_auth A)) (au_cfg (si_auth A)) (lu_now u) rq = Inl e
        \<longrightarrow> st' = st \<and> c = 401)
    \<and> (changes call \<and> require_same_origin (au_host_ok (si_auth A)) rq = Inl e
        \<longrightarrow> core st' = core st \<and> c \<in> {401, 403, 500})"
proof -
  have "core st' = core st" if "\<not> changes call"
    using api_cases [of A u rq call st] read_only [OF that, of A u rq st] by (auto simp: assms)
  moreover have "st' = st \<and> c = 401"
    if ch: "changes call" and nl: "\<nexists>n p. call = Login n p"
      and un: "require_user (au_jwt (si_auth A)) (au_cfg (si_auth A)) (lu_now u) rq = Inl e"
  proof -
    have e: "e = 401" using un by (auto simp: require_user_def split: option.splits if_splits)
    consider "guard_of call = SessionOrigin" | cur new where "call = Password cur new" using guarded_changes [OF ch] nl by auto
    then show ?thesis
      using assms un e by cases (auto simp: api_def Let_def guarded_def change_password_def)
  qed
  moreover have "core st' = core st \<and> c \<in> {401, 403, 500}"
    if ch: "changes call" and org: "require_same_origin (au_host_ok (si_auth A)) rq = Inl e"
  proof -
    have e: "e = 403 \<or> e = 500" using org by (auto simp: require_same_origin_def Let_def split: option.splits if_splits sum.splits)
    have g: "\<exists>x. guarded (au_jwt (si_auth A)) (au_host_ok (si_auth A)) (au_cfg (si_auth A)) now rq = Inl x \<and> x \<in> {401, 403, 500}" for now
      using org e by (auto simp: guarded_def require_user_def split: sum.splits option.splits if_splits)
    consider "guard_of call = SessionOrigin" | n p where "call = Login n p" | cur new where "call = Password cur new"
      using guarded_changes [OF ch] by auto
    then show ?thesis
    proof cases
      case 1
      then show ?thesis using assms g [of "lu_now u"] by (auto simp: api_def Let_def)
    next
      case (2 n p)
      obtain n1 n2 n3 where n: "lu_throttle u = (n1, n2, n3)" by (metis prod_cases3)
      show ?thesis using assms org e by (auto simp: 2 n api_def Let_def login_def core_def)
    next
      case (3 cur new)
      then show ?thesis using assms g [of "lu_now u"] by (auto simp: api_def Let_def change_password_def core_def)
    qed
  qed
  ultimately show ?thesis by blast
qed

text \<open>C18 (api_keeps_allow_list): From the start of the application, and through any sequence of requests by anyone, the store stays well-formed and the allow list in Redis stays equal to the enabled routers of the store, as long as the writes to Redis get through; so every refresh of a receiver gives exactly these routers.\<close>

theorem api_keeps_allow_list:
  assumes "redis_sets (si_redis A) S" and "meta_ok (wb_meta st)" and "net \<noteq> Refused"
    and "\<forall>(u, rq, call) \<in> set rs. lu_net u \<noteq> Refused" and "st' = serve_all A rs (app_start A net st)"
  shows "meta_ok (wb_meta st') \<and> S (wb_redis st') ROUTER_SET_KEY = set (enabled_router_ips (wb_meta st'))
    \<and> fst (refresh (si_redis A) Reply (Some (Inr (enabled_router_ips (wb_meta st')))) wr cur (wb_redis st'))
        = set (enabled_router_ips (wb_meta st'))"
proof -
  have start: "sync_allow_list_startup = sync_allow_list"
    by (simp add: fun_eq_iff sync_allow_list_startup_def sync_allow_list_def)
  have "web_ok S (app_start A net st)"
    using assms(2,3) redis_sets.sync_view [OF assms(1)]
    by (simp add: web_ok_def app_start_def Let_def start init_schema_ok)
  then have "web_ok S (serve_all A rs (app_start A net st))"
    using assms(4)
  proof (induction rs arbitrary: st rule: rev_induct)
    case (snoc r rs)
    obtain u rq call where r: "r = (u, rq, call)" by (metis prod_cases3)
    have "web_ok S (serve_all A rs (app_start A net st))" and u: "lu_net u \<noteq> Refused" using snoc r by auto
    then show ?case
      using perform_ok [OF assms(1) _ u] api_cases [of A u rq call "serve_all A rs (app_start A net st)"]
      by (auto simp: serve_all_def r)
  qed (simp add: serve_all_def)
  then show ?thesis
    using redis_sets.refresh_view [OF assms(1)] by (simp add: assms(5) web_ok_def)
qed

text \<open>A small site, and a stranger who wants to delete a router.\<close>

definition demo_site :: "(ref_store, unit) site" where
  "demo_site = \<lparr>si_auth = demo_auth, si_redis = ref_redis,
     si_counters = \<lparr>k_get = (\<lambda>_ _ _. None), k_ttl = (\<lambda>_ _ _. 0), k_incr = (\<lambda>_ _ s. s), k_expire = (\<lambda>_ _ _ s. s), k_del = (\<lambda>_ s. s)\<rparr>,
     si_server = dead_server, si_accepts = (\<lambda>_. True), si_table = [], si_db = [], si_tbl = [],
     si_pillow = (\<lambda>_. None), si_fmt = (\<lambda>_. []), si_show = (\<lambda>_. []), si_queue = ''nls:queue''\<rparr>"

definition demo_luck :: luck where
  "demo_luck = \<lparr>lu_now = 0, lu_text = [], lu_salt = [], lu_throttle = (Reply, Reply, Reply), lu_net = Reply,
     lu_saves = True, lu_removes = True, lu_tok = [], lu_dt = Naive 0,
     lu_status = \<lparr>n_counters = Reply, n_length = Reply, n_info = Reply, n_card = Reply, n_inflight = []\<rparr>,
     lu_samples = (0, 0), lu_gauges = Inl RedisError, lu_host = quiet_host\<rparr>"

definition demo_web :: "(ref_store, unit) web" where
  "demo_web = \<lparr>wb_meta = demo_meta, wb_redis = demo_cached, wb_counters = (), wb_sent = [], wb_logos = {},
     wb_ch = idle_service, wb_rates = []\<rparr>"

theorem api_guarded_witness:
  "api demo_site demo_luck (plain_request ''DELETE'' None) (RouterDelete 1) demo_web = (401, demo_web)"
proof -
  obtain c st' where r: "api demo_site demo_luck (plain_request ''DELETE'' None) (RouterDelete 1) demo_web = (c, st')" by fastforce
  have "require_user (au_jwt (si_auth demo_site)) (au_cfg (si_auth demo_site)) 0 (plain_request ''DELETE'' None) = Inl 401"
    by (simp add: require_user_def plain_request_def)
  then show ?thesis using api_guarded [OF r, of 401] r by (simp add: demo_luck_def)
qed

theorem api_keeps_allow_list_witness:
  "fst (refresh ref_redis Reply (Some (Inr (enabled_router_ips (wb_meta (serve_all demo_site
        [(demo_luck, plain_request ''DELETE'' None, RouterDelete 1)] (app_start demo_site Reply demo_web)))))) Reply {}
      (wb_redis (serve_all demo_site
        [(demo_luck, plain_request ''DELETE'' None, RouterDelete 1)] (app_start demo_site Reply demo_web))))
    = set (enabled_router_ips (wb_meta (serve_all demo_site
        [(demo_luck, plain_request ''DELETE'' None, RouterDelete 1)] (app_start demo_site Reply demo_web))))"
proof -
  let ?rs = "[(demo_luck, plain_request ''DELETE'' None, RouterDelete 1)]"
  have A: "redis_sets (si_redis demo_site) (\<lambda>s. st_sets s)" by (simp add: demo_site_def ref_sets.redis_sets_axioms)
  have "\<forall>(u, rq, call) \<in> set ?rs. lu_net u \<noteq> Refused" by (simp add: demo_luck_def)
  then show ?thesis
    using api_keeps_allow_list [OF A _ _ _ refl, of demo_web Reply ?rs Reply "{}"] demo_meta_ok
    by (simp add: demo_web_def demo_site_def)
qed

end
