(* ===== verification/Http_Edge.thy ===== *)
theory Http_Edge
  imports Web_Api
begin

text \<open>
  The edge of the web application: the headers that the middleware of \<open>backend/app/api/app.py\<close> puts on
  answers, the session cookie of \<open>auth_api.py\<close>, and the browsers that keep it. Browsers are a
  parameter, with what is documented of their handling of cookies as the locale \<open>cookie_browser\<close>.
\<close>

section \<open>Answers\<close>

record cookie =
  ck_name :: pystr
  ck_value :: pystr
  ck_max_age :: int
  ck_http_only :: bool
  ck_same_site :: string
  ck_secure :: bool
  ck_path :: pystr

record http_answer =
  ha_code :: nat
  ha_headers :: "(string, pystr) pydict"
  ha_cookies :: "cookie list"

definition quoted :: "string \<Rightarrow> pystr" where "quoted t = [39] @ lit t @ [39]"

definition CSP :: pystr where
  "CSP = lit ''default-src '' @ quoted ''self'' @ lit ''; img-src '' @ quoted ''self'' @ lit '' data:; style-src ''
     @ quoted ''self'' @ lit '' '' @ quoted ''unsafe-inline'' @ lit ''; script-src '' @ quoted ''self''
     @ lit ''; connect-src '' @ quoted ''self'' @ lit ''; frame-ancestors '' @ quoted ''none''
     @ lit ''; base-uri '' @ quoted ''none'' @ lit ''; form-action '' @ quoted ''self''"

text \<open>The paths under which \<open>create_app\<close> mounts the routes.\<close>

fun path_of :: "call \<Rightarrow> pystr" where
  "path_of (Login name p) = lit ''/api/auth/login''"
| "path_of Logout = lit ''/api/auth/logout''"
| "path_of WhoAmI = lit ''/api/auth/me''"
| "path_of (Password cur new) = lit ''/api/auth/password''"
| "path_of RouterList = lit ''/api/routers''"
| "path_of (RouterAdd b) = lit ''/api/routers''"
| "path_of (RouterUpdate i p) = lit ''/api/routers/'' @ py_str_int i"
| "path_of (RouterDelete i) = lit ''/api/routers/'' @ py_str_int i"
| "path_of (Search r) = lit ''/api/search''"
| "path_of (Count r) = lit ''/api/search/count''"
| "path_of BrandingGet = lit ''/api/settings/branding''"
| "path_of (BrandingSet name) = lit ''/api/settings/branding''"
| "path_of (LogoUpload b) = lit ''/api/settings/logo''"
| "path_of LogoClear = lit ''/api/settings/logo''"
| "path_of (LogoGet name) = lit ''/api/settings/logo/'' @ name"
| "path_of RetentionGet = lit ''/api/settings/retention''"
| "path_of (RetentionSet h n) = lit ''/api/settings/retention''"
| "path_of Health = lit ''/api/health''"
| "path_of SystemStatus = lit ''/api/system/status''"
| "path_of Partitions = lit ''/api/system/partitions''"
| "path_of Archives = lit ''/api/system/archives''"
| "path_of MetricsReset = lit ''/api/system/metrics/reset''"

definition security_headers :: "pystr \<Rightarrow> (string, pystr) pydict \<Rightarrow> (string, pystr) pydict" where
  "security_headers path h =
     (let h = dict_set h ''X-Content-Type-Options'' (lit ''nosniff'');
          h = dict_set h ''X-Frame-Options'' (lit ''DENY'');
          h = dict_set h ''Referrer-Policy'' (lit ''same-origin'');
          h = dict_set h ''Content-Security-Policy'' CSP;
          h = dict_set h ''Permissions-Policy'' (lit ''geolocation=(), microphone=(), camera=()'')
      in if py_startswith path (lit ''/api/'') then dict_set h ''Cache-Control'' (lit ''no-store'') else h)"

text \<open>What the handlers set themselves: the caching of a logo and the session cookie.\<close>

definition logo_headers :: "(string, pystr) pydict" where
  "logo_headers = [(''Cache-Control'', lit ''public, max-age=300'')]"

definition own_headers :: "call \<Rightarrow> nat \<Rightarrow> (string, pystr) pydict" where
  "own_headers call code = (case call of LogoGet name \<Rightarrow> if code = 200 then logo_headers else [] | _ \<Rightarrow> [])"

definition session_cookie :: "bool \<Rightarrow> auth_cfg \<Rightarrow> pystr \<Rightarrow> cookie" where
  "session_cookie secure cfg token =
     \<lparr>ck_name = cookie_name cfg, ck_value = token, ck_max_age = session_hours cfg * 3600,
      ck_http_only = True, ck_same_site = ''strict'', ck_secure = secure, ck_path = lit ''/''\<rparr>"

text \<open>\<open>delete_cookie\<close> sends an empty cookie whose lifetime is over.\<close>

definition logout_cookie :: "auth_cfg \<Rightarrow> cookie" where
  "logout_cookie cfg =
     \<lparr>ck_name = cookie_name cfg, ck_value = [], ck_max_age = 0,
      ck_http_only = False, ck_same_site = ''lax'', ck_secure = False, ck_path = lit ''/''\<rparr>"

definition login_call :: "('r, 'k) site \<Rightarrow> luck \<Rightarrow> request \<Rightarrow> pystr \<Rightarrow> pystr \<Rightarrow> ('r, 'k) web \<Rightarrow> login_answer" where
  "login_call A u rq name password st =
     (case lu_throttle u of (n1, n2, n3) \<Rightarrow>
        fst (login (si_auth A) (si_counters A) n1 n2 n3 (lu_salt u) (lu_now u) (lu_text u) rq name password
              (wb_meta st, wb_counters st)))"

definition own_cookies ::
    "('r, 'k) site \<Rightarrow> bool \<Rightarrow> luck \<Rightarrow> request \<Rightarrow> call \<Rightarrow> ('r, 'k) web \<Rightarrow> cookie list" where
  "own_cookies A secure u rq call st =
     (case call of
        Login name password \<Rightarrow>
          (case login_call A u rq name password st of
             LoggedIn user must token \<Rightarrow> [session_cookie secure (au_cfg (si_auth A)) token]
           | Refuse c \<Rightarrow> [])
      | Logout \<Rightarrow> [logout_cookie (au_cfg (si_auth A))]
      | _ \<Rightarrow> [])"

text \<open>
  The middleware sees the answers of the routes. An error that no handler catches passes it by: the
  handler for 500 runs in the framework's outermost layer, outside of the middleware.
\<close>

definition internal_error :: http_answer where
  "internal_error = \<lparr>ha_code = 500, ha_headers = [], ha_cookies = []\<rparr>"

definition respond ::
    "('r, 'k) site \<Rightarrow> bool \<Rightarrow> luck \<Rightarrow> request \<Rightarrow> call \<Rightarrow> ('r, 'k) web \<Rightarrow> http_answer \<times> ('r, 'k) web" where
  "respond A secure u rq call st =
     (case api A u rq call st of
        (code, st') \<Rightarrow>
          (if code = 500 then internal_error
           else \<lparr>ha_code = code, ha_headers = security_headers (path_of call) (own_headers call code),
                 ha_cookies = own_cookies A secure u rq call st\<rparr>, st'))"

section \<open>Browsers\<close>

text \<open>
  A browser keeps the cookies of an answer and sends what it holds with a request; \<open>cross\<close> says
  that another site started the request. \<open>held\<close> is what a jar holds under a name.
\<close>

record kept =
  kc_value :: pystr
  kc_until :: int
  kc_same_site :: string

record 'j browser =
  br_keep :: "bool \<Rightarrow> int \<Rightarrow> cookie \<Rightarrow> 'j \<Rightarrow> 'j"
  br_send :: "bool \<Rightarrow> int \<Rightarrow> 'j \<Rightarrow> pystr \<Rightarrow> pystr option"

definition as_kept :: "int \<Rightarrow> cookie \<Rightarrow> kept" where
  "as_kept now ck =
     \<lparr>kc_value = ck_value ck, kc_until = now + ck_max_age ck, kc_same_site = ck_same_site ck\<rparr>"

text \<open>
  What is documented of every browser: it may forget, but a cookie it holds was set under that name and not
  replaced since; a lifetime that is over removes the cookie, \<open>Secure\<close> cookies are taken over HTTPS
  only, and one with \<open>SameSite=strict\<close> stays away from requests of other sites.
\<close>

locale cookie_browser =
  fixes B :: "'j browser" and held :: "'j \<Rightarrow> pystr \<Rightarrow> kept option"
  assumes keep_law: "held (br_keep B https now ck j) n = Some k \<Longrightarrow>
      (if n = ck_name ck \<and> (ck_secure ck \<longrightarrow> https) then 0 < ck_max_age ck \<and> k = as_kept now ck else held j n = Some k)"
    and send_law: "br_send B cross now j n = Some v \<Longrightarrow>
      \<exists>k. held j n = Some k \<and> v = kc_value k \<and> now < kc_until k \<and> \<not> (cross \<and> kc_same_site k = ''strict'')"

text \<open>A browser that forgets nothing before its time.\<close>

locale keeping_browser = cookie_browser B held
  for B :: "'j browser" and held :: "'j \<Rightarrow> pystr \<Rightarrow> kept option" +
  assumes keeps_law: "0 < ck_max_age ck \<Longrightarrow> (ck_secure ck \<longrightarrow> https) \<Longrightarrow>
      held (br_keep B https now ck j) (ck_name ck) = Some (as_kept now ck)"
    and sends_law: "held j n = Some k \<Longrightarrow> now < kc_until k \<Longrightarrow> \<not> cross \<Longrightarrow> br_send B cross now j n = Some (kc_value k)"

definition browser_sends :: "'j browser \<Rightarrow> bool \<Rightarrow> int \<Rightarrow> 'j \<Rightarrow> request \<Rightarrow> request" where
  "browser_sends B cross now jar rq = rq\<lparr>rq_cookies := br_send B cross now jar\<rparr>"

definition visit ::
    "('r, 'k) site \<Rightarrow> 'j browser \<Rightarrow> bool \<Rightarrow> bool \<Rightarrow> bool \<Rightarrow> luck \<Rightarrow> request \<Rightarrow> call \<Rightarrow> ('r, 'k) web \<times> 'j
      \<Rightarrow> http_answer \<times> ('r, 'k) web \<times> 'j" where
  "visit A B secure https cross u rq call x =
     (let (st, jar) = x
      in case respond A secure u (browser_sends B cross (lu_now u) jar rq) call st of
           (a, st') \<Rightarrow> (a, st', fold (br_keep B https (lu_now u)) (ha_cookies a) jar))"

text \<open>
  A stretch of browsing: visits of this browser, and anything that others do to the server in between.
  The visits are recorded, oldest first.
\<close>

record visited =
  vs_luck :: luck
  vs_call :: call
  vs_code :: nat

inductive browsing ::
    "('r, 'k) site \<Rightarrow> 'j browser \<Rightarrow> bool \<Rightarrow> bool \<Rightarrow> visited list \<Rightarrow> ('r, 'k) web \<times> 'j \<Rightarrow> ('r, 'k) web \<times> 'j \<Rightarrow> bool"
  for A :: "('r, 'k) site" and B :: "'j browser" and secure :: bool and https :: bool where
  start: "browsing A B secure https [] x x"
| others: "browsing A B secure https tr x (st, jar) \<Longrightarrow> browsing A B secure https tr x (st', jar)"
| own: "browsing A B secure https tr x (st, jar) \<Longrightarrow> visit A B secure https cross u rq call (st, jar) = (a, st', jar') \<Longrightarrow>
    browsing A B secure https (tr @ [\<lparr>vs_luck = u, vs_call = call, vs_code = ha_code a\<rparr>]) x (st', jar')"

text \<open>The last visit that moved the session cookie was a successful login as this user.\<close>

definition logged_in :: "visited list \<Rightarrow> pystr \<Rightarrow> int \<Rightarrow> bool" where
  "logged_in tr name t \<longleftrightarrow>
     (\<exists>tr1 v tr2 password. tr = tr1 @ v # tr2 \<and> vs_call v = Login name password \<and> vs_code v = 200
       \<and> lu_now (vs_luck v) = t \<and> (\<forall>v' \<in> set tr2. vs_call v' \<noteq> Logout))"

section \<open>Lemmas\<close>

lemma security_headers_get:
  "map_of (security_headers path h) name =
     (if name = ''X-Content-Type-Options'' then Some (lit ''nosniff'')
      else if name = ''X-Frame-Options'' then Some (lit ''DENY'')
      else if name = ''Referrer-Policy'' then Some (lit ''same-origin'')
      else if name = ''Content-Security-Policy'' then Some CSP
      else if name = ''Permissions-Policy'' then Some (lit ''geolocation=(), microphone=(), camera=()'')
      else if name = ''Cache-Control'' \<and> py_startswith path (lit ''/api/'') then Some (lit ''no-store'')
      else map_of h name)"
  by (simp add: security_headers_def Let_def)

lemma api_paths: "py_startswith (path_of call) (lit ''/api/'')"
  by (cases call) (simp_all add: lit_def)

lemma login_refuses: "login_call A u rq name password st = Refuse c \<Longrightarrow> c \<in> {401, 403, 422, 429, 500}"
  by (auto simp: login_call_def login_def require_same_origin_def Let_def
      split: prod.splits sum.splits if_splits option.splits)

lemma login_code:
  "fst (api A u rq (Login name password) st) =
     (case login_call A u rq name password st of LoggedIn user must token \<Rightarrow> 200 | Refuse c \<Rightarrow> c)"
  by (simp add: api_def login_call_def split: prod.splits)

lemma login_call_in:
  assumes "login_call A u rq name password st = LoggedIn user must token"
  shows "user = name \<and> token = issue (au_jwt (si_auth A)) (secret_key (au_cfg (si_auth A))) name
      (session_hours (au_cfg (si_auth A))) 0 (lu_now u)
    \<and> fst (api A u rq (Login name password) st) = 200"
proof -
  obtain n1 n2 n3 where n: "lu_throttle u = (n1, n2, n3)" by (metis prod_cases3)
  obtain a m k where l: "login (si_auth A) (si_counters A) n1 n2 n3 (lu_salt u) (lu_now u) (lu_text u) rq name password
      (wb_meta st, wb_counters st) = (a, m, k)" by (metis prod_cases3)
  have a: "a = LoggedIn user must token" using assms by (simp add: login_call_def n l)
  have "user = name \<and> token = issue (au_jwt (si_auth A)) (secret_key (au_cfg (si_auth A))) name
      (session_hours (au_cfg (si_auth A))) 0 (lu_now u)"
    using l unfolding a login_def
    by (auto simp: Let_def get_user_def find_Some_iff split: sum.splits if_splits option.splits)
  then show ?thesis by (simp add: api_def n l a)
qed

lemma session_cookie_fields [simp]:
  "ck_name (session_cookie secure cfg t) = cookie_name cfg" "ck_secure (session_cookie secure cfg t) = secure"
  "ck_max_age (session_cookie secure cfg t) = session_hours cfg * 3600"
  "as_kept now (session_cookie secure cfg t)
    = \<lparr>kc_value = t, kc_until = now + session_hours cfg * 3600, kc_same_site = ''strict''\<rparr>"
  "ck_name (logout_cookie cfg) = cookie_name cfg" "\<not> ck_secure (logout_cookie cfg)" "ck_max_age (logout_cookie cfg) = 0"
  by (simp_all add: session_cookie_def logout_cookie_def as_kept_def)

text \<open>The cookies of an answer: at most one, the session's, which only a login or a logout sets.\<close>

lemma respond_cookies:
  assumes "respond A secure u rq call st = (a, st')"
  shows "(\<exists>name password. call = Login name password \<and> ha_code a = 200
      \<and> ha_cookies a = [session_cookie secure (au_cfg (si_auth A))
          (issue (au_jwt (si_auth A)) (secret_key (au_cfg (si_auth A))) name (session_hours (au_cfg (si_auth A))) 0 (lu_now u))])
    \<or> call = Logout \<and> ha_cookies a = [logout_cookie (au_cfg (si_auth A))]
    \<or> call \<noteq> Logout \<and> ha_cookies a = []"
proof -
  obtain c s where r: "api A u rq call st = (c, s)" by fastforce
  show ?thesis
  proof (cases call)
    case (Login name password)
    show ?thesis
    proof (cases "login_call A u rq name password st")
      case (LoggedIn user must token)
      note ok = login_call_in [OF LoggedIn]
      then have "c = 200" using r Login by simp
      then show ?thesis using assms r ok LoggedIn by (auto simp: Login respond_def own_cookies_def)
    qed (use assms r in \<open>auto simp: Login respond_def own_cookies_def internal_error_def split: if_splits\<close>)
  next
    case Logout
    then have "c = 200" using r by (simp add: api_def)
    then show ?thesis using assms r by (auto simp: Logout respond_def own_cookies_def)
  qed (use assms r in \<open>auto simp: respond_def own_cookies_def internal_error_def split: if_splits\<close>)
qed

lemma login_answered:
  assumes "respond A secure u rq (Login name password) st = (a, st')" "ha_code a = 200"
  shows "ha_cookies a = [session_cookie secure (au_cfg (si_auth A))
      (issue (au_jwt (si_auth A)) (secret_key (au_cfg (si_auth A))) name (session_hours (au_cfg (si_auth A))) 0 (lu_now u))]"
proof -
  obtain c s where r: "api A u rq (Login name password) st = (c, s)" by fastforce
  then have c: "c = 200" using assms by (auto simp: respond_def internal_error_def split: if_splits)
  then obtain user must token where l: "login_call A u rq name password st = LoggedIn user must token"
    using login_code [of A u rq name password st] r login_refuses [of A u rq name password st]
    by (cases "login_call A u rq name password st") auto
  show ?thesis using assms r c l login_call_in [OF l] by (auto simp: respond_def own_cookies_def)
qed

lemma logged_in_snoc:
  "logged_in tr name t \<Longrightarrow> vs_call v \<noteq> Logout \<Longrightarrow> logged_in (tr @ [v]) name t"
  "vs_call v = Login name password \<Longrightarrow> vs_code v = 200 \<Longrightarrow> logged_in (tr @ [v]) name (lu_now (vs_luck v))"
proof -
  assume "logged_in tr name t" "vs_call v \<noteq> Logout"
  then obtain tr1 w tr2 p where "tr = tr1 @ w # tr2" "vs_call w = Login name p" "vs_code w = 200"
    "lu_now (vs_luck w) = t" "\<forall>v' \<in> set tr2. vs_call v' \<noteq> Logout"
    unfolding logged_in_def by blast
  then show "logged_in (tr @ [v]) name t"
    unfolding logged_in_def using \<open>vs_call v \<noteq> Logout\<close>
    by (intro exI [of _ tr1] exI [of _ w] exI [of _ "tr2 @ [v]"] exI [of _ p]) auto
next
  assume "vs_call v = Login name password" "vs_code v = 200"
  then show "logged_in (tr @ [v]) name (lu_now (vs_luck v))"
    unfolding logged_in_def by (intro exI [of _ tr] exI [of _ v] exI [of _ "[]"] exI [of _ password]) simp
qed

text \<open>The session cookie of a browser that started without one was set by a login of its own.\<close>

context cookie_browser
begin

definition cookie_traced :: "('r, 'k) site \<Rightarrow> visited list \<Rightarrow> 'j \<Rightarrow> bool" where
  "cookie_traced A tr jar \<longleftrightarrow>
     (\<forall>k. held jar (cookie_name (au_cfg (si_auth A))) = Some k \<longrightarrow>
       (\<exists>name t. logged_in tr name t \<and> kc_same_site k = ''strict''
          \<and> kc_value k = issue (au_jwt (si_auth A)) (secret_key (au_cfg (si_auth A))) name
              (session_hours (au_cfg (si_auth A))) 0 t))"

lemma visit_traced:
  assumes "visit A B secure https cross u rq call (st, jar) = (a, st', jar')" "cookie_traced A tr jar"
  shows "cookie_traced A (tr @ [\<lparr>vs_luck = u, vs_call = call, vs_code = ha_code a\<rparr>]) jar'"
proof -
  let ?v = "\<lparr>vs_luck = u, vs_call = call, vs_code = ha_code a\<rparr>" and ?cfg = "au_cfg (si_auth A)"
  have r: "respond A secure u (browser_sends B cross (lu_now u) jar rq) call st = (a, st')"
    and jar': "jar' = fold (br_keep B https (lu_now u)) (ha_cookies a) jar"
    using assms(1) by (auto simp: visit_def split: prod.splits)
  have on: "logged_in tr name t \<Longrightarrow> call \<noteq> Logout \<Longrightarrow> logged_in (tr @ [?v]) name t" for name t
    using logged_in_snoc(1) [of tr name t ?v] by simp
  from respond_cookies [OF r] show ?thesis
  proof (elim disjE exE conjE)
    fix name password
    let ?tok = "issue (au_jwt (si_auth A)) (secret_key ?cfg) name (session_hours ?cfg) 0 (lu_now u)"
    assume call: "call = Login name password" "ha_code a = 200" "ha_cookies a = [session_cookie secure ?cfg ?tok]"
    have "logged_in (tr @ [?v]) name (lu_now u)" using logged_in_snoc(2) [of ?v name password tr] call by simp
    moreover have "held jar' (cookie_name ?cfg) = Some k \<Longrightarrow> held jar (cookie_name ?cfg) = Some k \<or>
        k = \<lparr>kc_value = ?tok, kc_until = lu_now u + session_hours ?cfg * 3600, kc_same_site = ''strict''\<rparr>" for k
      using keep_law [of https "lu_now u" "session_cookie secure ?cfg ?tok" jar "cookie_name ?cfg" k] jar' call(3)
      by (auto split: if_splits)
    moreover have "call \<noteq> Logout" using call by simp
    ultimately show ?thesis using assms(2) on unfolding cookie_traced_def by fastforce
  next
    assume "call = Logout" "ha_cookies a = [logout_cookie ?cfg]"
    then have "held jar' (cookie_name ?cfg) \<noteq> Some k" for k
      using keep_law [of https "lu_now u" "logout_cookie ?cfg" jar "cookie_name ?cfg" k] jar' by auto
    then show ?thesis by (simp add: cookie_traced_def)
  next
    assume "call \<noteq> Logout" "ha_cookies a = []"
    then show ?thesis using assms(2) on jar' unfolding cookie_traced_def by fastforce
  qed
qed

lemma browsing_traced:
  assumes "browsing A B secure https tr x y" "held (snd x) (cookie_name (au_cfg (si_auth A))) = None"
  shows "cookie_traced A tr (snd y)"
  using assms
proof (induction rule: browsing.induct)
  case (own tr x st jar cross u rq call a st' jar')
  then show ?case using visit_traced [OF own(2)] by simp
qed (simp_all add: cookie_traced_def)

lemma sends_held:
  assumes "require_user J cfg now (browser_sends B cross now jar rq) = Inr name"
  shows "\<exists>k. held jar (cookie_name cfg) = Some k \<and> br_send B cross now jar (cookie_name cfg) = Some (kc_value k)
    \<and> \<not> (cross \<and> kc_same_site k = ''strict'')"
proof -
  obtain v where v: "br_send B cross now jar (cookie_name cfg) = Some v"
    using assms by (auto simp: require_user_def browser_sends_def split: option.splits)
  then show ?thesis using send_law [OF v] by auto
qed

lemma sends_nothing:
  "held jar (cookie_name cfg) = None \<Longrightarrow> require_user J cfg now (browser_sends B cross now jar rq) = Inl 401"
  using send_law [of cross now jar "cookie_name cfg"]
  by (cases "br_send B cross now jar (cookie_name cfg)") (auto simp: require_user_def browser_sends_def)

end

text \<open>A browser whose jar is a map.\<close>

type_synonym jar = "pystr \<Rightarrow> kept option"

definition map_browser :: "jar browser" where
  "map_browser =
     \<lparr>br_keep = (\<lambda>https now ck jar.
        if ck_secure ck \<and> \<not> https then jar
        else if ck_max_age ck \<le> 0 then jar(ck_name ck := None) else jar(ck_name ck \<mapsto> as_kept now ck)),
      br_send = (\<lambda>cross now jar n.
        case jar n of
          None \<Rightarrow> None
        | Some k \<Rightarrow> if now < kc_until k \<and> \<not> (cross \<and> kc_same_site k = ''strict'') then Some (kc_value k) else None)\<rparr>"

interpretation map_browser: keeping_browser map_browser "\<lambda>jar. jar"
  by unfold_locales (auto simp: map_browser_def split: if_splits option.splits)

section \<open>Properties\<close>

text \<open>C16 (session_traceback): Whoever a browser acts as, it has logged in as: when a request of a browser that began without a session is let through as a user, then among its earlier visits is a login as this user that was answered with 200, it has not signed out since, the session of that login has begun and is not over, and the request was not started by another site; whatever others have done to the server in between.\<close>

theorem session_traceback:
  assumes "cookie_browser B held" and "jwt_lib (au_jwt (si_auth A))" and "browsing A B secure https tr (st0, jar0) (st, jar)"
    and "held jar0 (cookie_name (au_cfg (si_auth A))) = None"
    and "require_user (au_jwt (si_auth A)) (au_cfg (si_auth A)) now (browser_sends B cross now jar rq) = Inr name"
  shows "\<exists>t. logged_in tr name t \<and> t \<le> now \<and> now < t + session_hours (au_cfg (si_auth A)) * 3600 \<and> \<not> cross"
proof -
  let ?cfg = "au_cfg (si_auth A)" and ?J = "au_jwt (si_auth A)"
  obtain k where k: "held jar (cookie_name ?cfg) = Some k"
    "br_send B cross now jar (cookie_name ?cfg) = Some (kc_value k)" "\<not> (cross \<and> kc_same_site k = ''strict'')"
    using cookie_browser.sends_held [OF assms(1,5)] by blast
  then obtain n t where n: "logged_in tr n t" "kc_same_site k = ''strict''"
    "kc_value k = issue ?J (secret_key ?cfg) n (session_hours ?cfg) 0 t"
    using cookie_browser.browsing_traced [OF assms(1,3)] assms(4)
    by (auto simp: cookie_browser.cookie_traced_def [OF assms(1)])
  have "rq_cookies (browser_sends B cross now jar rq) (cookie_name ?cfg)
      = Some (issue ?J (secret_key ?cfg) n (session_hours ?cfg) 0 t)"
    using k n by (simp add: browser_sends_def)
  from jwt_lib.require_user_issued [OF assms(2) this] assms(5) n k(3)
  show ?thesis by (auto split: if_splits)
qed

text \<open>A browser that signs in, and the same browser as another site uses it.\<close>

definition edge_web :: "(ref_store, unit) web" where
  "edge_web = demo_web\<lparr>wb_meta := demo_admin\<rparr>"

lemma edge_login:
  "login_call demo_site demo_luck (browser_sends map_browser False 0 (\<lambda>_. None) (plain_request ''POST'' None)) (lit ''admin'')
     (lit ''Correct-Horse-1'') edge_web
   = LoggedIn (lit ''admin'') True (issue number_jwt (secret_key demo_auth_cfg) (lit ''admin'') 12 0 0)"
proof -
  let ?rq = "browser_sends map_browser False 0 (\<lambda>_. None) (plain_request ''POST'' None)"
  have ip: "client_ip ascii_only ?rq = lit ''10.0.0.9''" by code_simp
  have "fst (throttle_check (si_counters demo_site) (login_throttle demo_auth_cfg) Reply Reply (lit ''admin'')
      (lit ''10.0.0.9'') 0 ())"
    by (simp add: throttle_check_def demo_site_def Let_def)
  moreover have "require_same_origin (\<lambda>_. True) ?rq = Inr ()"
    by (simp add: require_same_origin_def browser_sends_def plain_request_def SAFE_METHODS_def)
  moreover have "length (lit ''admin'') = 5" "length (lit ''Correct-Horse-1'') = 15" by (simp_all add: lit_def)
  ultimately show ?thesis
    by (simp add: login_call_def login_def demo_luck_def demo_site_def demo_auth_def edge_web_def demo_web_def ip demo_user [simplified]
        Let_def verify_password_def plain_argon_def needs_rehash_def)
       (simp add: demo_auth_cfg_def)
qed

definition edge_jar :: jar where
  "edge_jar = [cookie_name demo_auth_cfg \<mapsto>
     \<lparr>kc_value = issue number_jwt (secret_key demo_auth_cfg) (lit ''admin'') 12 0 0, kc_until = 43200, kc_same_site = ''strict''\<rparr>]"

definition edge_visit :: visited where
  "edge_visit = \<lparr>vs_luck = demo_luck, vs_call = Login (lit ''admin'') (lit ''Correct-Horse-1''), vs_code = 200\<rparr>"

lemma edge_browsing:
  "\<exists>st. browsing demo_site map_browser False False [edge_visit] (edge_web, \<lambda>_. None) (st, edge_jar)"
proof -
  let ?call = "Login (lit ''admin'') (lit ''Correct-Horse-1'')"
  have now: "lu_now demo_luck = 0" by (simp add: demo_luck_def)
  have hours: "session_hours demo_auth_cfg = 12" "si_auth demo_site = demo_auth" "au_cfg demo_auth = demo_auth_cfg"
    by (simp_all add: demo_auth_cfg_def demo_site_def demo_auth_def)
  obtain c st where r: "api demo_site demo_luck (browser_sends map_browser False 0 (\<lambda>_. None) (plain_request ''POST'' None)) ?call edge_web
      = (c, st)" by fastforce
  then have c: "c = 200" using login_call_in [OF edge_login] by simp
  obtain a where "visit demo_site map_browser False False False demo_luck (plain_request ''POST'' None) ?call (edge_web, \<lambda>_. None)
      = (a, st, edge_jar)" "ha_code a = 200"
    using r c edge_login
    by (simp add: visit_def respond_def now own_cookies_def map_browser_def hours edge_jar_def Let_def)
  then have "browsing demo_site map_browser False False ([] @ [\<lparr>vs_luck = demo_luck, vs_call = ?call, vs_code = ha_code a\<rparr>])
      (edge_web, \<lambda>_. None) (st, edge_jar)"
    by (intro own [OF start])
  then show ?thesis using \<open>ha_code a = 200\<close> by (auto simp: edge_visit_def)
qed

theorem session_traceback_witness:
  "\<exists>t. logged_in [edge_visit] (lit ''admin'') t \<and> t \<le> 1000 \<and> 1000 < t + 12 * 3600"
proof -
  obtain st where run: "browsing demo_site map_browser False False [edge_visit] (edge_web, \<lambda>_. None) (st, edge_jar)"
    using edge_browsing by blast
  have J: "jwt_lib (au_jwt (si_auth demo_site))"
    by (simp add: demo_site_def demo_auth_def number_jwt.jwt_lib_axioms)
  have cfg: "au_cfg (si_auth demo_site) = demo_auth_cfg" "au_jwt (si_auth demo_site) = number_jwt"
    by (simp_all add: demo_site_def demo_auth_def)
  have "rq_cookies (browser_sends map_browser False 1000 edge_jar (plain_request ''GET'' None)) (cookie_name demo_auth_cfg)
      = Some (issue number_jwt (secret_key demo_auth_cfg) (lit ''admin'') 12 0 0)"
    by (simp add: browser_sends_def map_browser_def edge_jar_def)
  from number_jwt.require_user_issued [OF this, of 1000]
  have "require_user number_jwt demo_auth_cfg 1000 (browser_sends map_browser False 1000 edge_jar (plain_request ''GET'' None))
      = Inr (lit ''admin'')" by simp
  then show ?thesis
    using session_traceback [OF map_browser.cookie_browser_axioms J run, of 1000 False "plain_request ''GET'' None" "lit ''admin''"] cfg
    by (simp add: demo_auth_cfg_def)
qed

text \<open>Also (browser_session): A login answered with 200 opens a session in the browser that lasts exactly its hours: requests of the own site are let through as this user from then until the session is over, requests that other sites start are refused with 401, and after signing out every request is, although the server forgets nothing; with cookie_secure set and no HTTPS the browser never gets a session, in spite of the 200.\<close>

theorem browser_session:
  assumes "keeping_browser B held" and "jwt_lib (au_jwt (si_auth A))" and "cfg = au_cfg (si_auth A)" and "0 < session_hours cfg"
    and "held jar (cookie_name cfg) = None"
    and "visit A B secure https cross u rq (Login name password) (st, jar) = (a, st', jar')" and "ha_code a = 200"
    and "visit A B secure https cross2 u2 rq2 Logout (st2, jar') = (a2, st3, jar2)"
  shows "require_user (au_jwt (si_auth A)) cfg now (browser_sends B other now jar' rq1)
      = (if lu_now u \<le> now \<and> now < lu_now u + session_hours cfg * 3600 \<and> (secure \<longrightarrow> https) \<and> \<not> other
         then Inr name else Inl 401)
    \<and> require_user (au_jwt (si_auth A)) cfg now (browser_sends B other now jar2 rq1) = Inl 401"
proof -
  let ?J = "au_jwt (si_auth A)" and ?n = "cookie_name cfg"
  let ?tok = "issue ?J (secret_key cfg) name (session_hours cfg) 0 (lu_now u)"
  let ?ck = "session_cookie secure cfg ?tok" and ?rq = "browser_sends B other now jar' rq1"
  let ?k = "\<lparr>kc_value = ?tok, kc_until = lu_now u + session_hours cfg * 3600, kc_same_site = ''strict''\<rparr>"
  note B = keeping_browser.axioms(1) [OF assms(1)]
  have r: "respond A secure u (browser_sends B cross (lu_now u) jar rq) (Login name password) st = (a, st')"
    using assms(6) by (auto simp: visit_def split: prod.splits)
  have jar': "jar' = br_keep B https (lu_now u) ?ck jar"
    using assms(3,6) login_answered [OF r assms(7)] by (auto simp: visit_def split: prod.splits)
  obtain s2 where "respond A secure u2 (browser_sends B cross2 (lu_now u2) jar' rq2) Logout st2 = (a2, s2)"
    "jar2 = fold (br_keep B https (lu_now u2)) (ha_cookies a2) jar'"
    using assms(8) by (auto simp: visit_def split: prod.splits)
  then have "jar2 = br_keep B https (lu_now u2) (logout_cookie cfg) jar'"
    using respond_cookies assms(3) by fastforce
  then have "held jar2 ?n \<noteq> Some k" for k
    using cookie_browser.keep_law [OF B, of https "lu_now u2" "logout_cookie cfg" jar' ?n k] by auto
  then have out: "require_user ?J cfg now (browser_sends B other now jar2 rq1) = Inl 401"
    using cookie_browser.sends_nothing [OF B] by blast
  show ?thesis
  proof (cases "secure \<longrightarrow> https")
    case False
    then have "held jar' ?n \<noteq> Some k" for k
      using cookie_browser.keep_law [OF B, of https "lu_now u" ?ck jar ?n k] jar' assms(5) by auto
    then show ?thesis using cookie_browser.sends_nothing [OF B] out False by (metis not_Some_eq)
  next
    case True
    then have k: "held jar' ?n = Some ?k"
      using keeping_browser.keeps_law [OF assms(1), of ?ck https "lu_now u" jar] jar' assms(4) by simp
    show ?thesis
    proof (cases "now < lu_now u + session_hours cfg * 3600 \<and> \<not> other")
      case live: True
      then have "rq_cookies ?rq ?n = Some ?tok"
        using keeping_browser.sends_law [OF assms(1) k, of now other] by (simp add: browser_sends_def)
      from jwt_lib.require_user_issued [OF assms(2) this, of now] show ?thesis using live True out by simp
    next
      case False
      have "br_send B other now jar' ?n = None"
        using cookie_browser.send_law [OF B, of other now jar' ?n] k False by (cases "br_send B other now jar' ?n") auto
      then show ?thesis using False out by (auto simp: require_user_def browser_sends_def)
    qed
  qed
qed

text \<open>Also (security_headers_everywhere): Every answer of a route, errors of the handlers included, forbids sniffing, framing and foreign scripts and must not be stored; the answer to an unhandled error is the only one without these headers.\<close>

theorem security_headers_everywhere:
  assumes "respond A secure u rq call st = (a, st')"
  shows "(if ha_code a = 500 then ha_headers a = []
     else map_of (ha_headers a) ''X-Content-Type-Options'' = Some (lit ''nosniff'')
       \<and> map_of (ha_headers a) ''X-Frame-Options'' = Some (lit ''DENY'')
       \<and> map_of (ha_headers a) ''Referrer-Policy'' = Some (lit ''same-origin'')
       \<and> map_of (ha_headers a) ''Content-Security-Policy'' = Some CSP
       \<and> map_of (ha_headers a) ''Permissions-Policy'' = Some (lit ''geolocation=(), microphone=(), camera=()'')
       \<and> map_of (ha_headers a) ''Cache-Control'' = Some (lit ''no-store''))
    \<and> (\<forall>ck \<in> set (ha_cookies a). ck_name ck = cookie_name (au_cfg (si_auth A))
        \<and> (ck_value ck \<noteq> [] \<longrightarrow> ck_http_only ck \<and> ck_same_site ck = ''strict'' \<and> ck_secure ck = secure))"
proof -
  obtain c s where r: "api A u rq call st = (c, s)" by fastforce
  show ?thesis
  proof (cases "c = 500")
    case True
    then show ?thesis using assms r by (auto simp: respond_def internal_error_def)
  next
    case False
    have "\<forall>ck \<in> set (own_cookies A secure u rq call st). ck_name ck = cookie_name (au_cfg (si_auth A))
        \<and> (ck_value ck \<noteq> [] \<longrightarrow> ck_http_only ck \<and> ck_same_site ck = ''strict'' \<and> ck_secure ck = secure)"
      by (auto simp: own_cookies_def session_cookie_def logout_cookie_def split: call.splits login_answer.splits)
    then show ?thesis using assms r False api_paths [of call] by (auto simp: respond_def security_headers_get)
  qed
qed

text \<open>Also (logo_not_cached): The five minutes of caching that serve_logo grants never reach a client: the middleware replaces the header by no-store.\<close>

theorem logo_not_cached:
  "map_of (own_headers (LogoGet name) 200) ''Cache-Control'' = Some (lit ''public, max-age=300'')
    \<and> (case respond A secure u rq (LogoGet name) st of
        (a, st') \<Rightarrow> ha_code a \<noteq> 500 \<longrightarrow> map_of (ha_headers a) ''Cache-Control'' = Some (lit ''no-store''))"
  using api_paths [of "LogoGet name"]
  by (auto simp: own_headers_def logo_headers_def respond_def security_headers_get internal_error_def split: prod.splits)

end
