(* ===== verification/Worker_Ids.thy ===== *)
theory Worker_Ids
  imports Maintenance Worker
begin

text \<open>
  Who owns a claim: the worker id that \<open>main\<close> of \<open>services/worker.py\<close> chooses, against the ids that
  \<open>_live_worker_ids\<close> of \<open>services/maintenance.py\<close> takes for alive.
\<close>

section \<open>Ids\<close>

text \<open>\<open>os.environ.get("NLS_WORKER_ID") or f"{gethostname()}-{getpid()}"\<close>.\<close>

definition worker_id :: "string option \<Rightarrow> string \<Rightarrow> nat \<Rightarrow> string" where
  "worker_id name host pid =
     (case name of
        Some given \<Rightarrow> if given \<noteq> [] then given else host @ ''-'' @ str_nat pid
      | None \<Rightarrow> host @ ''-'' @ str_nat pid)"

lemma isdigit_str_nat: "bytes_isdigit (str_nat n)"
proof -
  have "str_nat n \<noteq> []" using str_nat_simps [of n] by (cases "n < 10") auto
  then show ?thesis using str_nat_digits [of n] by (simp add: bytes_isdigit_def digits_def)
qed

lemma default_id_live: "str_nat pid \<in> set entries \<Longrightarrow> worker_id None host pid \<in> live_worker_ids host entries"
  by (simp add: worker_id_def live_worker_ids_def isdigit_str_nat)

lemma named_id_dead:
  "\<forall>ds. name \<noteq> host @ ''-'' @ ds \<Longrightarrow> name \<noteq> [] \<Longrightarrow> worker_id (Some name) host pid \<notin> live_worker_ids host entries"
  by (auto simp: worker_id_def live_worker_ids_def)

section \<open>One recovered claim\<close>

text \<open>With Redis answering and a single claim, of a worker that is taken for dead, it goes back to the queue.\<close>

lemma recover_single:
  assumes "redis_scan R V" "1000 \<le> unpack_max" "plain_queue q" "w \<notin> live"
    and "V s (queue_key q) = []" "V s (inflight_key w) = [b]" "\<And>v. v \<noteq> w \<Longrightarrow> V s (inflight_key v) = []"
  shows "\<exists>n t. recover_orphaned_claims R unpack_max q (\<lambda>_. Reply) live s = (Inr n, t)
    \<and> V t (queue_key q) = [b] \<and> V t (inflight_key w) = []"
proof -
  have L: "redis_log_queue R V unpack_max q"
    using redis_scan.axioms(1) [OF assms(1)] assms(2,3) by (rule redis_log_queueI)
  let ?S = "r_scan R INFLIGHT_PREFIX s"
  let ?K = "filter (\<lambda>name. drop (length INFLIGHT_PREFIX) name \<notin> live) ?S"
  have pre: "\<exists>v. k = inflight_key v" if "k \<in> set ?K" for k
  proof -
    have "take (length INFLIGHT_PREFIX) k = INFLIGHT_PREFIX"
      using redis_scan.scan_prefix [OF assms(1)] that by auto
    then have "k = inflight_key (drop (length INFLIGHT_PREFIX) k)"
      by (metis append_take_drop_id inflight_key_def)
    then show ?thesis by blast
  qed
  have w: "inflight_key w \<in> set ?K"
    using redis_scan.scan_law [OF assms(1), of s "inflight_key w" INFLIGHT_PREFIX] assms(4,6)
    by (simp add: inflight_key_def)
  have q: "queue_key q \<notin> set ?K"
    using redis_scan.scan_prefix [OF assms(1)] assms(3) by (auto simp: plain_queue_def)
  obtain n t where t: "recover_orphaned_claims R unpack_max q (\<lambda>_. Reply) live s = (Inr n, t)" "\<forall>k \<in> set ?K. V t k = []"
    using redis_log_queue.recover_loop_reply [OF L q, of 0 0 s] by (auto simp: recover_orphaned_claims_def)
  have others: "V s k = []" if "k \<in> set ?K - {inflight_key w}" for k
    using pre [of k] assms(7) that by (auto simp: inflight_key_def)
  have "mset (V t (queue_key q)) + (\<Sum>k\<in>set ?K. mset (V t k)) = mset (V s (queue_key q)) + (\<Sum>k\<in>set ?K. mset (V s k))"
    using redis_log_queue.recover_loop_conserves [OF L finite_set order_refl q, of "\<lambda>_. Reply" 0 0 s] t(1)
    by (simp add: recover_orphaned_claims_def)
  moreover have "(\<Sum>k\<in>set ?K. mset (V t k)) = {#}" using t(2) by simp
  moreover have "(\<Sum>k\<in>set ?K. mset (V s k)) = {#b#}"
    using sum.remove [OF finite_set w, of "\<lambda>k. mset (V s k)"] others assms(6) by simp
  ultimately have "mset (V t (queue_key q)) = {#b#}" using assms(5) by simp
  then show ?thesis using t w by auto
qed

section \<open>Properties\<close>

text \<open>Also (default_worker_kept): A worker with the default id keeps its claim while its process lives: the recovery of orphaned claims sees the process and does not touch the list.\<close>

theorem default_worker_kept:
  assumes "redis_scan R V" and "1000 \<le> unpack_max" and "plain_queue q" and "str_nat pid \<in> set entries"
  shows "V (snd (recover_orphaned_claims R unpack_max q (\<lambda>_. Reply) (live_worker_ids host entries) s))
      (inflight_key (worker_id None host pid)) = V s (inflight_key (worker_id None host pid))"
proof -
  let ?K = "filter (\<lambda>name. drop (length INFLIGHT_PREFIX) name \<notin> live_worker_ids host entries) (r_scan R INFLIGHT_PREFIX s)"
  have L: "redis_log_queue R V unpack_max q"
    using redis_scan.axioms(1) [OF assms(1)] assms(2,3) by (rule redis_log_queueI)
  have q: "queue_key q \<notin> set ?K"
    using redis_scan.scan_prefix [OF assms(1)] assms(3) by (auto simp: plain_queue_def)
  have "inflight_key (worker_id None host pid) \<notin> set ?K"
    using default_id_live [OF assms(4)] by (simp add: inflight_key_def)
  then show ?thesis
    using redis_log_queue.recover_loop_reply [OF L q, of 0 0 s] plain_queue_neq(1) [OF assms(3)]
    by (auto simp: recover_orphaned_claims_def)
qed

text \<open>Also (named_worker_doubled): A running worker that got its name from NLS_WORKER_ID is taken for dead: maintenance hands its claim back to the queue while the insert is under way, and the record is stored twice although nothing failed, no reply was lost and nothing crashed.\<close>

theorem named_worker_doubled:
  assumes "redis_scan (w_redis E) V" and "1000 \<le> w_lim E" and "plain_queue (w_queue E)"
    and "row_store (w_insert E) T" and "0 < w_batch E"
    and "w = worker_id (Some name) host pid" and "name \<noteq> []" and "\<forall>ds. name \<noteq> host @ ''-'' @ ds"
    and "procs st w = Inserting [b] [r] backoff attempt" and "\<not> stops st w" and "good_row E b = Some r"
    and "V (sys_redis st) (queue_key (w_queue E)) = []" and "V (sys_redis st) (inflight_key w) = [b]"
    and "\<forall>v. v \<noteq> w \<longrightarrow> V (sys_redis st) (inflight_key v) = []"
  shows "\<exists>n t st'. recover_orphaned_claims (w_redis E) (w_lim E) (w_queue E) (\<lambda>_. Reply)
        (live_worker_ids host entries) (sys_redis st) = (Inr n, t)
    \<and> pipe_run E [Work w (DoInsert Inserted), Work w (DoAck Reply),
        Work w (DoClaim Reply), Work w (DoInsert Inserted), Work w (DoAck Reply)] (st\<lparr>sys_redis := t\<rparr>) = st'
    \<and> T (sys_ch st') = T (sys_ch st) + {#r, r#}"
proof -
  have P: "pipeline E V T"
    using redis_scan.axioms(1) [OF assms(1)] assms(2-5) by (rule pipelineI)
  have dead: "w \<notin> live_worker_ids host entries" using named_id_dead [OF assms(8,7)] assms(6) by simp
  obtain n t where t: "recover_orphaned_claims (w_redis E) (w_lim E) (w_queue E) (\<lambda>_. Reply)
      (live_worker_ids host entries) (sys_redis st) = (Inr n, t)"
    "V t (queue_key (w_queue E)) = [b]" "V t (inflight_key w) = []"
    using recover_single [OF assms(1-3) dead assms(12,13)] assms(14) by blast
  let ?s0 = "st\<lparr>sys_redis := t\<rparr>"
  define s1 where "s1 = pipe_step E (Work w (DoInsert Inserted)) ?s0"
  have s1: "s1 = set_proc w (Acking [b] [r]) (?s0\<lparr>sys_ch := w_insert E [r] (sys_ch st)\<rparr>)"
    using assms(9,10) by (simp add: s1_def do_insert_def)
  obtain t2 where a: "ack (w_redis E) Reply (inflight_key w) t = (Inr (), t2)" by (simp add: ack_def)
  have Vt2: "V t2 = (V t)(inflight_key w := [])" using pipeline.ack_view [OF P, of Reply w t] a by simp
  define s2 where "s2 = pipe_step E (Work w (DoAck Reply)) s1"
  have s2: "procs s2 w = Looping" "\<not> stops s2 w" "sys_redis s2 = t2" "sys_ch s2 = w_insert E [r] (sys_ch st)"
    using a assms(10) by (simp_all add: s2_def s1 do_ack_def set_proc_def count_stat_def)
  have held: "V (sys_redis s2) (inflight_key w) = []" "V (sys_redis s2) (queue_key (w_queue E)) = [b]"
    using Vt2 t(2) s2(3) plain_queue_neq(1) [OF assms(3), of w] by simp_all
  have "\<forall>p \<in> set (V (sys_redis s2) (queue_key (w_queue E))). \<not> poison E p"
    using held(2) assms(11) by (auto simp: poison_def good_row_def split: option.splits sum.splits)
  moreover have "length (V (sys_redis s2) (queue_key (w_queue E))) \<le> 1 * w_batch E" using held(2) assms(5) by simp
  ultimately obtain st' where st': "pipe_run E (concat (replicate 1
        [Work w (DoClaim Reply), Work w (DoInsert Inserted), Work w (DoAck Reply)])) s2 = st'"
    "T (sys_ch st') = T (sys_ch s2) + goods E (V (sys_redis s2) (queue_key (w_queue E)))"
    using pipeline.rounds_drain [OF P s2(1,2) held(1), of 1] by blast
  have "T (sys_ch s2) = T (sys_ch st) + {#r#}"
    using row_store.insert_law [OF assms(4)] s2(4) by simp
  moreover have "goods E (V (sys_redis s2) (queue_key (w_queue E))) = {#r#}"
    using held(2) assms(11) by simp
  moreover have "pipe_run E [Work w (DoInsert Inserted), Work w (DoAck Reply),
        Work w (DoClaim Reply), Work w (DoInsert Inserted), Work w (DoAck Reply)] ?s0 = st'"
    using st'(1) by (simp add: pipe_run_def s1_def s2_def)
  ultimately show ?thesis using t(1) st'(2) by (intro exI [of _ n] exI [of _ t] exI [of _ st']) simp
qed

definition demo_named :: "(ref_store, crow list) sys" where
  "demo_named = \<lparr>sys_redis = put_list (inflight_key ''main'') [''r1''] empty_store, sys_ch = [],
     procs = (\<lambda>_. Inserting [''r1''] [(2, replicate 10 MNil)] 1 0), stops = (\<lambda>_. False), stats = (\<lambda>_. fresh_metrics)\<rparr>"

theorem named_worker_doubled_witness:
  "\<exists>n t st'. recover_orphaned_claims ref_redis 7900 default_queue (\<lambda>_. Reply) (live_worker_ids ''nat1'' [''17''])
      (sys_redis demo_named) = (Inr n, t)
    \<and> pipe_run demo_env [Work ''main'' (DoInsert Inserted), Work ''main'' (DoAck Reply), Work ''main'' (DoClaim Reply),
        Work ''main'' (DoInsert Inserted), Work ''main'' (DoAck Reply)] (demo_named\<lparr>sys_redis := t\<rparr>) = st'
    \<and> mset (sys_ch st') = {#(2, replicate 10 MNil), (2, replicate 10 MNil)#}"
proof -
  have lists: "ref_list (sys_redis demo_named) k = (if k = inflight_key ''main'' then [''r1''] else [])" for k
    by (simp add: demo_named_def put_list_def ref_list_def dict_get_set empty_store_def)
  have keys: "''nls:queue'' \<noteq> inflight_key ''main''" "inflight_key v = inflight_key ''main'' \<Longrightarrow> v = ''main''" for v
    by (simp_all add: inflight_key_def INFLIGHT_PREFIX_def)
  have env: "w_redis demo_env = ref_redis" "w_lim demo_env = 7900" "w_queue demo_env = default_queue"
    "w_insert demo_env = table_insert" "0 < w_batch demo_env"
    by (simp_all add: demo_env_def)
  have st: "procs demo_named ''main'' = Inserting [''r1''] [(2, replicate 10 MNil)] 1 0" "\<not> stops demo_named ''main''"
    "sys_ch demo_named = []"
    by (simp_all add: demo_named_def)
  have "''main'' = worker_id (Some ''main'') ''nat1'' 17" "\<forall>ds. ''main'' \<noteq> ''nat1'' @ ''-'' @ ds"
    by (simp_all add: worker_id_def)
  moreover have "\<forall>v. v \<noteq> ''main'' \<longrightarrow> ref_list (sys_redis demo_named) (inflight_key v) = []"
    using keys(2) by (auto simp: lists)
  moreover have "ref_list (sys_redis demo_named) (queue_key (w_queue demo_env)) = []"
    using keys(1) by (simp add: lists env queue_key_default)
  ultimately show ?thesis
    using named_worker_doubled [of demo_env ref_list mset "''main''" "''main''" "''nat1''" 17 demo_named "''r1''"
        "(2, replicate 10 MNil)" 1 0 "[''17'']", unfolded env st]
      ref_scan.redis_scan_axioms default_plain demo_table.row_store_axioms demo_good
    by (simp add: lists env st)
qed

end
