(* ===== verification/Syslog_Tcp.thy ===== *)
theory Syslog_Tcp
  imports Receiver
begin

text \<open>
  The TCP side of \<open>backend/app/services/receiver.py\<close>: \<open>SyslogTCP\<close> cuts a byte stream into
  lines, whatever the chunks it arrives in, and hands each line to the ingest path.
\<close>

section \<open>Framing\<close>

lemma py_find_char_eq:
  "py_find s [c] = (if c \<in> set s then Some (length (takeWhile (\<lambda>x. x \<noteq> c) s)) else None)"
  by (induction s) auto

lemma length_takeWhile_mem: "c \<in> set s \<Longrightarrow> length (takeWhile (\<lambda>x. x \<noteq> c) s) < length s"
  by (induction s) auto

definition MAX_LINE :: nat where "MAX_LINE = 64 * 1024"

definition NL :: char where "NL = CHR 0x0A"
definition CR :: char where "CR = CHR 0x0D"

text \<open>\<open>_strip_octet_count\<close>.\<close>

definition strip_octet_count :: "pybytes \<Rightarrow> pybytes" where
  "strip_octet_count line =
     (case py_find line '' '' of
        None \<Rightarrow> line
      | Some sp \<Rightarrow>
          (if 0 < sp \<and> sp \<le> 6 \<and> bytes_isdigit (take sp line) then drop (sp + 1) line else line))"

text \<open>The \<open>while\<close> loop of \<open>data_received\<close>: the lines handed on, and the buffer left.\<close>

function take_lines :: "pybytes \<Rightarrow> pybytes list \<times> pybytes" where
  "take_lines buf =
     (case py_find buf [NL] of
        None \<Rightarrow> ([], buf)
      | Some idx \<Rightarrow>
          (let line = bytes_rstrip CR (take idx buf);
               (lines, rest) = take_lines (drop (idx + 1) buf)
           in (if line \<noteq> [] then strip_octet_count line # lines else lines, rest)))"
  by pat_completeness auto
termination
proof (relation "measure length", goal_cases)
  case (2 buf idx line)
  then show ?case using length_takeWhile_mem [of NL buf] by (auto simp: py_find_char_eq split: if_splits)
qed simp

declare take_lines.simps [simp del]

record SyslogTCP =
  buf :: pybytes
  peer :: pystr

text \<open>
  \<open>connection_made\<close>: the peer's address, \<open>None\<close> when the transport knows none, and whether
  the connection is aborted.
\<close>

definition connection_made :: "pystr set \<Rightarrow> pystr option \<Rightarrow> SyslogTCP \<Rightarrow> SyslogTCP \<times> bool" where
  "connection_made registry peername c =
     (let p = (case peername of None \<Rightarrow> [] | Some a \<Rightarrow> a)
      in (c\<lparr>peer := p\<rparr>, p \<notin> registry))"

definition trim_buf :: "pybytes \<Rightarrow> pybytes" where
  "trim_buf b = (if length b > MAX_LINE then drop (length b - MAX_LINE) b else b)"

text \<open>\<open>data_received\<close>, with the calls to \<open>handle\<close> it makes as the list of their payloads.\<close>

definition data_received :: "pybytes \<Rightarrow> SyslogTCP \<Rightarrow> pybytes list \<times> SyslogTCP" where
  "data_received data c =
     (let (lines, rest) = take_lines (trim_buf (buf c @ data)) in (lines, c\<lparr>buf := rest\<rparr>))"

text \<open>A whole connection: the chunks in the order they are received.\<close>

fun receive_all :: "pybytes list \<Rightarrow> SyslogTCP \<Rightarrow> pybytes list \<times> SyslogTCP" where
  "receive_all [] c = ([], c)"
| "receive_all (data # chunks) c =
     (let (lines, c') = data_received data c; (more, c'') = receive_all chunks c'
      in (lines @ more, c''))"

text \<open>The ingest path behind both transports: \<open>datagram_received\<close> and the loop above.\<close>

definition datagram_received ::
    "ucd \<Rightarrow> (mval \<Rightarrow> pybytes) \<Rightarrow> ingest_cfg \<Rightarrow> pystr set \<Rightarrow> int \<Rightarrow> pybytes \<Rightarrow> pystr \<Rightarrow> Ingest \<Rightarrow> Ingest" where
  "datagram_received U pack cfg registry time data addr g = handle U pack cfg registry time data addr g"

definition stream_received ::
    "ucd \<Rightarrow> (mval \<Rightarrow> pybytes) \<Rightarrow> ingest_cfg \<Rightarrow> pystr set \<Rightarrow> int \<Rightarrow> pybytes
      \<Rightarrow> SyslogTCP \<times> Ingest \<Rightarrow> SyslogTCP \<times> Ingest" where
  "stream_received U pack cfg registry time data x =
     (let (c, g) = x; (lines, c') = data_received data c
      in (c', fold (\<lambda>line g. handle U pack cfg registry time line (peer c) g) lines g))"

section \<open>Lemmas\<close>

lemma take_lines_none: "NL \<notin> set b \<Longrightarrow> take_lines b = ([], b)"
  by (subst take_lines.simps) (simp add: py_find_char_eq)

text \<open>What becomes of one line: nothing when it is blank.\<close>

definition emit :: "pybytes \<Rightarrow> pybytes list" where
  "emit l = (let line = bytes_rstrip CR l in if line \<noteq> [] then [strip_octet_count line] else [])"

lemma take_lines_line:
  assumes "NL \<notin> set l"
  shows "take_lines (l @ NL # b) = (emit l @ fst (take_lines b), snd (take_lines b))"
proof -
  have tw: "takeWhile (\<lambda>x. x \<noteq> NL) (l @ NL # b) = l"
    using assms by (intro takeWhile_append_stop) auto
  show ?thesis
    by (subst take_lines.simps) (simp add: py_find_char_eq tw emit_def Let_def case_prod_beta)
qed

lemma split_at_NL: "NL \<in> set b \<Longrightarrow> \<exists>l r. b = l @ NL # r \<and> NL \<notin> set l"
  by (metis split_list_first)

lemma take_lines_append:
  "take_lines (a @ b) = (fst (take_lines a) @ fst (take_lines (snd (take_lines a) @ b)),
     snd (take_lines (snd (take_lines a) @ b)))"
proof (induction a rule: length_induct)
  case (1 a)
  show ?case
  proof (cases "NL \<in> set a")
    case True
    then obtain l r where a: "a = l @ NL # r" "NL \<notin> set l" using split_at_NL by blast
    then show ?thesis using 1 [rule_format, of r] by (simp add: take_lines_line)
  next
    case False
    then show ?thesis by (simp add: take_lines_none)
  qed
qed

lemma take_lines_rest: "NL \<notin> set (snd (take_lines b)) \<and> suffix (snd (take_lines b)) b"
proof (induction b rule: length_induct)
  case (1 b)
  show ?case
  proof (cases "NL \<in> set b")
    case True
    then obtain l r where b: "b = l @ NL # r" "NL \<notin> set l" using split_at_NL by blast
    then show ?thesis
      using 1 [rule_format, of r] by (simp add: take_lines_line suffix_append suffix_Cons)
  next
    case False
    then show ?thesis by (simp add: take_lines_none)
  qed
qed

text \<open>A stream of newline-terminated lines and an unfinished one.\<close>

definition stream :: "pybytes list \<Rightarrow> pybytes \<Rightarrow> pybytes" where
  "stream ls r = concat (map (\<lambda>l. l @ [NL]) ls) @ r"

lemma stream_simps [simp]: "stream [] r = r" "stream (l # ls) r = l @ NL # stream ls r"
  by (simp_all add: stream_def)

lemma take_lines_stream:
  assumes "\<forall>l \<in> set ls. NL \<notin> set l" "NL \<notin> set r"
  shows "take_lines (stream ls r) = (concat (map emit ls), r)"
  using assms by (induction ls) (simp_all add: take_lines_none take_lines_line)

lemma stream_gap:
  assumes "sublist v (stream ls r)" "NL \<notin> set v"
    and "\<forall>l \<in> set ls. length l \<le> m" "length r \<le> m"
  shows "length v \<le> m"
  using assms
proof (induction ls)
  case Nil
  then show ?case using sublist_length_le by fastforce
next
  case (Cons l ls)
  then consider "sublist v l" | "sublist v (NL # stream ls r)"
    | v1 v2 where "v = v1 @ v2" "suffix v1 l" "prefix v2 (NL # stream ls r)"
    by (auto simp: sublist_append)
  then show ?case
  proof cases
    case 1
    then show ?thesis using Cons.prems sublist_length_le by fastforce
  next
    case 2
    then have "v = [] \<or> sublist v (stream ls r)"
      using Cons.prems(2) by (auto simp: sublist_Cons_right prefix_Cons)
    then show ?thesis using Cons by auto
  next
    case 3
    then have "v2 = []" using Cons.prems(2) by (auto simp: prefix_Cons)
    then show ?thesis using 3 Cons.prems(3) suffix_length_le by fastforce
  qed
qed

text \<open>Without trimming, chunks do not matter.\<close>

lemma receive_all_take_lines:
  assumes "\<And>v. sublist v (buf c @ concat chunks) \<Longrightarrow> NL \<notin> set v \<Longrightarrow> length v \<le> m"
    and "NL \<notin> set (buf c)" and "\<forall>d \<in> set chunks. length d + m \<le> MAX_LINE"
  shows "receive_all chunks c
    = (fst (take_lines (buf c @ concat chunks)), c\<lparr>buf := snd (take_lines (buf c @ concat chunks))\<rparr>)"
  using assms
proof (induction chunks arbitrary: c)
  case Nil
  then show ?case by (simp add: take_lines_none)
next
  case (Cons d chunks)
  let ?b = "buf c @ d"
  let ?rest = "snd (take_lines ?b)"
  have "length (buf c) \<le> m"
    using Cons.prems(1) [OF _ Cons.prems(2)] by simp
  then have "trim_buf ?b = ?b" using Cons.prems(3) by (auto simp: trim_buf_def)
  then have step: "data_received d c = (fst (take_lines ?b), c\<lparr>buf := ?rest\<rparr>)"
    by (simp add: data_received_def case_prod_beta)
  have sub: "sublist (?rest @ concat chunks) (buf c @ concat (d # chunks))"
  proof -
    obtain z where z: "?b = z @ ?rest" using take_lines_rest [of ?b] by (auto simp: suffix_def)
    have "buf c @ concat (d # chunks) = z @ (?rest @ concat chunks)"
      using z by (metis append_assoc concat.simps(2))
    then show ?thesis unfolding sublist_def by (metis append_Nil2)
  qed
  have IH: "receive_all chunks (c\<lparr>buf := ?rest\<rparr>)
      = (fst (take_lines (?rest @ concat chunks)), c\<lparr>buf := snd (take_lines (?rest @ concat chunks))\<rparr>)"
    using Cons.IH [of "c\<lparr>buf := ?rest\<rparr>"] Cons.prems(1,3) take_lines_rest [of ?b]
      sublist_order.order.trans [OF _ sub] by auto
  show ?case
    using take_lines_append [of ?b "concat chunks"] by (simp add: step IH Let_def)
qed

section \<open>Properties\<close>

text \<open>C23 (tcp_lines): Whatever chunks a stream of lines arrives in, the lines handed to the ingest path are exactly the non-blank lines, in order, each without its carriage returns and octet count, and the unfinished last line stays buffered, provided no line is longer than m bytes and no chunk longer than 64 KiB less m.\<close>

theorem tcp_lines:
  assumes "\<forall>l \<in> set ls. NL \<notin> set l \<and> length l \<le> m" and "NL \<notin> set r" and "length r \<le> m"
    and "concat chunks = stream ls r" and "\<forall>d \<in> set chunks. length d + m \<le> MAX_LINE"
  shows "receive_all chunks \<lparr>buf = [], peer = ip\<rparr>
    = (map strip_octet_count (filter (\<lambda>l. l \<noteq> []) (map (bytes_rstrip CR) ls)), \<lparr>buf = r, peer = ip\<rparr>)"
proof -
  have gap: "length v \<le> m" if "sublist v (stream ls r)" "NL \<notin> set v" for v
    using stream_gap [OF that] assms(1,3) by auto
  have "concat (map emit ls) = map strip_octet_count (filter (\<lambda>l. l \<noteq> []) (map (bytes_rstrip CR) ls))"
    by (induction ls) (auto simp: emit_def Let_def)
  then show ?thesis
    using receive_all_take_lines [of "\<lparr>buf = [], peer = ip\<rparr>" chunks m] assms(1,2,4,5) gap
      take_lines_stream [of ls r] by simp
qed

theorem tcp_lines_witness:
  "receive_all [''5 hel'', ''lo'' @ [CR, NL, NL] @ ''wo'', ''rld'' @ [NL] @ ''x''] \<lparr>buf = [], peer = []\<rparr>
     = ([''hello'', ''world''], \<lparr>buf = ''x'', peer = []\<rparr>)"
  using tcp_lines [of "[''5 hello'' @ [CR], [], ''world'']" 8 "''x''"
      "[''5 hel'', ''lo'' @ [CR, NL, NL] @ ''wo'', ''rld'' @ [NL] @ ''x'']" "[]"]
  by (simp add: NL_def CR_def MAX_LINE_def bytes_rstrip_def strip_octet_count_def
      bytes_isdigit_def is_ascii_digit_def byte_def)

text \<open>Also (tcp_buffer_bound): Whatever a sender does, a connection never holds more than 64 KiB between chunks, and never a complete line.\<close>

theorem tcp_buffer_bound:
  "length (buf (snd (data_received data c))) \<le> MAX_LINE
    \<and> NL \<notin> set (buf (snd (data_received data c)))"
proof -
  have "length (trim_buf b) \<le> MAX_LINE" for b by (simp add: trim_buf_def)
  then show ?thesis
    using take_lines_rest [of "trim_buf (buf c @ data)"] suffix_length_le le_trans
    by (fastforce simp: data_received_def case_prod_beta)
qed

text \<open>Also (tcp_trim_loses_lines): The buffer is trimmed to its last 64 KiB before any line is taken from it: a chunk delivers exactly what its last 64 KiB alone would deliver, so every complete line before them is lost, and nothing counts it.\<close>

theorem tcp_trim_loses_lines:
  assumes "length b = MAX_LINE"
  shows "data_received (a @ b) c = (fst (take_lines b), c\<lparr>buf := snd (take_lines b)\<rparr>)"
  using assms by (simp add: data_received_def trim_buf_def case_prod_beta)

theorem tcp_trim_loses_lines_witness:
  "data_received (''<134>ok'' @ [NL] @ replicate MAX_LINE CHR ''x'') \<lparr>buf = [], peer = []\<rparr>
     = ([], \<lparr>buf = replicate MAX_LINE CHR ''x'', peer = []\<rparr>)"
  using tcp_trim_loses_lines [of "replicate MAX_LINE CHR ''x''" "''<134>ok'' @ [NL]" "\<lparr>buf = [], peer = []\<rparr>"]
  by (simp add: take_lines_none NL_def)

text \<open>Also (octet_count): A count of one to six digits and a blank are taken off the front of a line and nothing else is; but frames are still cut at newlines only, so a sender whose octet-counted frames carry none never has a line handed on.\<close>

theorem octet_count:
  assumes "digits \<noteq> []" and "length digits \<le> 6" and "\<forall>c \<in> set digits. is_ascii_digit (byte c)"
    and "NL \<notin> set frames"
  shows "strip_octet_count (digits @ CHR '' '' # msg) = msg
    \<and> fst (data_received frames \<lparr>buf = [], peer = ip\<rparr>) = []"
proof -
  have "takeWhile (\<lambda>x. x \<noteq> CHR '' '') (digits @ CHR '' '' # msg) = digits"
    using assms(3) by (intro takeWhile_append_stop) (auto simp: is_ascii_digit_def byte_def)
  then have "strip_octet_count (digits @ CHR '' '' # msg) = msg"
    using assms(1-3)
    by (simp add: strip_octet_count_def py_find_char_eq bytes_isdigit_def list_all_iff)
  moreover have "NL \<notin> set (trim_buf frames)"
    using assms(4) by (auto simp: trim_buf_def dest: in_set_dropD)
  ultimately show ?thesis by (simp add: data_received_def take_lines_none case_prod_beta)
qed

theorem octet_count_witness:
  "strip_octet_count ''13 <134>firewall'' = ''<134>firewall''
   \<and> fst (data_received ''13 <134>firewall13 <134>firewall'' \<lparr>buf = [], peer = []\<rparr>) = []"
  using octet_count [of "''13''" "''13 <134>firewall13 <134>firewall''" "''<134>firewall''" "[]"]
  by (simp add: is_ascii_digit_def byte_def NL_def)

end
