(* ===== verification/Spec2Isabelle.thy ===== *)
theory Spec2Isabelle
  imports Cli_Args Service_Setup Flusher Meta_Tx Listeners Worker_Stop Allow_List Load_Report Receiver_Main Archive_Race Stored_Search Http_Edge Cli_Main Metrics_Task Worker_Ids Fleet_Origin Mikrotik Redis_Queue Metrics Receiver Syslog_Tcp Worker Meta_Store Routers_Api Maintenance Log_Search Throttle Auth
    Settings_Api Schema_Text Cli Config System_Api Web_Api Loadtest
begin

text \<open>
  A verification library for the network log server. Routers send NAT translation logs by syslog; the receiver parses
  them and pushes rows to a Redis list; workers claim batches, insert them into ClickHouse and acknowledge; a web API and
  a command line manage users, routers and settings and search the table; a monthly run archives and prunes.

  \<^bold>\<open>How the parts interact.\<close> \<open>Ingest.handle\<close> (receiver) calls \<open>MikroTikParser\<close> and fills a buffer, \<open>Ingest._push\<close> hands it
  to \<open>LogQueue.push_many\<close>; \<open>BatchWorker\<close> uses \<open>LogQueue.claim\<close>, \<open>ack\<close>, \<open>release\<close>, which run Lua scripts on Redis; both count
  in \<open>Metrics\<close>. The routers table of \<open>MetadataStore\<close> is cached in a Redis set that the router API rewrites and
  \<open>RouterRegistry.refresh\<close> reads. The API routes share the store, Redis and the ClickHouse service, and pass the
  guards of \<open>deps.py\<close>. The commands of \<open>cli.py\<close> work on the same store and database.

  \<^bold>\<open>Conventions.\<close> An operation on a state has type \<open>('s, 'a) eff\<close>: it returns or raises (\<open>Inl\<close> of an exception of \<open>exn\<close>)
  and leaves a state either way. A remote call carries its outcome \<open>net\<close>: answered, refused, or carried out with the reply lost.
  A handler of the event loop is cut at its awaits, so that the steps of other tasks can fall in between. Strings are lists
  of code points, \<open>bytes\<close> are lists of 8-bit characters, Python integers are \<open>int\<close> or \<open>nat\<close>, floats are rationals.

  \<^bold>\<open>Theories and the code they model\<close> (paths under \<open>src/backend/app\<close> unless given).
  \<^item> \<open>Prelude\<close>, \<open>Py_Str\<close>, \<open>Regex\<close>: exceptions, remote calls, dictionaries; Python's \<open>str\<close>, \<open>bytes\<close> and UTF-8 decoding; a
    backtracking matcher for the part of \<open>re\<close> that the patterns use.
  \<^item> \<open>Parser_Base\<close>, \<open>Patterns\<close>, \<open>Mikrotik\<close>: \<open>parser/base.py\<close>, \<open>parser/patterns.py\<close>, \<open>parser/mikrotik.py\<close>. Every record is well-formed
    and read off one stretch of the line in its order; lines of the documented shapes are accepted; parsing is total.
  \<^item> \<open>Redis_Store\<close>, \<open>Queue_Contract\<close>, \<open>Redis_Queue\<close>: Redis as a parameter with the documented effect of its commands; the queue
    as a machine on plain lists; \<open>queue/redis_queue.py\<close> refines it. The queue contract is the locale \<open>claim_queue\<close>, obtained by
    \<open>sublocale\<close> from the model of the Lua scripts.
  \<^item> \<open>Metrics\<close>, \<open>Receiver\<close>, \<open>Syslog_Tcp\<close>: \<open>metrics.py\<close> and \<open>services/receiver.py\<close>. What is received is accounted for, what is parsed
    is pushed, dropped and counted, or still in hand; framing does not depend on the chunks of the stream.
  \<^item> \<open>Worker\<close>: \<open>services/worker.py\<close> as a program counter per worker with crashes and restarts. Nothing acknowledged is
    missing from the table, nothing claimed is lost unless a claim reply is, and the backlog drains.
  \<^item> \<open>Fleet\<close>, \<open>Fleet_Origin\<close>: \<open>_serve\<close> of \<open>services/receiver.py\<close>, and the running system as an inductive step relation over any number
    of receivers and workers on one Redis and one table, with starts, shutdowns and crashes. No record vanishes uncounted while
    its process runs, and every stored row was parsed from a datagram of an authorised router.
  \<^item> \<open>Meta_Store\<close>, \<open>Routers_Api\<close>, \<open>Maintenance\<close>: \<open>database/meta.py\<close>, \<open>api/routers_api.py\<close>, \<open>services/maintenance.py\<close>. Uniqueness and
    canonical addresses as an invariant; the allow list follows the table; a partition is dropped only after a verified export.
  \<^item> \<open>Allow_List\<close>: the background task of \<open>RouterRegistry\<close> cut at its awaits, any number of receivers next to the router API,
    whose publications can overtake each other. Every list comes from a table that there was, one round is enough after a
    change, and what an overtaken publication leaves behind.
  \<^item> \<open>Receiver_Main\<close>: \<open>main\<close> of \<open>services/receiver.py\<close>, the forked processes as a step relation; no child outlives the program.
  \<^item> \<open>Flusher\<close>, \<open>Listeners\<close>: the loop of \<open>run_flusher\<close> with the depth check, whose pauses do not lapse; the sockets of a receiver
    and why all the forked processes can have them.
  \<^item> \<open>Worker_Stop\<close>: a worker that is told to stop is down after four of its own steps and leaves no claim behind: none of its
    steps loses a claimed record, whatever the calls answer.
  \<^item> \<open>Meta_Tx\<close>: the connections and transactions of \<open>database/meta.py\<close>, any number of them interleaved on one file, refine the
    operations of \<open>Meta_Store\<close> one after the other.
  \<^item> \<open>Service_Setup\<close>: \<open>logging_setup.py\<close> and the settings of the clients of Redis and ClickHouse.
  \<^item> \<open>Log_Search\<close>: \<open>database/clickhouse.py\<close> (search, count) and \<open>api/search_api.py\<close>. The query text selects exactly the rows that
    a reference predicate describes, and request data never reaches the text.
  \<^item> \<open>Stored_Search\<close>: \<open>insert_rows\<close> with the worker's attempt, and the way back: a stored record is found by every search for it.
  \<^item> \<open>Archive_Race\<close>: \<open>archive_partition\<close> step by step next to running workers on one table. Nothing is lost as long as no record
    of a closed month is on its way, and what is lost otherwise.
  \<^item> \<open>Throttle\<close>, \<open>Auth\<close>: \<open>auth/*.py\<close>, \<open>api/deps.py\<close>, \<open>api/auth_api.py\<close>. Sessions come from logins only, the throttle counts
    exactly under a key that logins from IPv6 addresses can share, the origin check is exact.
  \<^item> \<open>Settings_Api\<close>, \<open>Schema_Text\<close>, \<open>Cli\<close>: \<open>api/settings_api.py\<close>, \<open>render_schema\<close>, \<open>cli.py\<close>. Settings read back as set; logo files
    and setting stay together; statements are cut cleanly; what the commands leave behind.
  \<^item> \<open>Config\<close>: \<open>config.py\<close>. Every configuration that a service gets is within its declared bounds; the \<open>.env\<close> file reads back.
  \<^item> \<open>Cli_Main\<close>: \<open>main\<close> of \<open>cli.py\<close> and every command with its exit code, its output and the state it leaves.
  \<^item> \<open>Cli_Args\<close>: \<open>build_parser\<close> of \<open>cli.py\<close> and the part of \<open>argparse\<close> it uses. Every command can be written as a command line that
    parses back to it; what becomes of a password that looks like an option.
  \<^item> \<open>Metrics_Task\<close>, \<open>Worker_Ids\<close>: the background flush of \<open>metrics.py\<close> cut at its await refines the atomic one; the id of a
    worker against the ids that maintenance takes for alive.
  \<^item> \<open>System_Api\<close>, \<open>Web_Api\<close>: \<open>api/system_api.py\<close> with the housekeeping queries and the rates, and all routes with their guards
    on one state: strangers and other sites change nothing, and the allow list stays equal to the store over any requests.
  \<^item> \<open>Http_Edge\<close>: the middleware of \<open>api/app.py\<close> and the session cookie, with browsers as a parameter: a browser acts only as
    whom it has logged in as.
  \<^item> \<open>Loadtest\<close>, \<open>Load_Report\<close>: \<open>scripts/loadtest.py\<close>. Its lines parse to what was drawn; a sender ends and sends the corpus in
    turn; the reported rate is at most the one asked for.
  \<^item> This theory: a datagram becomes exactly one row, through receiver, queue, codec, worker and insert.

  \<^bold>\<open>Bounds.\<close> No fuel is used: the loops of the Lua scripts, of UTF-8 decoding and of the line splitter terminate by a measure.
  Redis aborts a script that unpacks too many values at once; the model has that limit as a number, and the lemmas need
  1000, the chunk size of the scripts (the reference instance has 7900).

  \<^bold>\<open>Parameters.\<close> The Unicode character database, Redis, msgpack, the ClickHouse driver and its table, argon2, PyJWT, Pillow,
  PyYAML, pydantic's conversions, uvicorn with the way it ends, browsers, the file system of the archive, clocks and random draws. What the code relies on is a
  locale or a named hypothesis with the documented behaviour, and each is instantiated by a small executable model. The
  locale of PyJWT states idealised signatures: a token that decodes was made with the secret.

  \<^bold>\<open>Not modelled.\<close> The scheduler of asyncio, the transport of sockets, uvloop; sleeps; the lines that are logged; the help texts of the command line;
  HTTP framing and static files; two archivers at once; SQLite, Redis and ClickHouse themselves; shell
  scripts, the browser code and the tests. Anchors in YAML that share one section are not modelled, and JSON bodies are
  taken as parsed.

  \<^bold>\<open>State.\<close> What is left of the sources is documentation, imports, logging calls, the declaration of routes, and calls that only hand over to a library.
\<close>

section \<open>From a datagram to a row\<close>

lemma canonical_plain: "canonical_ipv4 t \<Longrightarrow> plain_text t"
proof -
  assume "canonical_ipv4 t"
  then obtain a b c d where t: "t = dotted a b c d" by (auto simp: canonical_ipv4_def)
  have "x < 128" if "x \<in> set t" for x
    using that unfolding t dotted_def by (auto simp: is_ascii_digit_def dest!: py_str_nat_digits)
  then show ?thesis by (fastforce simp: plain_text_def)
qed

text \<open>The receiver's part: a parsed datagram is one more record at the end of the queue.\<close>

definition pushed_now :: "pybytes \<Rightarrow> pystr \<Rightarrow> int \<Rightarrow> ievent list" where
  "pushed_now payload ip time = [Datagram payload ip time, Tick, PushStart 0, PushEnd 0 Reply]"

lemma receiver_part:
  assumes "redis_lists R V" "ip \<in> reg" "parse_bytes U (parser_cfg cfg) payload = (Some r, why)"
  shows "\<exists>g s'. ingest_run U pack R q cfg reg (pushed_now payload ip time) (new_ingest m, s) = (g, s')
    \<and> in_hand g = []
    \<and> V s' = (V s)(queue_key q := V s (queue_key q) @ [encode pack (as_row r time ip)])"
proof -
  let ?b = "[encode pack (as_row r time ip)]"
  have view: "V (snd (push_many R q Reply ?b s)) = (V s)(queue_key q := V s (queue_key q) @ ?b)"
    using redis_lists.rpush_law [OF assms(1), of ?b] by (simp add: push_many_def)
  obtain t where t: "push_many R q Reply ?b s = (Inr 1, t)" by (simp add: push_many_def)
  show ?thesis
    using view t assms(2,3)
    by (auto simp: pushed_now_def ingest_run_def new_ingest_def handle_def schedule_flush_def
        flusher_tick_def push_start_def push_end_def in_hand_def count_up_def Let_def)
qed

text \<open>C1 (end_to_end): A datagram that parses, from an authorised router, ends as exactly one row of the table, with the arrival time and the parsed fields in column order: receiver, queue, msgpack, worker and insert composed, for any Redis, codec and table with the documented behaviour and from an idle receiver and worker.\<close>

theorem end_to_end:
  assumes "redis_lists (w_redis E) V" and "1000 \<le> w_lim E" and "plain_queue (w_queue E)"
    and "row_store (w_insert E) T" and "0 < w_batch E"
    and "\<And>v. packable v \<Longrightarrow> w_unpack E (pack v) = Inr v"
    and "ip \<in> reg" and "parse_bytes U (parser_cfg cfg) payload = (Some r, why)"
    and "plain_text ip" and "plain_text (protocol r)" and "plain_text (subscriber_id r)"
    and "0 \<le> time" and "time < 2 ^ 63" and "w_ts_ok E time"
    and "procs st w = Looping" and "\<not> stops st w"
    and "V (sys_redis st) (inflight_key w) = []" and "V (sys_redis st) (queue_key (w_queue E)) = []"
  shows "\<exists>g s' st'. ingest_run U pack (w_redis E) (w_queue E) cfg reg (pushed_now payload ip time)
        (new_ingest m, sys_redis st) = (g, s')
    \<and> pipe_run E [Work w (DoClaim Reply), Work w (DoInsert Inserted), Work w (DoAck Reply)]
        (st\<lparr>sys_redis := s'\<rparr>) = st'
    \<and> in_hand g = [] \<and> V (sys_redis st') (queue_key (w_queue E)) = []
    \<and> V (sys_redis st') (inflight_key w) = []
    \<and> T (sys_ch st') = T (sys_ch st) + {#(time, tl (as_row r time ip))#}"
proof -
  have P: "pipeline E V T" using assms(1-5) by (rule pipelineI)
  have "parse U (parser_cfg cfg) (decode_replace payload) = (Some r, why)"
    using assms(8) by (simp add: parse_bytes_def)
  note ok = parse_record_ok [OF this]
  let ?row = "as_row r time ip"
  have "packable (MList ?row)"
    using ok canonical_plain assms(9-13) by (simp add: as_row_def valid_port_def)
  then have "w_unpack E (encode pack ?row) = Inr (MList ?row)" using assms(6) by (simp add: encode_def)
  then have dec: "decode (w_unpack E) (encode pack ?row) = Some ?row" by (simp add: decode_def as_row_def)
  have ts: "fromtimestamp (w_ts_ok E) (hd ?row) = Inr time"
    using assms(14) by (simp add: fromtimestamp_def as_row_def)
  have good: "good_row E (encode pack ?row) = Some (time, tl ?row)" "\<not> poison E (encode pack ?row)"
    using dec ts by (simp_all add: good_row_def poison_def)
  obtain g s' where recv: "ingest_run U pack (w_redis E) (w_queue E) cfg reg (pushed_now payload ip time)
      (new_ingest m, sys_redis st) = (g, s')" "in_hand g = []"
    and Vs: "V s' = (V (sys_redis st))(queue_key (w_queue E) := [encode pack ?row])"
    using receiver_part [OF assms(1,7,8)] assms(18) by (metis append_Nil)
  let ?st = "st\<lparr>sys_redis := s'\<rparr>"
  have held: "V s' (inflight_key w) = []"
    using Vs assms(17) plain_queue_neq(1) [OF assms(3), of w] by simp
  have "length (V (sys_redis ?st) (queue_key (w_queue E))) \<le> 1 * w_batch E" using Vs assms(5) by simp
  then obtain st' where st': "pipe_run E (concat (replicate 1
        [Work w (DoClaim Reply), Work w (DoInsert Inserted), Work w (DoAck Reply)])) ?st = st'"
    "V (sys_redis st') (queue_key (w_queue E)) = []" "V (sys_redis st') (inflight_key w) = []"
    "T (sys_ch st') = T (sys_ch ?st) + goods E (V (sys_redis ?st) (queue_key (w_queue E)))"
    using pipeline.rounds_drain [OF P, of ?st w 1] assms(15,16) held Vs good by auto
  have "goods E (V (sys_redis ?st) (queue_key (w_queue E))) = {#(time, tl ?row)#}"
    using Vs good(1) by simp
  then show ?thesis using recv st' by (intro exI [of _ g] exI [of _ s'] exI [of _ st']) simp
qed

text \<open>The witness: one line of a router through the reference Redis into a list of rows.\<close>

theorem end_to_end_witness:
  "\<exists>g s' st'. ingest_run ascii_only unary_pack ref_redis default_queue demo_cfg {[]}
        (pushed_now demo_line [] 1756500000) (new_ingest fresh_metrics, sys_redis (demo_sys Looping [])) = (g, s')
    \<and> pipe_run unary_env [Work ''w1'' (DoClaim Reply), Work ''w1'' (DoInsert Inserted), Work ''w1'' (DoAck Reply)]
        ((demo_sys Looping [])\<lparr>sys_redis := s'\<rparr>) = st'
    \<and> mset (sys_ch st') = {#(1756500000, tl (as_row demo_parsed 1756500000 []))#}"
proof -
  have "plain_text []" "plain_text (protocol demo_parsed)" "plain_text (subscriber_id demo_parsed)"
    by (simp_all add: plain_text_def demo_parsed_def)
  moreover have "parse_bytes ascii_only (parser_cfg demo_cfg) demo_line = (Some demo_parsed, OK)"
    using demo_line_parses by (simp add: demo_cfg_def)
  ultimately show ?thesis
    using end_to_end [of unary_env ref_list mset unary_pack "[]" "{[]}" ascii_only demo_cfg demo_line
        demo_parsed OK 1756500000 "demo_sys Looping []" "''w1''" fresh_metrics]
      ref_lists default_plain demo_table.row_store_axioms
    by (simp add: unary_env_def unary_codec queue_key_default) (auto simp: demo_env_def)
qed

end
